theory Spec2Isabelle
  imports Main "HOL-Library.Multiset" "HOL-Library.Monad_Syntax"
begin

section \<open>Data model of proc.c\<close>

text \<open>
  The scheduler state of \<^verbatim>\<open>proc.c\<close> is the global \<^verbatim>\<open>ptable\<close>. The headers
  \<^verbatim>\<open>proc.h\<close>, \<^verbatim>\<open>scheduler.h\<close>, \<^verbatim>\<open>param.h\<close> and \<^verbatim>\<open>list.h\<close> are not part of the
  sources, so the compile-time constants are parameters of the model (a record
  \<open>config\<close>) and the list primitives are modelled from the specification.

  C \<^verbatim>\<open>int\<close> fields (ticks, tickets, pass, sizes) are HOL integers: no wrap-around is
  modelled, the values of interest stay far from the 32-bit bounds. Array indices
  that the code uses only with non-negative values (\<^verbatim>\<open>privlevel\<close>, slot numbers) are
  natural numbers.
\<close>

datatype procstate = UNUSED | EMBRYO | SLEEPING | RUNNABLE | RUNNING | ZOMBIE

datatype schedtype = MLFQ | STRIDE

text \<open>A sleep channel is an opaque pointer: null, the address of a process slot
  (as used by \<^verbatim>\<open>wait\<close> and \<^verbatim>\<open>exit\<close>), or any other address.\<close>

datatype chan_t = NoChan | ProcChan nat | AddrChan nat

record proc =
  state :: procstate
  pid :: int
  killed :: int
  chan :: chan_t
  ptype :: schedtype
  privlevel :: nat
  ticks :: int
  tickets :: int
  pass :: int
  parent :: "nat option"

text \<open>
  The addresses of the \<^verbatim>\<open>struct list_head\<close> objects the scheduler links: the
  sentinel heads \<^verbatim>\<open>ptable.mlfq.queue[l]\<close>, \<^verbatim>\<open>ptable.stride.run\<close>, \<^verbatim>\<open>ptable.sleep\<close>,
  \<^verbatim>\<open>ptable.free\<close>, the member \<^verbatim>\<open>queue\<close> of process slot \<open>i\<close>, the members
  \<^verbatim>\<open>children\<close> and \<^verbatim>\<open>sibling\<close> of slot \<open>i\<close>, and the null pointer.
\<close>

datatype lnode =
    NullNode
  | QueueHead nat
  | RunHead
  | SleepHead
  | FreeHead
  | ProcNode nat
  | ChildrenHead nat
  | SiblingNode nat

text \<open>The tunables of \<^verbatim>\<open>scheduler.h\<close> and \<^verbatim>\<open>param.h\<close>, taken as parameters.\<close>

record config =
  NPROC :: nat
  QSIZE :: nat
  TQ :: "nat \<Rightarrow> int"
  TA :: "nat \<Rightarrow> int"
  BOOSTINTERVAL :: int
  RESERVE :: int
  LARGE :: int
  BARRIER :: int
  MAXINT :: int

text \<open>
  The global \<^verbatim>\<open>ptable\<close> (the nested structs \<^verbatim>\<open>mlfq\<close> and \<^verbatim>\<open>stride\<close> are flattened,
  their fields prefixed), together with \<^verbatim>\<open>initproc\<close>. The \<^verbatim>\<open>next\<close> and \<^verbatim>\<open>prev\<close>
  members of every \<^verbatim>\<open>list_head\<close> are the two stores \<open>lnext\<close> and \<open>lprev\<close>, indexed by
  the address of the \<^verbatim>\<open>list_head\<close>.
\<close>

record ptable =
  procs :: "nat \<Rightarrow> proc"
  mlfq_pin :: "nat \<Rightarrow> lnode"
  mlfq_ticks :: int
  mlfq_pass :: int
  mlfq_tickets :: int
  stride_minheap :: "int \<Rightarrow> nat"
  stride_size :: int
  lnext :: "lnode \<Rightarrow> lnode"
  lprev :: "lnode \<Rightarrow> lnode"
  initproc :: "nat option"

definition upd_proc :: "nat \<Rightarrow> (proc \<Rightarrow> proc) \<Rightarrow> ptable \<Rightarrow> ptable" where
  "upd_proc i f s = s\<lparr>procs := (procs s)(i := f (procs s i))\<rparr>"

text \<open>Modelled from the spec: \<^verbatim>\<open>STRD(t) = LARGE / t\<close> of \<^verbatim>\<open>scheduler.h\<close>. C division
  truncates towards zero; division by zero traps and is excluded by the callers'
  hypotheses.\<close>

definition cdiv :: "int \<Rightarrow> int \<Rightarrow> int" where
  "cdiv a b = sgn a * sgn b * (\<bar>a\<bar> div \<bar>b\<bar>)"

definition cmod :: "int \<Rightarrow> int \<Rightarrow> int" where
  "cmod a b = a - cdiv a b * b"

definition STRD :: "config \<Rightarrow> int \<Rightarrow> int" where
  "STRD cfg t = cdiv (LARGE cfg) t"

section \<open>Intrusive lists\<close>

text \<open>
  Modelled from the spec: the primitives of \<^verbatim>\<open>list.h\<close> (a cyclic doubly-linked list
  with a sentinel header: init, add after the head, add before the head, del, empty,
  bulk move to the tail). \<open>list_del\<close> updates only the neighbours of the removed
  node, as the specification requires.
\<close>

definition list_head_init :: "lnode \<Rightarrow> ptable \<Rightarrow> ptable" where
  "list_head_init n s = s\<lparr>lnext := (lnext s)(n := n), lprev := (lprev s)(n := n)\<rparr>"

definition list_add_between :: "lnode \<Rightarrow> lnode \<Rightarrow> lnode \<Rightarrow> ptable \<Rightarrow> ptable" where
  "list_add_between new pv nx s =
     s\<lparr>lprev := ((lprev s)(nx := new))(new := pv),
       lnext := ((lnext s)(new := nx))(pv := new)\<rparr>"

definition list_add :: "lnode \<Rightarrow> lnode \<Rightarrow> ptable \<Rightarrow> ptable" where
  "list_add new head s = list_add_between new head (lnext s head) s"

definition list_add_tail :: "lnode \<Rightarrow> lnode \<Rightarrow> ptable \<Rightarrow> ptable" where
  "list_add_tail new head s = list_add_between new (lprev s head) head s"

definition list_del :: "lnode \<Rightarrow> ptable \<Rightarrow> ptable" where
  "list_del entry s =
     (let pv = lprev s entry; nx = lnext s entry
      in s\<lparr>lprev := (lprev s)(nx := pv), lnext := (lnext s)(pv := nx)\<rparr>)"

definition list_empty :: "lnode \<Rightarrow> ptable \<Rightarrow> bool" where
  "list_empty head s = (lnext s head = head)"

definition list_is_head :: "lnode \<Rightarrow> lnode \<Rightarrow> bool" where
  "list_is_head itr head = (itr = head)"

definition list_bulk_move_tail :: "lnode \<Rightarrow> lnode \<Rightarrow> ptable \<Rightarrow> ptable" where
  "list_bulk_move_tail src dst s =
     (if list_empty src s then s
      else
        let first = lnext s src; last = lprev s src; at = lprev s dst;
            s1 = s\<lparr>lprev := (lprev s)(first := at)\<rparr>;
            s2 = s1\<lparr>lnext := (lnext s1)(at := first)\<rparr>;
            s3 = s2\<lparr>lnext := (lnext s2)(last := dst)\<rparr>;
            s4 = s3\<lparr>lprev := (lprev s3)(dst := last)\<rparr>
        in list_head_init src s4)"

text \<open>\<^verbatim>\<open>list_entry(itr, struct proc, queue)\<close>: the slot whose \<^verbatim>\<open>queue\<close> member is at
  \<open>itr\<close>. For any other address the C expression yields a pointer to no process.\<close>

fun list_entry :: "lnode \<Rightarrow> nat option" where
  "list_entry (ProcNode i) = Some i"
| "list_entry _ = None"

section \<open>The stride heap\<close>

definition getminpass :: "config \<Rightarrow> ptable \<Rightarrow> int" where
  "getminpass cfg s =
     (if stride_size s > 0 then pass (procs s (stride_minheap s 1)) else MAXINT cfg)"

text \<open>The sift-up loop of \<^verbatim>\<open>pushheap\<close>: \<open>key\<close> reads \<^verbatim>\<open>->pass\<close> through a heap entry,
  \<open>x\<close> is \<^verbatim>\<open>p->pass\<close>. It returns the array and the final index \<open>i\<close>.\<close>

partial_function (option) pushheap_loop ::
  "(nat \<Rightarrow> int) \<Rightarrow> int \<Rightarrow> (int \<Rightarrow> nat) \<Rightarrow> int \<Rightarrow> ((int \<Rightarrow> nat) \<times> int) option" where
  "pushheap_loop key x h i =
     (if i \<noteq> 1 \<and> x < key (h (cdiv i 2))
      then pushheap_loop key x (h(i := h (cdiv i 2))) (cdiv i 2)
      else Some (h, i))"

definition pushheap :: "nat \<Rightarrow> ptable \<Rightarrow> ptable option" where
  "pushheap p s =
     (let i = stride_size s + 1;
          s1 = s\<lparr>stride_size := i\<rparr>
      in case pushheap_loop (\<lambda>k. pass (procs s1 k)) (pass (procs s1 p)) (stride_minheap s1) i of
           None \<Rightarrow> None
         | Some (h, j) \<Rightarrow> Some (s1\<lparr>stride_minheap := h(j := p)\<rparr>))"

text \<open>The sift-down loop of \<^verbatim>\<open>popheap\<close>: \<open>n\<close> is the decremented size, \<open>y\<close> is
  \<^verbatim>\<open>last->pass\<close>. It returns the array and the final \<^verbatim>\<open>parent\<close>.\<close>

partial_function (option) popheap_loop ::
  "(nat \<Rightarrow> int) \<Rightarrow> int \<Rightarrow> int \<Rightarrow> (int \<Rightarrow> nat) \<Rightarrow> int \<Rightarrow> int \<Rightarrow> ((int \<Rightarrow> nat) \<times> int) option" where
  "popheap_loop key y n h par child =
     (if child \<le> n then
        (let c = (if child < n \<and> key (h child) > key (h (child + 1)) then child + 1 else child)
         in if y \<le> key (h c) then Some (h, par)
            else popheap_loop key y n (h(par := h c)) c (c * 2))
      else Some (h, par))"

definition popheap :: "ptable \<Rightarrow> (nat \<times> ptable) option" where
  "popheap s =
     (let h = stride_minheap s;
          m = h 1;
          last = h (stride_size s);
          s1 = s\<lparr>stride_size := stride_size s - 1\<rparr>
      in case popheap_loop (\<lambda>k. pass (procs s1 k)) (pass (procs s1 last)) (stride_size s1) h 1 2 of
           None \<Rightarrow> None
         | Some (h', par) \<Rightarrow> Some (m, s1\<lparr>stride_minheap := h'(par := last)\<rparr>))"

text \<open>The heap property on \<^verbatim>\<open>minheap[1..n]\<close>, in the form of the specification: each
  index is no larger (by pass) than its children, where they exist.\<close>

definition heap_ok :: "(nat \<Rightarrow> int) \<Rightarrow> (int \<Rightarrow> nat) \<Rightarrow> int \<Rightarrow> bool" where
  "heap_ok key h n =
     list_all (\<lambda>i. (2 * i \<le> n \<longrightarrow> key (h i) \<le> key (h (2 * i))) \<and>
                   (2 * i + 1 \<le> n \<longrightarrow> key (h i) \<le> key (h (2 * i + 1)))) [1..n]"

definition heap_inv :: "ptable \<Rightarrow> bool" where
  "heap_inv s = heap_ok (\<lambda>k. pass (procs s k)) (stride_minheap s) (stride_size s)"

text \<open>The entries of the heap, as a multiset of slots.\<close>

definition heap_elems :: "ptable \<Rightarrow> nat multiset" where
  "heap_elems s = mset (map (stride_minheap s) [1..stride_size s])"

section \<open>Functions of proc.c\<close>

text \<open>
  A function that contains a loop over a linked list, a division or a \<^verbatim>\<open>panic\<close>
  returns an \<open>option\<close>: \<open>None\<close> stands for every outcome other than a normal
  return (the loop does not terminate, the kernel panics, the CPU traps on a
  division by zero, or \<^verbatim>\<open>list_entry\<close> is applied to a node that is no process).
  \<^verbatim>\<open>myproc()\<close> is the parameter \<open>cur\<close>, the slot of the calling process. The
  acquisition and release of \<^verbatim>\<open>ptable.lock\<close> are not modelled: each function is
  one atomic transition of the state the lock protects.
\<close>

definition inctick :: "nat \<Rightarrow> ptable \<Rightarrow> ptable" where
  "inctick cur s = upd_proc cur (\<lambda>p. p\<lparr>ticks := ticks p + 1\<rparr>) s"

definition enqueue :: "nat \<Rightarrow> nat \<Rightarrow> ptable \<Rightarrow> ptable" where
  "enqueue level p s = list_add_tail (ProcNode p) (QueueHead level) s"

definition concatqueue :: "nat \<Rightarrow> nat \<Rightarrow> ptable \<Rightarrow> ptable" where
  "concatqueue src dst s =
     (let srcq = QueueHead src; dstq = QueueHead dst;
          s1 = (if list_empty dstq s \<and> mlfq_pin s src \<noteq> srcq
                then s\<lparr>mlfq_pin := (mlfq_pin s)(dst := mlfq_pin s src)\<rparr> else s);
          s2 = s1\<lparr>mlfq_pin := (mlfq_pin s1)(src := srcq)\<rparr>
      in list_bulk_move_tail srcq dstq s2)"

definition dequeue :: "nat \<Rightarrow> ptable \<Rightarrow> ptable" where
  "dequeue p s =
     (let lvl = privlevel (procs s p); itr = ProcNode p;
          s1 = (if mlfq_pin s lvl = itr
                then s\<lparr>mlfq_pin := (mlfq_pin s)(lvl := lnext s itr)\<rparr> else s)
      in list_del itr s1)"

definition set_cpu_share :: "config \<Rightarrow> nat \<Rightarrow> int \<Rightarrow> ptable \<Rightarrow> int \<times> ptable" where
  "set_cpu_share cfg cur share s =
     (if share < 1 \<or> share > 100 - RESERVE cfg then (- 1, s)
      else
        let remain0 = mlfq_tickets s;
            remain = (if ptype (procs s cur) = STRIDE
                      then remain0 + tickets (procs s cur) else remain0)
        in if remain - share \<ge> RESERVE cfg then
             let s1 = (if ptype (procs s cur) = MLFQ then
                         let sa = dequeue cur s;
                             minpass = getminpass cfg sa;
                             mlfqpass = mlfq_pass sa;
                             sb = upd_proc cur
                                    (\<lambda>p. p\<lparr>pass := (if minpass < mlfqpass then minpass else mlfqpass)\<rparr>) sa;
                             sc = upd_proc cur (\<lambda>p. p\<lparr>ptype := STRIDE\<rparr>) sb
                         in list_add (ProcNode cur) RunHead sc
                       else s);
                 s2 = s1\<lparr>mlfq_tickets := remain - share\<rparr>;
                 s3 = upd_proc cur (\<lambda>p. p\<lparr>tickets := share\<rparr>) s2
             in (0, s3)
           else (- 1, s))"

definition pinit :: "config \<Rightarrow> ptable \<Rightarrow> ptable" where
  "pinit cfg s =
     (let s1 = fold (\<lambda>i t. (list_head_init (QueueHead i) t)
                              \<lparr>mlfq_pin := (mlfq_pin (list_head_init (QueueHead i) t))(i := QueueHead i)\<rparr>)
                    [0..<QSIZE cfg] s;
          s2 = list_head_init RunHead s1;
          s3 = list_head_init SleepHead s2;
          s4 = list_head_init FreeHead s3;
          s5 = fold (\<lambda>i t. list_add_tail (ProcNode i) FreeHead t) [0..<NPROC cfg] s4
      in s5\<lparr>mlfq_tickets := 100\<rparr>)"

subsection \<open>wakeup1, kill, sleep, yield, exit\<close>

text \<open>The loop of \<^verbatim>\<open>wakeup1\<close> over the sleep list; \<open>itr\<close> is the loop variable.\<close>

partial_function (option) wakeup1_loop :: "chan_t \<Rightarrow> lnode \<Rightarrow> ptable \<Rightarrow> ptable option" where
  "wakeup1_loop c itr s =
     (if itr = SleepHead then Some s
      else case list_entry itr of
        None \<Rightarrow> None
      | Some p \<Rightarrow>
          if chan (procs s p) = c then
            let pv = lprev s itr;
                s1 = list_del itr s;
                s2 = upd_proc p (\<lambda>x. x\<lparr>state := RUNNABLE\<rparr>) s1;
                s3 = (if ptype (procs s2 p) = MLFQ then enqueue (privlevel (procs s2 p)) p s2 else s2)
            in wakeup1_loop c (lnext s3 pv) s3
          else wakeup1_loop c (lnext s itr) s)"

definition wakeup1 :: "chan_t \<Rightarrow> ptable \<Rightarrow> ptable option" where
  "wakeup1 c s = wakeup1_loop c (lnext s SleepHead) s"

text \<open>\<^verbatim>\<open>kill\<close>: the scan of the slot array, as a recursion over the slots still to
  visit.\<close>

fun kill_scan :: "int \<Rightarrow> nat list \<Rightarrow> ptable \<Rightarrow> int \<times> ptable" where
  "kill_scan k [] s = (- 1, s)"
| "kill_scan k (i # is) s =
     (if pid (procs s i) = k then
        let s1 = upd_proc i (\<lambda>x. x\<lparr>killed := 1\<rparr>) s;
            s2 = (if state (procs s1 i) = SLEEPING then
                    let sa = list_del (ProcNode i) s1;
                        sb = upd_proc i (\<lambda>x. x\<lparr>state := RUNNABLE\<rparr>) sa
                    in (if ptype (procs sb i) = MLFQ then enqueue (privlevel (procs sb i)) i sb else sb)
                  else s1)
        in (0, s2)
      else kill_scan k is s)"

definition kill :: "config \<Rightarrow> int \<Rightarrow> ptable \<Rightarrow> int \<times> ptable" where
  "kill cfg k s = kill_scan k [0..<NPROC cfg] s"

text \<open>\<^verbatim>\<open>sleep\<close> and \<^verbatim>\<open>yield\<close> up to their call of \<^verbatim>\<open>sched()\<close>, which switches to the
  scheduler loop with the lock held.\<close>

definition sleep :: "nat \<Rightarrow> chan_t \<Rightarrow> ptable \<Rightarrow> ptable" where
  "sleep cur c s =
     (let s1 = upd_proc cur (\<lambda>x. x\<lparr>chan := c\<rparr>) s;
          s2 = (if ptype (procs s1 cur) = MLFQ then dequeue cur s1 else list_del (ProcNode cur) s1);
          s3 = upd_proc cur (\<lambda>x. x\<lparr>state := SLEEPING\<rparr>) s2
      in list_add (ProcNode cur) SleepHead s3)"

definition yield :: "nat \<Rightarrow> ptable \<Rightarrow> ptable" where
  "yield cur s =
     (let s1 = (if ptype (procs s cur) = STRIDE then list_del (ProcNode cur) s else s)
      in upd_proc cur (\<lambda>x. x\<lparr>state := RUNNABLE\<rparr>) s1)"

definition proc_chan :: "nat option \<Rightarrow> chan_t" where
  "proc_chan p = (case p of None \<Rightarrow> NoChan | Some i \<Rightarrow> ProcChan i)"

text \<open>The loop of \<^verbatim>\<open>exit\<close> that passes the children of \<open>cur\<close> to \<^verbatim>\<open>initproc\<close>.\<close>

partial_function (option) exit_children_loop :: "nat \<Rightarrow> lnode \<Rightarrow> ptable \<Rightarrow> ptable option" where
  "exit_children_loop cur itr s =
     (if itr = ChildrenHead cur then Some s
      else case itr of
        SiblingNode c \<Rightarrow>
          (let s1 = upd_proc c (\<lambda>x. x\<lparr>parent := initproc s\<rparr>) s
           in if state (procs s1 c) = ZOMBIE
              then (case wakeup1 (proc_chan (initproc s1)) s1 of
                      None \<Rightarrow> None
                    | Some s2 \<Rightarrow> exit_children_loop cur (lnext s2 itr) s2)
              else exit_children_loop cur (lnext s1 itr) s1)
      | _ \<Rightarrow> None)"

text \<open>\<^verbatim>\<open>exit\<close> from the acquisition of the lock to the call of \<^verbatim>\<open>sched()\<close>; closing the
  files and the working directory does not touch the scheduler state.\<close>

definition exit :: "nat \<Rightarrow> ptable \<Rightarrow> ptable option" where
  "exit cur s =
     (if Some cur = initproc s then None
      else case initproc s of
        None \<Rightarrow> None
      | Some ini \<Rightarrow>
          do {
            s1 \<leftarrow> wakeup1 (proc_chan (parent (procs s cur))) s;
            s2 \<leftarrow> exit_children_loop cur (lnext s1 (ChildrenHead cur)) s1;
            let s3 = list_bulk_move_tail (ChildrenHead cur) (ChildrenHead ini) s2;
                s4 = (if ptype (procs s3 cur) = MLFQ then dequeue cur s3
                      else list_del (ProcNode cur)
                             (s3\<lparr>mlfq_tickets := mlfq_tickets s3 + tickets (procs s3 cur)\<rparr>))
            in Some (upd_proc cur (\<lambda>x. x\<lparr>state := ZOMBIE\<rparr>) s4)
          })"

subsection \<open>MLFQ selection and accounting\<close>

text \<open>The \<^verbatim>\<open>do ... while\<close> loop of \<^verbatim>\<open>mlfqselect\<close> at one level: \<open>q\<close> is the queue head,
  \<open>pin\<close> the value of \<^verbatim>\<open>*ppin\<close>, \<open>itr\<close> the loop variable. The result is the node and
  slot found, or \<open>None\<close> after a full round.\<close>

partial_function (option) mlfqselect_walk ::
  "ptable \<Rightarrow> lnode \<Rightarrow> lnode \<Rightarrow> lnode \<Rightarrow> (lnode \<times> nat) option option" where
  "mlfqselect_walk s q pin itr =
     (if \<not> list_is_head itr q then
        (case list_entry itr of
           None \<Rightarrow> None
         | Some p \<Rightarrow>
             if state (procs s p) = RUNNABLE then Some (Some (itr, p))
             else if lnext s itr \<noteq> pin then mlfqselect_walk s q pin (lnext s itr)
             else Some None)
      else if lnext s itr \<noteq> pin then mlfqselect_walk s q pin (lnext s itr)
      else Some None)"

fun mlfqselect_levels :: "nat list \<Rightarrow> ptable \<Rightarrow> (nat option \<times> ptable) option" where
  "mlfqselect_levels [] s = Some (None, s)"
| "mlfqselect_levels (l # ls) s =
     (case mlfqselect_walk s (QueueHead l) (mlfq_pin s l) (mlfq_pin s l) of
        None \<Rightarrow> None
      | Some (Some (itr, p)) \<Rightarrow> Some (Some p, s\<lparr>mlfq_pin := (mlfq_pin s)(l := itr)\<rparr>)
      | Some None \<Rightarrow> mlfqselect_levels ls s)"

definition mlfqselect :: "config \<Rightarrow> ptable \<Rightarrow> (nat option \<times> ptable) option" where
  "mlfqselect cfg s = mlfqselect_levels [0..<QSIZE cfg] s"

text \<open>The two inner loops of the priority boost have the same body: every process
  on the list headed by \<open>q\<close> gets \<^verbatim>\<open>privlevel = 0\<close> and \<^verbatim>\<open>ticks = 0\<close>.\<close>

partial_function (option) boost_reset_loop :: "lnode \<Rightarrow> lnode \<Rightarrow> ptable \<Rightarrow> ptable option" where
  "boost_reset_loop q itr s =
     (if itr = q then Some s
      else case list_entry itr of
        None \<Rightarrow> None
      | Some i \<Rightarrow>
          (let s1 = upd_proc i (\<lambda>x. x\<lparr>privlevel := 0\<rparr>) s;
               s2 = upd_proc i (\<lambda>x. x\<lparr>ticks := 0\<rparr>) s1
           in boost_reset_loop q (lnext s2 itr) s2))"

fun boost_levels :: "nat list \<Rightarrow> ptable \<Rightarrow> ptable option" where
  "boost_levels [] s = Some s"
| "boost_levels (l # ls) s =
     (case boost_reset_loop (QueueHead l) (lnext s (QueueHead l)) s of
        None \<Rightarrow> None
      | Some s1 \<Rightarrow> boost_levels ls (concatqueue l 0 s1))"

definition priority_boost :: "config \<Rightarrow> ptable \<Rightarrow> ptable option" where
  "priority_boost cfg s =
     (if BOOSTINTERVAL cfg = 0 then None
      else if cmod (mlfq_ticks s) (BOOSTINTERVAL cfg) = 0 then
        do {
          s1 \<leftarrow> boost_levels [1..<QSIZE cfg] s;
          boost_reset_loop SleepHead (lnext s1 SleepHead) s1
        }
      else Some s)"

text \<open>The \<^verbatim>\<open>switch\<close> of \<^verbatim>\<open>mlfqlogic\<close>; \<open>lvl\<close> is \<^verbatim>\<open>p->privlevel\<close> at entry, which fixes
  \<^verbatim>\<open>ppin\<close>.\<close>

definition mlfq_account :: "config \<Rightarrow> nat \<Rightarrow> ptable \<Rightarrow> ptable option" where
  "mlfq_account cfg p s =
     (let lvl = privlevel (procs s p); base = int (QSIZE cfg) - 1
      in case state (procs s p) of
        RUNNABLE \<Rightarrow>
          (let s1 = upd_proc p (\<lambda>x. x\<lparr>ticks := ticks x + 1\<rparr>) s
           in if int lvl < base \<and> TA cfg lvl = 0 then None
              else if int lvl < base \<and> cmod (ticks (procs s1 p)) (TA cfg lvl) = 0 then
                (let s2 = dequeue p s1;
                     s3 = upd_proc p (\<lambda>x. x\<lparr>privlevel := privlevel x + 1\<rparr>) s2;
                     s4 = enqueue (privlevel (procs s3 p)) p s3
                 in Some (upd_proc p (\<lambda>x. x\<lparr>ticks := 0\<rparr>) s4))
              else if TQ cfg lvl = 0 then None
              else if cmod (ticks (procs s1 p)) (TQ cfg lvl) = 0 then
                Some (s1\<lparr>mlfq_pin := (mlfq_pin s1)(lvl := lnext s1 (ProcNode p))\<rparr>)
              else Some s1)
      | SLEEPING \<Rightarrow>
          (if int lvl < base \<and> ticks (procs s p) \<ge> TA cfg lvl then
             (let s1 = upd_proc p (\<lambda>x. x\<lparr>privlevel := privlevel x + 1\<rparr>) s
              in Some (upd_proc p (\<lambda>x. x\<lparr>ticks := 0\<rparr>) s1))
           else if TQ cfg lvl = 0 then None
           else Some (upd_proc p (\<lambda>x. x\<lparr>ticks := cdiv (ticks x) (TQ cfg lvl) * TQ cfg lvl\<rparr>) s))
      | ZOMBIE \<Rightarrow> Some s
      | _ \<Rightarrow> None)"

definition mlfqlogic :: "config \<Rightarrow> nat \<Rightarrow> ptable \<Rightarrow> ptable option" where
  "mlfqlogic cfg p s =
     do {
       s1 \<leftarrow> mlfq_account cfg p (s\<lparr>mlfq_ticks := mlfq_ticks s + 1\<rparr>);
       priority_boost cfg s1
     }"

subsection \<open>Stride accounting and the scheduler loop\<close>

text \<open>The loop of \<^verbatim>\<open>stridelogic\<close> over the run list.\<close>

partial_function (option) rebase_run_loop :: "int \<Rightarrow> lnode \<Rightarrow> ptable \<Rightarrow> ptable option" where
  "rebase_run_loop minpass itr s =
     (if itr = RunHead then Some s
      else case list_entry itr of
        None \<Rightarrow> None
      | Some i \<Rightarrow>
          (let s1 = upd_proc i (\<lambda>x. x\<lparr>pass := pass x - minpass\<rparr>) s
           in rebase_run_loop minpass (lnext s1 itr) s1))"

definition rebase_heap :: "int \<Rightarrow> ptable \<Rightarrow> ptable" where
  "rebase_heap minpass s =
     fold (\<lambda>i t. upd_proc (stride_minheap t i) (\<lambda>x. x\<lparr>pass := pass x - minpass\<rparr>) t)
          [1..stride_size s] s"

definition rebase :: "config \<Rightarrow> nat option \<Rightarrow> ptable \<Rightarrow> ptable option" where
  "rebase cfg p s =
     (let minpass = (case p of
                       None \<Rightarrow> mlfq_pass s
                     | Some i \<Rightarrow> if ptype (procs s i) = MLFQ then mlfq_pass s else pass (procs s i))
      in if minpass > BARRIER cfg then
           do {
             s1 \<leftarrow> rebase_run_loop minpass (lnext (rebase_heap minpass s) RunHead) (rebase_heap minpass s);
             Some (s1\<lparr>mlfq_pass := mlfq_pass s1 - minpass\<rparr>)
           }
         else Some s)"

definition advance_pass :: "config \<Rightarrow> nat option \<Rightarrow> ptable \<Rightarrow> ptable option" where
  "advance_pass cfg p s =
     (case p of
        None \<Rightarrow>
          if mlfq_tickets s = 0 then None
          else Some (s\<lparr>mlfq_pass := mlfq_pass s + STRD cfg (mlfq_tickets s)\<rparr>)
      | Some i \<Rightarrow>
          if ptype (procs s i) = MLFQ then
            (if mlfq_tickets s = 0 then None
             else Some (s\<lparr>mlfq_pass := mlfq_pass s + STRD cfg (mlfq_tickets s)\<rparr>))
          else if state (procs s i) = RUNNABLE \<or> state (procs s i) = SLEEPING then
            (if tickets (procs s i) = 0 then None
             else pushheap i (upd_proc i (\<lambda>x. x\<lparr>pass := pass x + STRD cfg (tickets x)\<rparr>) s))
          else Some s)"

definition stridelogic :: "config \<Rightarrow> nat option \<Rightarrow> ptable \<Rightarrow> ptable option" where
  "stridelogic cfg p s = do { s1 \<leftarrow> rebase cfg p s; advance_pass cfg p s1 }"

text \<open>
  One iteration of the loop of \<^verbatim>\<open>scheduler\<close> is cut at \<^verbatim>\<open>swtch\<close>. \<open>scheduler_select\<close>
  is the choice of \<open>p\<close>; \<open>scheduler_dispatch\<close> runs the iteration up to \<^verbatim>\<open>swtch\<close> when a
  RUNNABLE process was chosen (result \<open>Switched\<close>) and to the end of the iteration
  otherwise (result \<open>Looped\<close>); \<open>scheduler_return\<close> is the rest of the iteration, after
  the process has given the CPU back through \<^verbatim>\<open>sched()\<close>.
\<close>

datatype sched_step = Switched nat ptable | Looped ptable

definition scheduler_select :: "config \<Rightarrow> ptable \<Rightarrow> (nat option \<times> ptable) option" where
  "scheduler_select cfg s =
     (if getminpass cfg s < mlfq_pass s
      then map_option (\<lambda>(p, s'). (Some p, s')) (popheap s)
      else mlfqselect cfg s)"

definition scheduler_dispatch :: "config \<Rightarrow> ptable \<Rightarrow> sched_step option" where
  "scheduler_dispatch cfg s =
     do {
       (p, s1) \<leftarrow> scheduler_select cfg s;
       (case p of
          Some i \<Rightarrow>
            if state (procs s1 i) = RUNNABLE then
              (let s2 = (if ptype (procs s1 i) = STRIDE then list_add (ProcNode i) RunHead s1 else s1)
               in Some (Switched i (upd_proc i (\<lambda>x. x\<lparr>state := RUNNING\<rparr>) s2)))
            else map_option Looped (stridelogic cfg p s1)
        | None \<Rightarrow> map_option Looped (stridelogic cfg p s1))
     }"

definition scheduler_return :: "config \<Rightarrow> nat \<Rightarrow> ptable \<Rightarrow> ptable option" where
  "scheduler_return cfg p s =
     do {
       s1 \<leftarrow> (if ptype (procs s p) = MLFQ then mlfqlogic cfg p s else Some s);
       stridelogic cfg (Some p) s1
     }"

section \<open>Example configuration and states\<close>

text \<open>A small configuration (four slots, three levels) and concrete states on which
  the theorems below are instantiated.\<close>

definition cfg_ex :: config where
  "cfg_ex = \<lparr>NPROC = 4, QSIZE = 3, TQ = (\<lambda>l. [1, 2, 4] ! l), TA = (\<lambda>l. [5, 10, 20] ! l),
             BOOSTINTERVAL = 100, RESERVE = 20, LARGE = 10000, BARRIER = 1000000,
             MAXINT = 2147483647\<rparr>"

definition proc0 :: proc where
  "proc0 = \<lparr>state = UNUSED, pid = 0, killed = 0, chan = NoChan, ptype = MLFQ, privlevel = 0,
            ticks = 0, tickets = 0, pass = 0, parent = None\<rparr>"

text \<open>The zero-initialised \<^verbatim>\<open>ptable\<close> before \<^verbatim>\<open>pinit\<close>.\<close>

definition bss :: ptable where
  "bss = \<lparr>procs = (\<lambda>i. proc0), mlfq_pin = (\<lambda>l. NullNode), mlfq_ticks = 0, mlfq_pass = 0,
          mlfq_tickets = 0, stride_minheap = (\<lambda>i. 0), stride_size = 0,
          lnext = (\<lambda>n. NullNode), lprev = (\<lambda>n. NullNode), initproc = None\<rparr>"

text \<open>Three stride processes in the heap (slots 1, 0, 2 with passes 3, 5, 8) and a
  fourth one (slot 3, pass 1) outside.\<close>

definition ex_heap :: ptable where
  "ex_heap = bss\<lparr>procs := (\<lambda>i. proc0\<lparr>state := RUNNABLE, ptype := STRIDE, tickets := 10,
                                      pass := [5, 3, 8, 1] ! i\<rparr>),
                 stride_minheap := (\<lambda>i. if i = 1 then 1 else if i = 2 then 0 else 2),
                 stride_size := 3\<rparr>"

section \<open>Auxiliary notions for the proofs\<close>

text \<open>The heap property in parent form.\<close>

definition heapP :: "(nat \<Rightarrow> int) \<Rightarrow> (int \<Rightarrow> nat) \<Rightarrow> int \<Rightarrow> bool" where
  "heapP key h n = (\<forall>j. 2 \<le> j \<and> j \<le> n \<longrightarrow> key (h (j div 2)) \<le> key (h j))"

text \<open>
  The abstraction of the intrusive lists. \<open>seg nx pv a xs b\<close>: following \<open>nx\<close> from \<open>a\<close>
  visits exactly \<open>xs\<close> and arrives at \<open>b\<close>, and \<open>pv\<close> leads back. \<open>ring s h xs\<close>: the
  list headed by the sentinel \<open>h\<close> is cyclic, well linked in both directions, and holds
  the nodes \<open>xs\<close> in this order.
\<close>

fun seg :: "(lnode \<Rightarrow> lnode) \<Rightarrow> (lnode \<Rightarrow> lnode) \<Rightarrow> lnode \<Rightarrow> lnode list \<Rightarrow> lnode \<Rightarrow> bool" where
  "seg nx pv a [] b = (nx a = b \<and> pv b = a)"
| "seg nx pv a (x # xs) b = (nx a = x \<and> pv x = a \<and> seg nx pv x xs b)"

definition ring :: "ptable \<Rightarrow> lnode \<Rightarrow> lnode list \<Rightarrow> bool" where
  "ring s h xs = (seg (lnext s) (lprev s) h xs h \<and> distinct (h # xs))"

text \<open>The sentinel heads of the scheduler, and the well-formedness of all its lists:
  \<open>L h\<close> is the content of the list headed by \<open>h\<close>; every member is the \<^verbatim>\<open>queue\<close> node
  of a process, and no node is on two lists.\<close>

definition heads :: "config \<Rightarrow> lnode list" where
  "heads cfg = map QueueHead [0..<QSIZE cfg] @ [RunHead, SleepHead, FreeHead]"

definition lists_ok :: "config \<Rightarrow> ptable \<Rightarrow> (lnode \<Rightarrow> lnode list) \<Rightarrow> bool" where
  "lists_ok cfg s L =
     ((\<forall>h\<in>set (heads cfg). ring s h (L h) \<and> (\<forall>n\<in>set (L h). list_entry n \<noteq> None)) \<and>
      (\<forall>h1\<in>set (heads cfg). \<forall>h2\<in>set (heads cfg). h1 \<noteq> h2 \<longrightarrow> set (L h1) \<inter> set (L h2) = {}))"

text \<open>Pin validity: the pin of each level is the head of its queue or a node on it.\<close>

definition pins_ok :: "config \<Rightarrow> ptable \<Rightarrow> (lnode \<Rightarrow> lnode list) \<Rightarrow> bool" where
  "pins_ok cfg s L =
     (\<forall>l<QSIZE cfg. mlfq_pin s l \<in> set (QueueHead l # L (QueueHead l)))"

text \<open>Ticket conservation: the tickets of the MLFQ side plus those of all stride
  processes that are RUNNABLE, SLEEPING or RUNNING.\<close>

definition active :: "procstate \<Rightarrow> bool" where
  "active st = (st = RUNNABLE \<or> st = SLEEPING \<or> st = RUNNING)"

definition stride_tickets :: "proc \<Rightarrow> int" where
  "stride_tickets p = (if ptype p = STRIDE \<and> active (state p) then tickets p else 0)"

definition tickets_conserved :: "config \<Rightarrow> ptable \<Rightarrow> bool" where
  "tickets_conserved cfg s =
     (mlfq_tickets s + (\<Sum>i<NPROC cfg. stride_tickets (procs s i)) = 100)"

text \<open>The order in which \<^verbatim>\<open>mlfqselect\<close> visits the nodes of one level: the cycle of
  the queue (head included) rotated so that it starts at the pin. \<open>level_pick\<close> is
  the first node in this order that is not the head and whose process is RUNNABLE.\<close>

definition rotate_to :: "'a \<Rightarrow> 'a list \<Rightarrow> 'a list" where
  "rotate_to x xs = dropWhile (\<lambda>y. y \<noteq> x) xs @ takeWhile (\<lambda>y. y \<noteq> x) xs"

definition runnable_node :: "ptable \<Rightarrow> lnode \<Rightarrow> lnode \<Rightarrow> bool" where
  "runnable_node s q n =
     (n \<noteq> q \<and> (case list_entry n of Some p \<Rightarrow> state (procs s p) = RUNNABLE | None \<Rightarrow> False))"

definition level_pick :: "ptable \<Rightarrow> (lnode \<Rightarrow> lnode list) \<Rightarrow> nat \<Rightarrow> lnode option" where
  "level_pick s L l =
     find (runnable_node s (QueueHead l))
          (rotate_to (mlfq_pin s l) (QueueHead l # L (QueueHead l)))"

text \<open>The body of the first loop of \<^verbatim>\<open>pinit\<close>.\<close>

definition pinit_queue :: "nat \<Rightarrow> ptable \<Rightarrow> ptable" where
  "pinit_queue i t = (list_head_init (QueueHead i) t)
                       \<lparr>mlfq_pin := (mlfq_pin (list_head_init (QueueHead i) t))(i := QueueHead i)\<rparr>"

text \<open>
  Waking one sleeper, the statements shared by the loop body of \<^verbatim>\<open>wakeup1\<close> and by
  \<^verbatim>\<open>kill\<close>: unlink, set RUNNABLE, enqueue if MLFQ. \<open>wake_one_lists\<close> is its effect on
  the contents of the lists.
\<close>

definition wake_one :: "nat \<Rightarrow> ptable \<Rightarrow> ptable" where
  "wake_one p s =
     (let s1 = list_del (ProcNode p) s;
          s2 = upd_proc p (\<lambda>x. x\<lparr>state := RUNNABLE\<rparr>) s1
      in if ptype (procs s2 p) = MLFQ then enqueue (privlevel (procs s2 p)) p s2 else s2)"

definition wake_one_lists :: "(nat \<Rightarrow> proc) \<Rightarrow> nat \<Rightarrow> (lnode \<Rightarrow> lnode list) \<Rightarrow> (lnode \<Rightarrow> lnode list)" where
  "wake_one_lists P p L =
     (let L1 = L(SleepHead := remove1 (ProcNode p) (L SleepHead))
      in if ptype (P p) = MLFQ
         then L1(QueueHead (privlevel (P p)) := L1 (QueueHead (privlevel (P p))) @ [ProcNode p])
         else L1)"

text \<open>The effect of \<^verbatim>\<open>wakeup1(c)\<close> on the processes and on the lists, when the sleep list
  is \<open>dn @ todo\<close> and the loop is about to visit \<open>todo\<close>.\<close>

definition woken :: "chan_t \<Rightarrow> (nat \<Rightarrow> proc) \<Rightarrow> lnode \<Rightarrow> bool" where
  "woken c P n = (case list_entry n of None \<Rightarrow> False | Some p \<Rightarrow> chan (P p) = c)"

definition woken_to :: "chan_t \<Rightarrow> (nat \<Rightarrow> proc) \<Rightarrow> nat \<Rightarrow> lnode \<Rightarrow> bool" where
  "woken_to c P l n =
     (case list_entry n of
        None \<Rightarrow> False
      | Some p \<Rightarrow> chan (P p) = c \<and> ptype (P p) = MLFQ \<and> privlevel (P p) = l)"

definition wake_procs :: "chan_t \<Rightarrow> lnode list \<Rightarrow> (nat \<Rightarrow> proc) \<Rightarrow> (nat \<Rightarrow> proc)" where
  "wake_procs c todo P =
     (\<lambda>i. if ProcNode i \<in> set todo \<and> chan (P i) = c then (P i)\<lparr>state := RUNNABLE\<rparr> else P i)"

definition wake_lists ::
  "chan_t \<Rightarrow> (nat \<Rightarrow> proc) \<Rightarrow> (lnode \<Rightarrow> lnode list) \<Rightarrow> lnode list \<Rightarrow> lnode list \<Rightarrow> (lnode \<Rightarrow> lnode list)" where
  "wake_lists c P L dn todo =
     (\<lambda>h. case h of
         SleepHead \<Rightarrow> dn @ filter (\<lambda>n. \<not> woken c P n) todo
       | QueueHead l \<Rightarrow> L h @ filter (woken_to c P l) todo
       | _ \<Rightarrow> L h)"

text \<open>Nodes that are neither scheduler heads nor \<^verbatim>\<open>queue\<close> members of a process (the
  \<^verbatim>\<open>children\<close> and \<^verbatim>\<open>sibling\<close> lists) keep their links.\<close>

definition outside_same :: "config \<Rightarrow> ptable \<Rightarrow> ptable \<Rightarrow> bool" where
  "outside_same cfg s s' =
     (\<forall>n. list_entry n = None \<and> n \<notin> set (heads cfg) \<longrightarrow>
          lnext s' n = lnext s n \<and> lprev s' n = lprev s n)"

text \<open>Every process on the sleep list is SLEEPING, and if it is an MLFQ process its
  \<^verbatim>\<open>privlevel\<close> is a queue level, so that waking it enqueues it on one of the queues.\<close>

definition sleepers_ok :: "config \<Rightarrow> ptable \<Rightarrow> (lnode \<Rightarrow> lnode list) \<Rightarrow> bool" where
  "sleepers_ok cfg s L =
     (\<forall>p. ProcNode p \<in> set (L SleepHead) \<longrightarrow>
          state (procs s p) = SLEEPING \<and>
          (ptype (procs s p) = MLFQ \<longrightarrow> privlevel (procs s p) < QSIZE cfg))"

text \<open>What a transition that only wakes processes and re-parents children leaves
  alone: the ticket pool, the type, tickets and level of every process, and whether
  its state counts for the ticket sum.\<close>

definition tickets_frame :: "ptable \<Rightarrow> ptable \<Rightarrow> bool" where
  "tickets_frame s s' =
     (mlfq_tickets s' = mlfq_tickets s \<and> initproc s' = initproc s \<and>
      (\<forall>i. ptype (procs s' i) = ptype (procs s i) \<and>
           tickets (procs s' i) = tickets (procs s i) \<and>
           privlevel (procs s' i) = privlevel (procs s i) \<and>
           active (state (procs s' i)) = active (state (procs s i))))"

text \<open>The effect of the priority boost: the processes whose nodes are in \<open>ns\<close> get
  \<^verbatim>\<open>privlevel = 0\<close> and \<^verbatim>\<open>ticks = 0\<close>; the queues of the levels \<open>ls\<close> are moved, in this
  order, to the tail of level 0.\<close>

definition reset_procs :: "lnode list \<Rightarrow> (nat \<Rightarrow> proc) \<Rightarrow> (nat \<Rightarrow> proc)" where
  "reset_procs ns P =
     (\<lambda>i. if ProcNode i \<in> set ns then (P i)\<lparr>privlevel := 0, ticks := 0\<rparr> else P i)"

definition boost_lists :: "nat list \<Rightarrow> (lnode \<Rightarrow> lnode list) \<Rightarrow> (lnode \<Rightarrow> lnode list)" where
  "boost_lists ls L =
     (\<lambda>h. case h of
         QueueHead l \<Rightarrow>
           if l = 0 then L (QueueHead 0) @ concat (map (\<lambda>k. L (QueueHead k)) ls)
           else if l \<in> set ls then [] else L h
       | _ \<Rightarrow> L h)"

text \<open>Readers of single fields, for statements about the result of a function that
  returns an \<open>option\<close>.\<close>

definition ticks_of :: "nat \<Rightarrow> ptable \<Rightarrow> int" where
  "ticks_of i s = ticks (procs s i)"

definition pass_of :: "nat \<Rightarrow> ptable \<Rightarrow> int" where
  "pass_of i s = pass (procs s i)"

definition ptype_of :: "nat \<Rightarrow> ptable \<Rightarrow> schedtype" where
  "ptype_of i s = ptype (procs s i)"

definition next_of :: "lnode \<Rightarrow> ptable \<Rightarrow> lnode" where
  "next_of n s = lnext s n"

text \<open>The queue contents after the \<^verbatim>\<open>switch\<close> of \<^verbatim>\<open>mlfqlogic\<close>: a demoted process leaves
  the queue of its level and joins the tail of the next one; in every other case the
  lists are as before.\<close>

definition demote_lists :: "nat \<Rightarrow> nat \<Rightarrow> (lnode \<Rightarrow> lnode list) \<Rightarrow> (lnode \<Rightarrow> lnode list)" where
  "demote_lists p lvl L =
     L(QueueHead lvl := remove1 (ProcNode p) (L (QueueHead lvl)),
       QueueHead (lvl + 1) := L (QueueHead (lvl + 1)) @ [ProcNode p])"

definition demotes :: "config \<Rightarrow> nat \<Rightarrow> ptable \<Rightarrow> bool" where
  "demotes cfg p s =
     (state (procs s p) = RUNNABLE \<and> int (privlevel (procs s p)) < int (QSIZE cfg) - 1 \<and>
      cmod (ticks (procs s p) + 1) (TA cfg (privlevel (procs s p))) = 0)"

definition account_lists :: "config \<Rightarrow> nat \<Rightarrow> ptable \<Rightarrow> (lnode \<Rightarrow> lnode list) \<Rightarrow> (lnode \<Rightarrow> lnode list)" where
  "account_lists cfg p s L =
     (if demotes cfg p s then demote_lists p (privlevel (procs s p)) L else L)"

text \<open>The rebase of \<^verbatim>\<open>stridelogic\<close>: \<open>minpass_of\<close> is its \<^verbatim>\<open>minpass\<close>, \<open>heap_slots\<close> the
  entries \<^verbatim>\<open>minheap[1..size]\<close>, and \<open>rebase_procs m H R P\<close> is the process table \<open>P\<close> with
  \<open>m\<close> subtracted from the pass of the slots in \<open>H\<close> and of the owners of the nodes in
  \<open>R\<close>.\<close>

definition minpass_of :: "nat option \<Rightarrow> ptable \<Rightarrow> int" where
  "minpass_of p s =
     (case p of
        None \<Rightarrow> mlfq_pass s
      | Some i \<Rightarrow> if ptype (procs s i) = MLFQ then mlfq_pass s else pass (procs s i))"

definition heap_slots :: "ptable \<Rightarrow> nat list" where
  "heap_slots s = map (stride_minheap s) [1..stride_size s]"

definition rebase_procs :: "int \<Rightarrow> nat set \<Rightarrow> lnode set \<Rightarrow> (nat \<Rightarrow> proc) \<Rightarrow> (nat \<Rightarrow> proc)" where
  "rebase_procs m H R P =
     (\<lambda>i. if i \<in> H \<or> ProcNode i \<in> R then (P i)\<lparr>pass := pass (P i) - m\<rparr> else P i)"

section \<open>Further example states\<close>

text \<open>
  An MLFQ state: slots 0 and 1 are on level 0 (slot 0 RUNNABLE with one tick, slot 1
  RUNNING on another CPU), slot 2 is RUNNABLE on level 1 with nine ticks, slot 3 is
  an EMBRYO on no list (the free list is empty), and the pin of level 0 points at
  slot 1. The links are given as tables.
\<close>

definition ex_mlfq_lists :: "lnode \<Rightarrow> lnode list" where
  "ex_mlfq_lists =
     (\<lambda>h. if h = QueueHead 0 then [ProcNode 0, ProcNode 1]
          else if h = QueueHead 1 then [ProcNode 2] else [])"

definition ex_mlfq :: ptable where
  "ex_mlfq =
     bss\<lparr>procs := (\<lambda>i. if i = 0 then proc0\<lparr>state := RUNNABLE, pid := 1, ticks := 1\<rparr>
                    else if i = 1 then proc0\<lparr>state := RUNNING, pid := 2\<rparr>
                    else if i = 2 then proc0\<lparr>state := RUNNABLE, pid := 3, privlevel := 1, ticks := 9\<rparr>
                    else if i = 3 then proc0\<lparr>state := EMBRYO, pid := 4\<rparr>
                    else proc0),
         mlfq_pin := (\<lambda>l. if l = 0 then ProcNode 1 else QueueHead l),
         mlfq_ticks := 99, mlfq_tickets := 100,
         lnext := (\<lambda>n. if n = QueueHead 0 then ProcNode 0
                        else if n = ProcNode 0 then ProcNode 1
                        else if n = ProcNode 1 then QueueHead 0
                        else if n = QueueHead 1 then ProcNode 2
                        else if n = ProcNode 2 then QueueHead 1
                        else if n = ProcNode 3 then NullNode else n),
         lprev := (\<lambda>n. if n = QueueHead 0 then ProcNode 1
                        else if n = ProcNode 0 then QueueHead 0
                        else if n = ProcNode 1 then ProcNode 0
                        else if n = QueueHead 1 then ProcNode 2
                        else if n = ProcNode 2 then QueueHead 1
                        else if n = ProcNode 3 then NullNode else n),
         initproc := Some 0\<rparr>"

text \<open>
  A state with sleepers: slot 0 (MLFQ, level 1) and slot 1 (STRIDE, 30 tickets, in the
  heap) sleep on the channel \<open>AddrChan 7\<close>; slot 2 (MLFQ, level 0) is RUNNING and is the
  child of slot 0; slot 3 is free. \<^verbatim>\<open>sleep\<close> adds at the head, so the sleep list is slot 1,
  slot 0.
\<close>

definition ex_sleep_lists :: "lnode \<Rightarrow> lnode list" where
  "ex_sleep_lists =
     (\<lambda>h. if h = QueueHead 0 then [ProcNode 2]
          else if h = SleepHead then [ProcNode 1, ProcNode 0]
          else if h = FreeHead then [ProcNode 3] else [])"

definition ex_sleep :: ptable where
  "ex_sleep =
     bss\<lparr>procs := (\<lambda>i. if i = 0 then proc0\<lparr>state := SLEEPING, pid := 1, chan := AddrChan 7,
                                          privlevel := 1, ticks := 5\<rparr>
                    else if i = 1 then proc0\<lparr>state := SLEEPING, pid := 2, chan := AddrChan 7,
                                          ptype := STRIDE, tickets := 30, pass := 400,
                                          parent := Some 0\<rparr>
                    else if i = 2 then proc0\<lparr>state := RUNNING, pid := 3, parent := Some 0\<rparr>
                    else proc0),
         mlfq_pin := (\<lambda>l. if l = 0 then ProcNode 2 else QueueHead l),
         mlfq_ticks := 42, mlfq_pass := 500, mlfq_tickets := 70,
         stride_minheap := (\<lambda>i. 1), stride_size := 1,
         lnext := (\<lambda>n. if n = QueueHead 0 then ProcNode 2
                        else if n = ProcNode 2 then QueueHead 0
                        else if n = SleepHead then ProcNode 1
                        else if n = ProcNode 1 then ProcNode 0
                        else if n = ProcNode 0 then SleepHead
                        else if n = FreeHead then ProcNode 3
                        else if n = ProcNode 3 then FreeHead
                        else if n = ChildrenHead 0 then SiblingNode 1
                        else if n = SiblingNode 1 then SiblingNode 2
                        else if n = SiblingNode 2 then ChildrenHead 0 else n),
         lprev := (\<lambda>n. if n = QueueHead 0 then ProcNode 2
                        else if n = ProcNode 2 then QueueHead 0
                        else if n = SleepHead then ProcNode 0
                        else if n = ProcNode 0 then ProcNode 1
                        else if n = ProcNode 1 then SleepHead
                        else if n = FreeHead then ProcNode 3
                        else if n = ProcNode 3 then FreeHead
                        else if n = ChildrenHead 0 then SiblingNode 2
                        else if n = SiblingNode 2 then SiblingNode 1
                        else if n = SiblingNode 1 then ChildrenHead 0 else n),
         initproc := Some 0\<rparr>"

text \<open>
  A state with a running stride process: slot 0 is \<^verbatim>\<open>initproc\<close>, asleep in \<^verbatim>\<open>wait()\<close> on
  its own address; slot 1 (STRIDE, 30 tickets) is RUNNING and on the run list; slot 2
  (MLFQ, level 0) is RUNNING on another CPU; both are children of slot 0; slot 3 is
  free. The MLFQ side holds the other 70 tickets.
\<close>

definition ex_run_lists :: "lnode \<Rightarrow> lnode list" where
  "ex_run_lists =
     (\<lambda>h. if h = QueueHead 0 then [ProcNode 2]
          else if h = RunHead then [ProcNode 1]
          else if h = SleepHead then [ProcNode 0]
          else if h = FreeHead then [ProcNode 3] else [])"

definition ex_run :: ptable where
  "ex_run =
     bss\<lparr>procs := (\<lambda>i. if i = 0 then proc0\<lparr>state := SLEEPING, pid := 1, chan := ProcChan 0\<rparr>
                    else if i = 1 then proc0\<lparr>state := RUNNING, pid := 2, ptype := STRIDE,
                                          tickets := 30, pass := 1000400, parent := Some 0\<rparr>
                    else if i = 2 then proc0\<lparr>state := RUNNING, pid := 3, parent := Some 0\<rparr>
                    else proc0),
         mlfq_pin := (\<lambda>l. if l = 0 then ProcNode 2 else QueueHead l),
         mlfq_ticks := 42, mlfq_pass := 1000500, mlfq_tickets := 70,
         lnext := (\<lambda>n. if n = QueueHead 0 then ProcNode 2
                        else if n = ProcNode 2 then QueueHead 0
                        else if n = RunHead then ProcNode 1
                        else if n = ProcNode 1 then RunHead
                        else if n = SleepHead then ProcNode 0
                        else if n = ProcNode 0 then SleepHead
                        else if n = FreeHead then ProcNode 3
                        else if n = ProcNode 3 then FreeHead
                        else if n = ChildrenHead 0 then SiblingNode 1
                        else if n = SiblingNode 1 then SiblingNode 2
                        else if n = SiblingNode 2 then ChildrenHead 0 else n),
         lprev := (\<lambda>n. if n = QueueHead 0 then ProcNode 2
                        else if n = ProcNode 2 then QueueHead 0
                        else if n = RunHead then ProcNode 1
                        else if n = ProcNode 1 then RunHead
                        else if n = SleepHead then ProcNode 0
                        else if n = ProcNode 0 then SleepHead
                        else if n = FreeHead then ProcNode 3
                        else if n = ProcNode 3 then FreeHead
                        else if n = ChildrenHead 0 then SiblingNode 2
                        else if n = SiblingNode 2 then SiblingNode 1
                        else if n = SiblingNode 1 then ChildrenHead 0 else n),
         initproc := Some 0\<rparr>"

section \<open>Arithmetic of C division\<close>

lemma cdiv_two_pos: "0 \<le> i \<Longrightarrow> cdiv i 2 = i div 2"
  by (cases "i = 0") (simp_all add: cdiv_def sgn_if)

lemma cdiv_dvd: "b \<noteq> 0 \<Longrightarrow> cdiv (b * k) b = k"
proof -
  assume b: "b \<noteq> 0"
  have d: "\<bar>b * k\<bar> div \<bar>b\<bar> = \<bar>k\<bar>" using b by (simp add: abs_mult)
  have sb: "sgn b * sgn b = 1" using b by (cases "0 < b") (simp_all add: sgn_if)
  have "sgn (b * k) * sgn b = sgn k * (sgn b * sgn b)" by (simp add: sgn_mult mult_ac)
  then have sg: "sgn (b * k) * sgn b = sgn k" using sb by simp
  show ?thesis unfolding cdiv_def d sg by (simp add: sgn_mult_abs)
qed

lemma cmod_eq_0_iff: "b \<noteq> 0 \<Longrightarrow> (cmod a b = 0) = (b dvd a)"
proof
  assume "b \<noteq> 0" "cmod a b = 0"
  then have "a = cdiv a b * b" by (simp add: cmod_def)
  then show "b dvd a" by (metis dvd_triv_right)
next
  assume b: "b \<noteq> 0" and "b dvd a"
  then obtain k where "a = b * k" by (auto simp: dvd_def)
  then show "cmod a b = 0" using cdiv_dvd[OF b, of k] by (simp add: cmod_def)
qed

section \<open>Frame lemmas: which fields each primitive leaves alone\<close>

lemma list_frame [simp]:
  "procs (list_head_init n s) = procs s"
  "procs (list_add_between a b c s) = procs s"
  "procs (list_add a b s) = procs s"
  "procs (list_add_tail a b s) = procs s"
  "procs (list_del a s) = procs s"
  "procs (list_bulk_move_tail a b s) = procs s"
  "mlfq_pin (list_head_init n s) = mlfq_pin s"
  "mlfq_pin (list_add_between a b c s) = mlfq_pin s"
  "mlfq_pin (list_add a b s) = mlfq_pin s"
  "mlfq_pin (list_add_tail a b s) = mlfq_pin s"
  "mlfq_pin (list_del a s) = mlfq_pin s"
  "mlfq_pin (list_bulk_move_tail a b s) = mlfq_pin s"
  "mlfq_ticks (list_head_init n s) = mlfq_ticks s"
  "mlfq_ticks (list_add_between a b c s) = mlfq_ticks s"
  "mlfq_ticks (list_add a b s) = mlfq_ticks s"
  "mlfq_ticks (list_add_tail a b s) = mlfq_ticks s"
  "mlfq_ticks (list_del a s) = mlfq_ticks s"
  "mlfq_ticks (list_bulk_move_tail a b s) = mlfq_ticks s"
  "mlfq_pass (list_head_init n s) = mlfq_pass s"
  "mlfq_pass (list_add_between a b c s) = mlfq_pass s"
  "mlfq_pass (list_add a b s) = mlfq_pass s"
  "mlfq_pass (list_add_tail a b s) = mlfq_pass s"
  "mlfq_pass (list_del a s) = mlfq_pass s"
  "mlfq_pass (list_bulk_move_tail a b s) = mlfq_pass s"
  "mlfq_tickets (list_head_init n s) = mlfq_tickets s"
  "mlfq_tickets (list_add_between a b c s) = mlfq_tickets s"
  "mlfq_tickets (list_add a b s) = mlfq_tickets s"
  "mlfq_tickets (list_add_tail a b s) = mlfq_tickets s"
  "mlfq_tickets (list_del a s) = mlfq_tickets s"
  "mlfq_tickets (list_bulk_move_tail a b s) = mlfq_tickets s"
  "stride_minheap (list_head_init n s) = stride_minheap s"
  "stride_minheap (list_add_between a b c s) = stride_minheap s"
  "stride_minheap (list_add a b s) = stride_minheap s"
  "stride_minheap (list_add_tail a b s) = stride_minheap s"
  "stride_minheap (list_del a s) = stride_minheap s"
  "stride_minheap (list_bulk_move_tail a b s) = stride_minheap s"
  "stride_size (list_head_init n s) = stride_size s"
  "stride_size (list_add_between a b c s) = stride_size s"
  "stride_size (list_add a b s) = stride_size s"
  "stride_size (list_add_tail a b s) = stride_size s"
  "stride_size (list_del a s) = stride_size s"
  "stride_size (list_bulk_move_tail a b s) = stride_size s"
  "initproc (list_head_init n s) = initproc s"
  "initproc (list_add_between a b c s) = initproc s"
  "initproc (list_add a b s) = initproc s"
  "initproc (list_add_tail a b s) = initproc s"
  "initproc (list_del a s) = initproc s"
  "initproc (list_bulk_move_tail a b s) = initproc s"
  by (simp_all add: list_head_init_def list_add_between_def list_add_def list_add_tail_def
      list_del_def list_bulk_move_tail_def Let_def)

lemma upd_proc_frame [simp]:
  "procs (upd_proc i f s) = (procs s)(i := f (procs s i))"
  "mlfq_pin (upd_proc i f s) = mlfq_pin s"
  "mlfq_ticks (upd_proc i f s) = mlfq_ticks s"
  "mlfq_pass (upd_proc i f s) = mlfq_pass s"
  "mlfq_tickets (upd_proc i f s) = mlfq_tickets s"
  "stride_minheap (upd_proc i f s) = stride_minheap s"
  "stride_size (upd_proc i f s) = stride_size s"
  "initproc (upd_proc i f s) = initproc s"
  "lnext (upd_proc i f s) = lnext s"
  "lprev (upd_proc i f s) = lprev s"
  by (simp_all add: upd_proc_def)

lemma queue_frame [simp]:
  "procs (enqueue l p s) = procs s"
  "mlfq_pin (enqueue l p s) = mlfq_pin s"
  "mlfq_ticks (enqueue l p s) = mlfq_ticks s"
  "mlfq_pass (enqueue l p s) = mlfq_pass s"
  "mlfq_tickets (enqueue l p s) = mlfq_tickets s"
  "stride_minheap (enqueue l p s) = stride_minheap s"
  "stride_size (enqueue l p s) = stride_size s"
  "initproc (enqueue l p s) = initproc s"
  "procs (dequeue p s) = procs s"
  "procs (concatqueue a b s) = procs s"
  "mlfq_ticks (dequeue p s) = mlfq_ticks s"
  "mlfq_ticks (concatqueue a b s) = mlfq_ticks s"
  "mlfq_pass (dequeue p s) = mlfq_pass s"
  "mlfq_pass (concatqueue a b s) = mlfq_pass s"
  "mlfq_tickets (dequeue p s) = mlfq_tickets s"
  "mlfq_tickets (concatqueue a b s) = mlfq_tickets s"
  "stride_minheap (dequeue p s) = stride_minheap s"
  "stride_minheap (concatqueue a b s) = stride_minheap s"
  "stride_size (dequeue p s) = stride_size s"
  "stride_size (concatqueue a b s) = stride_size s"
  "initproc (dequeue p s) = initproc s"
  "initproc (concatqueue a b s) = initproc s"
  by (simp_all add: enqueue_def dequeue_def concatqueue_def Let_def)

section \<open>Intrusive lists: the primitives preserve well-formed rings\<close>

lemma seg_append: "seg nx pv a (xs @ y # ys) b = (seg nx pv a xs y \<and> seg nx pv y ys b)"
  by (induction xs arbitrary: a) auto

lemma seg_frame:
  "(\<forall>n\<in>set (a # xs). nx' n = nx n) \<Longrightarrow> (\<forall>n\<in>set (xs @ [b]). pv' n = pv n) \<Longrightarrow>
   seg nx' pv' a xs b = seg nx pv a xs b"
  by (induction xs arbitrary: a) auto

lemma seg_next: "seg nx pv a xs b \<Longrightarrow> nx a = hd (xs @ [b])"
  by (cases xs) auto

lemma seg_prev: "seg nx pv a xs b \<Longrightarrow> pv b = last (a # xs)"
  by (induction xs arbitrary: a) auto

lemma seg_redirect:
  "seg nx pv a xs b \<Longrightarrow> distinct (a # xs) \<Longrightarrow> c \<notin> set xs \<Longrightarrow>
   seg (nx(last (a # xs) := c)) (pv(c := last (a # xs))) a xs c"
proof (induction xs arbitrary: a)
  case Nil
  then show ?case by simp
next
  case (Cons x xs)
  have l: "last (a # x # xs) = last (x # xs)" by simp
  have ne: "a \<noteq> last (x # xs)"
    using Cons.prems(2) by (metis distinct.simps(2) last_in_set list.distinct(1))
  have xc: "x \<noteq> c" using Cons.prems(3) by auto
  have a: "nx a = x" "pv x = a" "seg nx pv x xs b" using Cons.prems(1) by simp_all
  have d: "distinct (x # xs)" "c \<notin> set xs" using Cons.prems(2,3) by auto
  have ih: "seg (nx(last (x # xs) := c)) (pv(c := last (x # xs))) x xs c"
    by (rule Cons.IH[OF a(3) d])
  have n1: "(nx(last (x # xs) := c)) a = x" using a ne by (simp del: last.simps)
  have p1: "(pv(c := last (x # xs))) x = a" using a xc by (simp del: last.simps)
  show ?case unfolding l seg.simps using n1 p1 ih by blast
qed

lemma ring_next_head: "ring s h xs \<Longrightarrow> lnext s h = hd (xs @ [h])"
  unfolding ring_def using seg_next by blast

lemma ring_prev_head: "ring s h xs \<Longrightarrow> lprev s h = last (h # xs)"
  unfolding ring_def using seg_prev by blast

lemma ring_next_elem:
  "ring s h (ys @ e # zs) \<Longrightarrow> lnext s e = hd (zs @ [h])"
  unfolding ring_def using seg_next by (auto simp: seg_append simp del: distinct_append)

lemma ring_prev_elem:
  "ring s h (ys @ e # zs) \<Longrightarrow> lprev s e = last (h # ys)"
  unfolding ring_def using seg_prev[of "lnext s" "lprev s" h ys e]
  by (simp add: seg_append del: last.simps)

lemma ring_frame:
  "ring s h xs \<Longrightarrow> (\<forall>n\<in>set (h # xs). lnext s' n = lnext s n \<and> lprev s' n = lprev s n) \<Longrightarrow>
   ring s' h xs"
  unfolding ring_def using seg_frame[of h xs "lnext s'" "lnext s" h "lprev s'" "lprev s"] by auto

lemma ring_empty_iff: "ring s h xs \<Longrightarrow> list_empty h s = (xs = [])"
  by (cases xs) (auto simp: ring_def list_empty_def)

lemma ring_init: "ring (list_head_init h s) h []"
  by (simp add: ring_def list_head_init_def)

lemma ring_add_tail:
  assumes "ring s h xs" "new \<notin> set (h # xs)"
  shows "ring (list_add_tail new h s) h (xs @ [new])"
proof -
  let ?L = "last (h # xs)"
  have pv: "lprev s h = ?L" using assms(1) by (rule ring_prev_head)
  have Lin: "?L \<in> set (h # xs)" by (rule last_in_set) simp
  then have Lnew: "?L \<noteq> new" using assms(2) by metis
  have hnew: "h \<noteq> new" using assms(2) by auto
  have r: "seg ((lnext s)(?L := new)) ((lprev s)(new := ?L)) h xs new"
    using seg_redirect[of "lnext s" "lprev s" h xs h new] assms by (auto simp: ring_def)
  have nx': "lnext (list_add_tail new h s) = ((lnext s)(?L := new))(new := h)"
    using Lnew by (auto simp: list_add_tail_def list_add_between_def pv fun_eq_iff)
  have pv': "lprev (list_add_tail new h s) = ((lprev s)(new := ?L))(h := new)"
    using hnew by (auto simp: list_add_tail_def list_add_between_def pv fun_eq_iff)
  have "seg (lnext (list_add_tail new h s)) (lprev (list_add_tail new h s)) h xs new"
    unfolding nx' pv'
    by (subst seg_frame[where nx = "(lnext s)(?L := new)" and pv = "(lprev s)(new := ?L)"])
       (use r assms in \<open>auto simp: ring_def\<close>)
  moreover have "lnext (list_add_tail new h s) new = h" "lprev (list_add_tail new h s) h = new"
    unfolding nx' pv' by simp_all
  ultimately have "seg (lnext (list_add_tail new h s)) (lprev (list_add_tail new h s)) h (xs @ [new]) h"
    by (simp add: seg_append)
  then show ?thesis using assms by (auto simp: ring_def)
qed

lemma ring_add:
  assumes "ring s h xs" "new \<notin> set (h # xs)"
  shows "ring (list_add new h s) h (new # xs)"
proof -
  let ?s' = "list_add new h s"
  have hnew: "h \<noteq> new" using assms(2) by auto
  have nx': "lnext ?s' = ((lnext s)(new := lnext s h))(h := new)"
    and pv': "lprev ?s' = ((lprev s)(lnext s h := new))(new := h)"
    by (simp_all add: list_add_def list_add_between_def)
  have "seg (lnext ?s') (lprev ?s') new xs h"
  proof (cases xs)
    case Nil
    then have "lnext s h = h" using assms(1) by (simp add: ring_def)
    then show ?thesis using Nil hnew by (simp add: nx' pv')
  next
    case (Cons x xs')
    then have a: "lnext s h = x" "seg (lnext s) (lprev s) x xs' h" "distinct (h # x # xs')"
      using assms(1) by (simp_all add: ring_def)
    have "seg (lnext ?s') (lprev ?s') x xs' h"
      unfolding nx' pv' a(1)
      by (subst seg_frame[where nx = "lnext s" and pv = "lprev s"])
         (use a assms(2) Cons in auto)
    then show ?thesis using Cons a assms(2) hnew by (auto simp: nx' pv')
  qed
  moreover have "lnext ?s' h = new" "lprev ?s' new = h" by (simp_all add: nx' pv')
  ultimately show ?thesis using assms by (auto simp: ring_def)
qed

lemma ring_del:
  assumes "ring s h (ys @ e # zs)"
  shows "ring (list_del e s) h (ys @ zs)"
proof -
  let ?s' = "list_del e s"
  let ?P = "last (h # ys)" and ?N = "hd (zs @ [h])"
  have P: "lprev s e = ?P" and N: "lnext s e = ?N"
    using assms ring_prev_elem ring_next_elem by blast+
  have d: "distinct (h # ys @ e # zs)" and sg: "seg (lnext s) (lprev s) h ys e" "seg (lnext s) (lprev s) e zs h"
    using assms by (auto simp: ring_def seg_append)
  have nx': "lnext ?s' = (lnext s)(?P := ?N)" and pv': "lprev ?s' = (lprev s)(?N := ?P)"
    by (simp_all add: list_del_def Let_def P N)
  have Nys: "?N \<notin> set ys" using d by (cases zs) auto
  have r: "seg (lnext ?s') (lprev ?s') h ys ?N"
    unfolding nx' pv' using seg_redirect[OF sg(1) _ Nys] d by simp
  have "seg (lnext ?s') (lprev ?s') h (ys @ zs) h"
  proof (cases zs)
    case Nil
    then show ?thesis using r by simp
  next
    case (Cons z zs')
    have Pin: "?P \<in> set (h # ys)" by (rule last_in_set) simp
    then have Pz: "?P \<notin> set (z # zs')" using d Cons by auto
    have "seg (lnext ?s') (lprev ?s') z zs' h"
      unfolding nx' pv'
      by (subst seg_frame[where nx = "lnext s" and pv = "lprev s"])
         (use sg(2) Cons d Pz in auto)
    then show ?thesis using r Cons by (simp add: seg_append)
  qed
  then show ?thesis using d by (auto simp: ring_def)
qed

lemma ring_del_other:
  assumes "ring s h (ys @ e # zs)" "ring s h2 xs" "set (h2 # xs) \<inter> set (h # ys @ e # zs) = {}"
  shows "ring (list_del e s) h2 xs"
proof (rule ring_frame[OF assms(2)])
  have P: "lprev s e = last (h # ys)" and N: "lnext s e = hd (zs @ [h])"
    using assms(1) ring_prev_elem ring_next_elem by blast+
  have "last (h # ys) \<in> set (h # ys)" by (rule last_in_set) simp
  moreover have "hd (zs @ [h]) \<in> set (h # zs)" by (cases zs) auto
  ultimately have "lprev s e \<notin> set (h2 # xs)" "lnext s e \<notin> set (h2 # xs)"
    using assms(3) P N by auto
  then show "\<forall>n\<in>set (h2 # xs). lnext (list_del e s) n = lnext s n \<and> lprev (list_del e s) n = lprev s n"
    by (auto simp: list_del_def Let_def)
qed

lemma ring_add_tail_other:
  assumes "ring s h xs" "ring s h2 ys" "set (h2 # ys) \<inter> set (h # xs) = {}" "new \<notin> set (h2 # ys)"
  shows "ring (list_add_tail new h s) h2 ys"
proof (rule ring_frame[OF assms(2)])
  have "lprev s h = last (h # xs)" using assms(1) by (rule ring_prev_head)
  moreover have "last (h # xs) \<in> set (h # xs)" by (rule last_in_set) simp
  ultimately have "lprev s h \<notin> set (h2 # ys)" "h \<notin> set (h2 # ys)" using assms(3) by auto
  then show "\<forall>n\<in>set (h2 # ys). lnext (list_add_tail new h s) n = lnext s n \<and>
               lprev (list_add_tail new h s) n = lprev s n"
    using assms(4) by (auto simp: list_add_tail_def list_add_between_def)
qed

lemma ring_add_other:
  assumes "ring s h xs" "ring s h2 ys" "set (h2 # ys) \<inter> set (h # xs) = {}" "new \<notin> set (h2 # ys)"
  shows "ring (list_add new h s) h2 ys"
proof (rule ring_frame[OF assms(2)])
  have "lnext s h = hd (xs @ [h])" using assms(1) by (rule ring_next_head)
  moreover have "hd (xs @ [h]) \<in> set (h # xs)" by (cases xs) auto
  ultimately have "lnext s h \<notin> set (h2 # ys)" "h \<notin> set (h2 # ys)" using assms(3) by auto
  then show "\<forall>n\<in>set (h2 # ys). lnext (list_add new h s) n = lnext s n \<and>
               lprev (list_add new h s) n = lprev s n"
    using assms(4) by (auto simp: list_add_def list_add_between_def)
qed

lemma ring_bulk:
  assumes "ring s src xs" "ring s dst ys" "set (src # xs) \<inter> set (dst # ys) = {}"
  shows "ring (list_bulk_move_tail src dst s) dst (ys @ xs) \<and>
         ring (list_bulk_move_tail src dst s) src []"
proof (cases xs)
  case Nil
  then have "list_empty src s" using assms(1) by (simp add: ring_empty_iff)
  then show ?thesis using assms Nil by (simp add: list_bulk_move_tail_def)
next
  case (Cons x xs')
  let ?s' = "list_bulk_move_tail src dst s"
  let ?at = "last (dst # ys)" and ?la = "last (x # xs')"
  have ne: "\<not> list_empty src s" using assms(1) Cons by (simp add: ring_empty_iff)
  have first: "lnext s src = x" using ring_next_head[OF assms(1)] Cons by simp
  have lastp: "lprev s src = ?la" using ring_prev_head[OF assms(1)] Cons by simp
  have at: "lprev s dst = ?at" using ring_prev_head[OF assms(2)] .
  have sx: "seg (lnext s) (lprev s) x xs' src" and dx: "distinct (src # x # xs')"
    using assms(1) Cons by (simp_all add: ring_def)
  have sy: "seg (lnext s) (lprev s) dst ys dst" and dy: "distinct (dst # ys)"
    using assms(2) by (simp_all add: ring_def)
  have atin: "?at \<in> set (dst # ys)" by (rule last_in_set) simp
  have lain: "?la \<in> set (x # xs')" by (rule last_in_set) simp
  have nx': "lnext ?s' = (((lnext s)(?at := x))(?la := dst))(src := src)"
    and pv': "lprev ?s' = (((lprev s)(x := ?at))(dst := ?la))(src := src)"
    using ne by (simp_all add: list_bulk_move_tail_def Let_def list_head_init_def first lastp at
        del: last.simps)
  have disj: "src \<notin> set (dst # ys)" "x \<notin> set (dst # ys)" "?la \<notin> set (dst # ys)"
    "dst \<notin> set (src # x # xs')" "?at \<notin> set (src # x # xs')"
    using assms(3) Cons atin lain by (auto simp del: last.simps)
  have r1: "seg ((lnext s)(?at := x)) ((lprev s)(x := ?at)) dst ys x"
    using seg_redirect[OF sy dy, of x] disj by simp
  have "seg (lnext ?s') (lprev ?s') dst ys x =
        seg ((lnext s)(?at := x)) ((lprev s)(x := ?at)) dst ys x"
    unfolding nx' pv'
    by (rule seg_frame) (use disj dx dy in \<open>auto simp del: last.simps\<close>)
  then have a: "seg (lnext ?s') (lprev ?s') dst ys x" using r1 by simp
  have r2: "seg ((lnext s)(?la := dst)) ((lprev s)(dst := ?la)) x xs' dst"
    using seg_redirect[OF sx _, of dst] dx disj by simp
  have "seg (lnext ?s') (lprev ?s') x xs' dst =
        seg ((lnext s)(?la := dst)) ((lprev s)(dst := ?la)) x xs' dst"
    unfolding nx' pv'
    by (rule seg_frame) (use disj dx dy in \<open>auto simp del: last.simps\<close>)
  then have b: "seg (lnext ?s') (lprev ?s') x xs' dst" using r2 by simp
  have "seg (lnext ?s') (lprev ?s') dst (ys @ x # xs') dst"
    using a b by (simp add: seg_append)
  moreover have "distinct (dst # ys @ x # xs')"
    using dx dy assms(3) Cons by auto
  moreover have "lnext ?s' src = src" "lprev ?s' src = src" by (simp_all add: nx' pv')
  ultimately show ?thesis using Cons by (simp add: ring_def)
qed

lemma bulk_frame:
  "n \<noteq> src \<Longrightarrow> n \<noteq> dst \<Longrightarrow> n \<noteq> lnext s src \<Longrightarrow> n \<noteq> lprev s src \<Longrightarrow> n \<noteq> lprev s dst \<Longrightarrow>
   lnext (list_bulk_move_tail src dst s) n = lnext s n \<and>
   lprev (list_bulk_move_tail src dst s) n = lprev s n"
  by (simp add: list_bulk_move_tail_def Let_def list_head_init_def)

lemma ring_bulk_other:
  assumes "ring s src xs" "ring s dst ys" "ring s h zs"
    "set (h # zs) \<inter> set (src # xs) = {}" "set (h # zs) \<inter> set (dst # ys) = {}"
  shows "ring (list_bulk_move_tail src dst s) h zs"
proof (rule ring_frame[OF assms(3)])
  have "lnext s src \<in> set (src # xs)" using ring_next_head[OF assms(1)] by (cases xs) auto
  moreover have "lprev s src \<in> set (src # xs)"
    using ring_prev_head[OF assms(1)] last_in_set[of "src # xs"] by simp
  moreover have "lprev s dst \<in> set (dst # ys)"
    using ring_prev_head[OF assms(2)] last_in_set[of "dst # ys"] by simp
  ultimately have "lnext s src \<notin> set (h # zs)" "lprev s src \<notin> set (h # zs)"
    "lprev s dst \<notin> set (h # zs)" "src \<notin> set (h # zs)" "dst \<notin> set (h # zs)"
    using assms(4,5) by auto
  then show "\<forall>n\<in>set (h # zs). lnext (list_bulk_move_tail src dst s) n = lnext s n \<and>
               lprev (list_bulk_move_tail src dst s) n = lprev s n"
    by (intro ballI bulk_frame) metis+
qed

lemma heads_entry: "h \<in> set (heads cfg) \<Longrightarrow> list_entry h = None"
  by (auto simp: heads_def)

lemma lists_ok_disj:
  assumes "lists_ok cfg s L" "h1 \<in> set (heads cfg)" "h2 \<in> set (heads cfg)" "h1 \<noteq> h2"
  shows "set (h1 # L h1) \<inter> set (h2 # L h2) = {}"
proof -
  have "h1 \<notin> set (L h2)" "h2 \<notin> set (L h1)"
    using assms heads_entry unfolding lists_ok_def by blast+
  moreover have "set (L h1) \<inter> set (L h2) = {}" using assms unfolding lists_ok_def by blast
  ultimately show ?thesis using assms(4) by auto
qed

lemma lists_ok_ring: "lists_ok cfg s L \<Longrightarrow> h \<in> set (heads cfg) \<Longrightarrow> ring s h (L h)"
  unfolding lists_ok_def by blast

lemma lists_ok_links:
  "lists_ok cfg s L \<Longrightarrow> lnext s' = lnext s \<Longrightarrow> lprev s' = lprev s \<Longrightarrow> lists_ok cfg s' L"
  by (simp add: lists_ok_def ring_def)

lemma lists_ok_del:
  assumes "lists_ok cfg s L" "h \<in> set (heads cfg)" "e \<in> set (L h)"
  shows "lists_ok cfg (list_del e s) (L(h := remove1 e (L h)))"
proof -
  obtain ys zs where sp: "L h = ys @ e # zs" and eys: "e \<notin> set ys"
    using assms(3) by (meson split_list_first)
  have rm: "remove1 e (L h) = ys @ zs" using sp eys by (simp add: remove1_append)
  have rh: "ring s h (ys @ e # zs)" using lists_ok_ring[OF assms(1,2)] sp by simp
  have 1: "ring (list_del e s) h (ys @ zs)" by (rule ring_del[OF rh])
  have 2: "ring (list_del e s) h2 (L h2)" if "h2 \<in> set (heads cfg)" "h2 \<noteq> h" for h2
    by (rule ring_del_other[OF rh lists_ok_ring[OF assms(1) that(1)]])
       (use lists_ok_disj[OF assms(1) that(1) assms(2) that(2)] sp in simp)
  show ?thesis
    unfolding lists_ok_def
  proof (intro conjI ballI impI)
    fix h' assume "h' \<in> set (heads cfg)"
    then show "ring (list_del e s) h' ((L(h := remove1 e (L h))) h')"
      using 1 2 rm by (cases "h' = h") simp_all
  next
    fix h' n assume "h' \<in> set (heads cfg)" "n \<in> set ((L(h := remove1 e (L h))) h')"
    then show "list_entry n \<noteq> None"
      using assms(1) rm sp unfolding lists_ok_def by (cases "h' = h") auto
  next
    fix h1 h2 assume "h1 \<in> set (heads cfg)" "h2 \<in> set (heads cfg)" "h1 \<noteq> h2"
    then have "set (L h1) \<inter> set (L h2) = {}" using assms(1) unfolding lists_ok_def by blast
    moreover have "set (remove1 e (L h)) \<subseteq> set (L h)" by (rule set_remove1_subset)
    ultimately show "set ((L(h := remove1 e (L h))) h1) \<inter> set ((L(h := remove1 e (L h))) h2) = {}"
      by (auto simp: fun_upd_def)
  qed
qed

lemma lists_ok_add_gen:
  assumes "lists_ok cfg s L" "h \<in> set (heads cfg)" "\<forall>h'\<in>set (heads cfg). ProcNode i \<notin> set (L h')"
    and r: "\<And>xs. ring s h xs \<Longrightarrow> ProcNode i \<notin> set (h # xs) \<Longrightarrow> ring s' h (f xs)"
    and o: "\<And>xs h2 ys. ring s h xs \<Longrightarrow> ring s h2 ys \<Longrightarrow> set (h2 # ys) \<inter> set (h # xs) = {} \<Longrightarrow>
               ProcNode i \<notin> set (h2 # ys) \<Longrightarrow> ring s' h2 ys"
    and f: "\<And>xs. set (f xs) = insert (ProcNode i) (set xs)"
  shows "lists_ok cfg s' (L(h := f (L h)))"
proof -
  have hn: "h' \<noteq> ProcNode i" if "h' \<in> set (heads cfg)" for h'
    using heads_entry[OF that] by auto
  have 1: "ring s' h (f (L h))"
    by (rule r[OF lists_ok_ring[OF assms(1,2)]]) (use assms(2,3) hn in auto)
  have 2: "ring s' h2 (L h2)" if "h2 \<in> set (heads cfg)" "h2 \<noteq> h" for h2
    by (rule o[OF lists_ok_ring[OF assms(1,2)] lists_ok_ring[OF assms(1) that(1)]])
       (use lists_ok_disj[OF assms(1) that(1) assms(2) that(2)] assms(3) that hn in auto)
  show ?thesis
    unfolding lists_ok_def
  proof (intro conjI ballI impI)
    fix h' assume "h' \<in> set (heads cfg)"
    then show "ring s' h' ((L(h := f (L h))) h')"
      using 1 2 by (cases "h' = h") simp_all
  next
    fix h' n assume "h' \<in> set (heads cfg)" "n \<in> set ((L(h := f (L h))) h')"
    then show "list_entry n \<noteq> None"
      using assms(1) f unfolding lists_ok_def by (cases "h' = h") auto
  next
    fix h1 h2 assume a: "h1 \<in> set (heads cfg)" "h2 \<in> set (heads cfg)" "h1 \<noteq> h2"
    then have "set (L h1) \<inter> set (L h2) = {}" using assms(1) unfolding lists_ok_def by blast
    then show "set ((L(h := f (L h))) h1) \<inter> set ((L(h := f (L h))) h2) = {}"
      using a assms(3) f by (auto simp: fun_upd_def)
  qed
qed

lemma lists_ok_add_tail:
  assumes "lists_ok cfg s L" "h \<in> set (heads cfg)" "\<forall>h'\<in>set (heads cfg). ProcNode i \<notin> set (L h')"
  shows "lists_ok cfg (list_add_tail (ProcNode i) h s) (L(h := L h @ [ProcNode i]))"
proof (rule lists_ok_add_gen[OF assms, where f = "\<lambda>xs. xs @ [ProcNode i]"])
  fix xs assume "ring s h xs" "ProcNode i \<notin> set (h # xs)"
  then show "ring (list_add_tail (ProcNode i) h s) h (xs @ [ProcNode i])" by (rule ring_add_tail)
next
  fix xs h2 ys
  assume "ring s h xs" "ring s h2 ys" "set (h2 # ys) \<inter> set (h # xs) = {}" "ProcNode i \<notin> set (h2 # ys)"
  then show "ring (list_add_tail (ProcNode i) h s) h2 ys" by (rule ring_add_tail_other)
next
  fix xs :: "lnode list" show "set (xs @ [ProcNode i]) = insert (ProcNode i) (set xs)" by simp
qed

lemma lists_ok_add:
  assumes "lists_ok cfg s L" "h \<in> set (heads cfg)" "\<forall>h'\<in>set (heads cfg). ProcNode i \<notin> set (L h')"
  shows "lists_ok cfg (list_add (ProcNode i) h s) (L(h := ProcNode i # L h))"
proof (rule lists_ok_add_gen[OF assms, where f = "\<lambda>xs. ProcNode i # xs"])
  fix xs assume "ring s h xs" "ProcNode i \<notin> set (h # xs)"
  then show "ring (list_add (ProcNode i) h s) h (ProcNode i # xs)" by (rule ring_add)
next
  fix xs h2 ys
  assume "ring s h xs" "ring s h2 ys" "set (h2 # ys) \<inter> set (h # xs) = {}" "ProcNode i \<notin> set (h2 # ys)"
  then show "ring (list_add (ProcNode i) h s) h2 ys" by (rule ring_add_other)
next
  fix xs :: "lnode list" show "set (ProcNode i # xs) = insert (ProcNode i) (set xs)" by simp
qed

lemma lists_ok_bulk:
  assumes "lists_ok cfg s L" "src \<in> set (heads cfg)" "dst \<in> set (heads cfg)" "src \<noteq> dst"
  shows "lists_ok cfg (list_bulk_move_tail src dst s) (L(src := [], dst := L dst @ L src))"
proof -
  let ?s' = "list_bulk_move_tail src dst s"
  have d: "set (src # L src) \<inter> set (dst # L dst) = {}"
    by (rule lists_ok_disj[OF assms])
  have 1: "ring ?s' dst (L dst @ L src)" "ring ?s' src []"
    using ring_bulk[OF lists_ok_ring[OF assms(1,2)] lists_ok_ring[OF assms(1,3)] d] by blast+
  have 2: "ring ?s' h (L h)" if "h \<in> set (heads cfg)" "h \<noteq> src" "h \<noteq> dst" for h
    by (rule ring_bulk_other[OF lists_ok_ring[OF assms(1,2)] lists_ok_ring[OF assms(1,3)]
          lists_ok_ring[OF assms(1) that(1)]])
       (use lists_ok_disj[OF assms(1) that(1) assms(2) that(2)]
            lists_ok_disj[OF assms(1) that(1) assms(3) that(3)] in auto)
  show ?thesis
    unfolding lists_ok_def
  proof (intro conjI ballI impI)
    fix h assume "h \<in> set (heads cfg)"
    then show "ring ?s' h ((L(src := [], dst := L dst @ L src)) h)"
      using 1 2 by (cases "h = src"; cases "h = dst") simp_all
  next
    fix h n assume "h \<in> set (heads cfg)" "n \<in> set ((L(src := [], dst := L dst @ L src)) h)"
    then show "list_entry n \<noteq> None"
      using assms unfolding lists_ok_def by (cases "h = src"; cases "h = dst") auto
  next
    fix h1 h2 assume a: "h1 \<in> set (heads cfg)" "h2 \<in> set (heads cfg)" "h1 \<noteq> h2"
    have "\<And>a b. a \<in> set (heads cfg) \<Longrightarrow> b \<in> set (heads cfg) \<Longrightarrow> a \<noteq> b \<Longrightarrow> set (L a) \<inter> set (L b) = {}"
      using assms(1) unfolding lists_ok_def by blast
    then show "set ((L(src := [], dst := L dst @ L src)) h1) \<inter>
               set ((L(src := [], dst := L dst @ L src)) h2) = {}"
      using a assms(2,3,4) by (auto simp: fun_upd_def)
  qed
qed

section \<open>The stride heap: sift-up and sift-down\<close>

lemma heap_ok_iff: "heap_ok key h n = heapP key h n"
proof
  assume H: "heap_ok key h n"
  show "heapP key h n"
    unfolding heapP_def
  proof (intro allI impI)
    fix j :: int assume j: "2 \<le> j \<and> j \<le> n"
    let ?i = "j div 2"
    have i: "?i \<in> {1..n}" using j by auto
    from H i have c: "(2 * ?i \<le> n \<longrightarrow> key (h ?i) \<le> key (h (2 * ?i))) \<and>
                   (2 * ?i + 1 \<le> n \<longrightarrow> key (h ?i) \<le> key (h (2 * ?i + 1)))"
      unfolding heap_ok_def list_all_iff by auto
    have "j = 2 * ?i \<or> j = 2 * ?i + 1" by presburger
    then show "key (h ?i) \<le> key (h j)" using c j by (metis)
  qed
next
  assume H: "heapP key h n"
  show "heap_ok key h n"
    unfolding heap_ok_def list_all_iff
  proof (intro ballI conjI impI)
    fix i :: int assume i: "i \<in> set [1..n]" and b: "2 * i \<le> n"
    have "(2 * i) div 2 = i" by simp
    moreover have "2 \<le> 2 * i" using i by auto
    ultimately show "key (h i) \<le> key (h (2 * i))" using H b unfolding heapP_def by metis
  next
    fix i :: int assume i: "i \<in> set [1..n]" and b: "2 * i + 1 \<le> n"
    have "(2 * i + 1) div 2 = i" by simp
    moreover have "2 \<le> 2 * i + 1" using i by auto
    ultimately show "key (h i) \<le> key (h (2 * i + 1))" using H b unfolding heapP_def by metis
  qed
qed

lemma heapP_root_min:
  assumes "heapP key h n" "1 \<le> i" "i \<le> n"
  shows "key (h 1) \<le> key (h i)"
  using assms(2,3)
proof (induction "nat i" arbitrary: i rule: less_induct)
  case less
  show ?case
  proof (cases "i = 1")
    case True then show ?thesis by simp
  next
    case False
    with less.prems have i2: "2 \<le> i" by simp
    then have "nat (i div 2) < nat i" "1 \<le> i div 2" "i div 2 \<le> n" using less.prems by auto
    then have "key (h 1) \<le> key (h (i div 2))" using less.hyps by blast
    moreover have "key (h (i div 2)) \<le> key (h i)"
      using assms(1) i2 less.prems unfolding heapP_def by blast
    ultimately show ?thesis by simp
  qed
qed

lemma image_mset_swap:
  assumes "finite I" "a \<in> I" "b \<in> I"
  shows "image_mset (g(a := g b, b := g a)) (mset_set I) = image_mset g (mset_set I)"
proof (cases "a = b")
  case True
  then show ?thesis by (simp add: fun_upd_idem)
next
  case False
  define J where "J = I - {a, b}"
  have I: "I = insert a (insert b J)" and fin: "finite J" and nin: "a \<notin> J" "b \<notin> J"
    using assms by (auto simp: J_def)
  have "image_mset (g(a := g b, b := g a)) (mset_set J) = image_mset g (mset_set J)"
    by (rule image_mset_cong) (use fin nin in auto)
  then show ?thesis
    using False fin nin by (simp add: I)
qed

lemma pushheap_loop_correct:
  assumes "1 \<le> i" "i \<le> n" "key p = x"
    and "\<forall>j. 2 \<le> j \<and> j \<le> n \<and> j \<noteq> i \<longrightarrow> key ((h(i := p)) (j div 2)) \<le> key ((h(i := p)) j)"
    and "2 \<le> i \<longrightarrow> (\<forall>j. 2 \<le> j \<and> j \<le> n \<and> j div 2 = i \<longrightarrow> key (h (i div 2)) \<le> key (h j))"
  shows "\<exists>h' i'. pushheap_loop key x h i = Some (h', i') \<and> 1 \<le> i' \<and> i' \<le> n \<and>
           heapP key (h'(i' := p)) n \<and>
           image_mset (h'(i' := p)) (mset_set {1..n}) = image_mset (h(i := p)) (mset_set {1..n})"
  using assms(1,2,4,5)
proof (induction "nat i" arbitrary: i h rule: less_induct)
  case less
  let ?g = "h(i := p)"
  show ?case
  proof (cases "i \<noteq> 1 \<and> x < key (h (cdiv i 2))")
    case False
    then have stop: "pushheap_loop key x h i = Some (h, i)"
      by (subst pushheap_loop.simps) auto
    have "heapP key ?g n"
      unfolding heapP_def
    proof (intro allI impI)
      fix j assume j: "2 \<le> j \<and> j \<le> n"
      show "key (?g (j div 2)) \<le> key (?g j)"
      proof (cases "j = i")
        case True
        then have "i \<noteq> 1" "i div 2 \<noteq> i" using j by auto
        then have "key (h (i div 2)) \<le> x" using False less.prems(1) by (simp add: cdiv_two_pos)
        then show ?thesis using True \<open>i div 2 \<noteq> i\<close> assms(3) by simp
      next
        case False
        then show ?thesis using less.prems(3) j by blast
      qed
    qed
    then show ?thesis using stop less.prems by simp
  next
    case True
    let ?i' = "i div 2"
    let ?h' = "h(i := h ?i')"
    have i2: "2 \<le> i" using True less.prems by simp
    have ne: "?i' \<noteq> i" and i'1: "1 \<le> ?i'" and i'n: "?i' \<le> n" and dec: "nat ?i' < nat i"
      using i2 less.prems by auto
    have lt: "x < key (h ?i')" using True less.prems by (simp add: cdiv_two_pos)
    have step: "pushheap_loop key x h i = pushheap_loop key x ?h' ?i'"
      using True less.prems by (subst pushheap_loop.simps) (simp add: cdiv_two_pos)
    have A': "\<forall>j. 2 \<le> j \<and> j \<le> n \<and> j \<noteq> ?i' \<longrightarrow>
                key ((?h'(?i' := p)) (j div 2)) \<le> key ((?h'(?i' := p)) j)"
    proof (intro allI impI)
      fix j assume j: "2 \<le> j \<and> j \<le> n \<and> j \<noteq> ?i'"
      show "key ((?h'(?i' := p)) (j div 2)) \<le> key ((?h'(?i' := p)) j)"
      proof (cases "j = i")
        case True
        then show ?thesis using lt assms(3) ne by simp
      next
        case ji: False
        show ?thesis
        proof (cases "j div 2 = i")
          case True
          then have "key (h ?i') \<le> key (h j)" using less.prems(4) i2 j by blast
          then show ?thesis using True ji j ne by simp
        next
          case pi: False
          show ?thesis
          proof (cases "j div 2 = ?i'")
            case True
            have "key (?g (j div 2)) \<le> key (?g j)" using less.prems(3) j ji by blast
            then have "key (h ?i') \<le> key (h j)" using True ji ne by simp
            then show ?thesis using True ji j lt assms(3) by simp
          next
            case False
            have "key (?g (j div 2)) \<le> key (?g j)" using less.prems(3) j ji by blast
            then show ?thesis using False pi ji j by simp
          qed
        qed
      qed
    qed
    have B': "2 \<le> ?i' \<longrightarrow> (\<forall>j. 2 \<le> j \<and> j \<le> n \<and> j div 2 = ?i' \<longrightarrow>
                 key (?h' (?i' div 2)) \<le> key (?h' j))"
    proof (intro allI impI)
      fix j assume i'2: "2 \<le> ?i'" and j: "2 \<le> j \<and> j \<le> n \<and> j div 2 = ?i'"
      have "?i' div 2 \<noteq> i" "?i' div 2 \<noteq> ?i'" using i'2 by auto
      have p1: "key (?g (?i' div 2)) \<le> key (?g ?i')" using less.prems(3) i'2 i'n ne by blast
      then have p1': "key (h (?i' div 2)) \<le> key (h ?i')" using ne \<open>?i' div 2 \<noteq> i\<close> by simp
      show "key (?h' (?i' div 2)) \<le> key (?h' j)"
      proof (cases "j = i")
        case True
        then show ?thesis using p1' \<open>?i' div 2 \<noteq> i\<close> by simp
      next
        case False
        have "key (?g (j div 2)) \<le> key (?g j)" using less.prems(3) j False by blast
        then have "key (h ?i') \<le> key (h j)" using j False ne by simp
        then show ?thesis using p1' False \<open>?i' div 2 \<noteq> i\<close> by simp
      qed
    qed
    from less.hyps[OF dec i'1 i'n A' B'] obtain h'' i'' where
      r: "pushheap_loop key x ?h' ?i' = Some (h'', i'')" "1 \<le> i''" "i'' \<le> n"
         "heapP key (h''(i'' := p)) n"
         "image_mset (h''(i'' := p)) (mset_set {1..n}) = image_mset (?h'(?i' := p)) (mset_set {1..n})"
      by blast
    have sw: "?h'(?i' := p) = ?g(i := ?g ?i', ?i' := ?g i)"
      using ne by (auto simp: fun_eq_iff)
    have "image_mset (?h'(?i' := p)) (mset_set {1..n}) = image_mset ?g (mset_set {1..n})"
      unfolding sw by (rule image_mset_swap) (use less.prems i'1 i'n in auto)
    then show ?thesis using r step by simp
  qed
qed

lemma popheap_loop_correct:
  assumes "1 \<le> par" "child = 2 * par" "key l = y"
    and "heapP key h n"
    and "\<forall>j. 2 \<le> j \<and> j \<le> n \<and> j div 2 \<noteq> par \<longrightarrow>
           key ((h(par := l)) (j div 2)) \<le> key ((h(par := l)) j)"
  shows "\<exists>h' par'. popheap_loop key y n h par child = Some (h', par') \<and>
           heapP key (h'(par' := l)) n \<and>
           image_mset (h'(par' := l)) (mset_set {1..n}) = image_mset (h(par := l)) (mset_set {1..n})"
  using assms(1,2,4,5)
proof (induction "nat (n - par)" arbitrary: par child h rule: less_induct)
  case less
  let ?g = "h(par := l)"
  let ?c = "if child < n \<and> key (h child) > key (h (child + 1)) then child + 1 else child"
  have HP: "\<And>j. 2 \<le> j \<Longrightarrow> j \<le> n \<Longrightarrow> key (h (j div 2)) \<le> key (h j)"
    using less.prems(3) unfolding heapP_def by blast
  show ?case
  proof (cases "child \<le> n")
    case False
    then have stop: "popheap_loop key y n h par child = Some (h, par)"
      by (subst popheap_loop.simps) auto
    have "heapP key ?g n"
      unfolding heapP_def
    proof (intro allI impI)
      fix j assume j: "2 \<le> j \<and> j \<le> n"
      then have "j div 2 \<noteq> par" using False less.prems(2) by auto
      then show "key (?g (j div 2)) \<le> key (?g j)" using less.prems(4) j by blast
    qed
    then show ?thesis using stop by simp
  next
    case cn: True
    have c_range: "?c \<le> n" "?c div 2 = par" "2 \<le> ?c" "?c \<noteq> par" "par \<le> n"
      using cn less.prems(1,2) by auto
    have c_min: "\<And>j. 2 \<le> j \<Longrightarrow> j \<le> n \<Longrightarrow> j div 2 = par \<Longrightarrow> key (h ?c) \<le> key (h j)"
    proof -
      fix j :: int assume j: "2 \<le> j" "j \<le> n" "j div 2 = par"
      then have "j = child \<or> j = child + 1" using less.prems(2) by presburger
      then show "key (h ?c) \<le> key (h j)" using j by auto
    qed
    show ?thesis
    proof (cases "y \<le> key (h ?c)")
      case True
      then have stop: "popheap_loop key y n h par child = Some (h, par)"
        using cn by (subst popheap_loop.simps) (simp add: Let_def)
      have "heapP key ?g n"
        unfolding heapP_def
      proof (intro allI impI)
        fix j assume j: "2 \<le> j \<and> j \<le> n"
        show "key (?g (j div 2)) \<le> key (?g j)"
        proof (cases "j div 2 = par")
          case False
          then show ?thesis using less.prems(4) j by blast
        next
          case jp: True
          then have "j \<noteq> par" using j by auto
          moreover have "key (h ?c) \<le> key (h j)" using c_min j jp by blast
          ultimately show ?thesis using True jp assms(3) by simp
        qed
      qed
      then show ?thesis using stop by simp
    next
      case False
      let ?h' = "h(par := h ?c)"
      have step: "popheap_loop key y n h par child = popheap_loop key y n ?h' ?c (?c * 2)"
        using cn False by (subst popheap_loop.simps) (simp add: Let_def)
      have dec: "nat (n - ?c) < nat (n - par)" using c_range less.prems(1) cn by auto
      have H1': "heapP key ?h' n"
        unfolding heapP_def
      proof (intro allI impI)
        fix j assume j: "2 \<le> j \<and> j \<le> n"
        show "key (?h' (j div 2)) \<le> key (?h' j)"
        proof (cases "j = par")
          case True
          then have "j div 2 \<noteq> par" using j by auto
          moreover have "key (h (par div 2)) \<le> key (h par)" using HP j True by blast
          moreover have "key (h par) \<le> key (h ?c)" using HP[of ?c] c_range by simp
          ultimately show ?thesis using True by simp
        next
          case jn: False
          show ?thesis
          proof (cases "j div 2 = par")
            case True
            then show ?thesis using c_min j jn by simp
          next
            case False
            then show ?thesis using HP j jn by simp
          qed
        qed
      qed
      have H2': "\<forall>j. 2 \<le> j \<and> j \<le> n \<and> j div 2 \<noteq> ?c \<longrightarrow>
                   key ((?h'(?c := l)) (j div 2)) \<le> key ((?h'(?c := l)) j)"
      proof (intro allI impI)
        fix j assume j: "2 \<le> j \<and> j \<le> n \<and> j div 2 \<noteq> ?c"
        show "key ((?h'(?c := l)) (j div 2)) \<le> key ((?h'(?c := l)) j)"
        proof (cases "j = ?c")
          case True
          then have "j div 2 = par" using c_range by simp
          then show ?thesis using True False assms(3) c_range by simp
        next
          case jc: False
          show ?thesis
          proof (cases "j div 2 = par")
            case True
            then have "j \<noteq> par" using j by auto
            then show ?thesis using True jc c_min j c_range by simp
          next
            case jp: False
            show ?thesis
            proof (cases "j = par")
              case True
              have "key (h (par div 2)) \<le> key (h par)" using HP j True by blast
              moreover have "key (h par) \<le> key (h ?c)" using HP[of ?c] c_range by simp
              ultimately show ?thesis using True jp jc j by simp
            next
              case False
              then show ?thesis using HP j jp jc by simp
            qed
          qed
        qed
      qed
      have c1: "1 \<le> ?c" using c_range by simp
      from less.hyps[OF dec c1 _ H1' H2'] obtain h'' par'' where
        r: "popheap_loop key y n ?h' ?c (?c * 2) = Some (h'', par'')"
           "heapP key (h''(par'' := l)) n"
           "image_mset (h''(par'' := l)) (mset_set {1..n}) = image_mset (?h'(?c := l)) (mset_set {1..n})"
        by (metis mult.commute)
      have sw: "?h'(?c := l) = ?g(par := ?g ?c, ?c := ?g par)"
        using c_range by (auto simp: fun_eq_iff)
      have "image_mset (?h'(?c := l)) (mset_set {1..n}) = image_mset ?g (mset_set {1..n})"
        unfolding sw by (rule image_mset_swap) (use c_range less.prems(1) in auto)
      then show ?thesis using r step by simp
    qed
  qed
qed

lemma heap_elems_alt: "heap_elems s = image_mset (stride_minheap s) (mset_set {1..stride_size s})"
proof -
  have "mset_set {1..stride_size s} = mset [1..stride_size s]"
    using mset_set_set[of "[1..stride_size s]"] by simp
  then show ?thesis by (simp add: heap_elems_def)
qed

lemma pushheap_correct:
  assumes "heap_inv s" "0 \<le> stride_size s"
  shows "\<exists>s'. pushheap p s = Some s' \<and> heap_inv s' \<and>
           stride_size s' = stride_size s + 1 \<and>
           heap_elems s' = add_mset p (heap_elems s) \<and>
           s' = s\<lparr>stride_size := stride_size s', stride_minheap := stride_minheap s'\<rparr>"
proof -
  let ?n = "stride_size s + 1"
  let ?key = "\<lambda>k. pass (procs s k)"
  let ?h = "stride_minheap s"
  have HP: "heapP ?key ?h (stride_size s)" using assms(1) by (simp add: heap_inv_def heap_ok_iff)
  have A: "\<forall>j. 2 \<le> j \<and> j \<le> ?n \<and> j \<noteq> ?n \<longrightarrow> ?key ((?h(?n := p)) (j div 2)) \<le> ?key ((?h(?n := p)) j)"
  proof (intro allI impI)
    fix j assume j: "2 \<le> j \<and> j \<le> ?n \<and> j \<noteq> ?n"
    then have "j div 2 \<noteq> ?n" "j \<le> stride_size s" by auto
    then show "?key ((?h(?n := p)) (j div 2)) \<le> ?key ((?h(?n := p)) j)"
      using HP j unfolding heapP_def by simp
  qed
  have B: "2 \<le> ?n \<longrightarrow> (\<forall>j. 2 \<le> j \<and> j \<le> ?n \<and> j div 2 = ?n \<longrightarrow> ?key (?h (?n div 2)) \<le> ?key (?h j))"
    by auto
  from pushheap_loop_correct[of ?n ?n ?key p "pass (procs s p)" ?h, OF _ _ _ A B] assms(2)
  obtain h' i' where
    r: "pushheap_loop ?key (pass (procs s p)) ?h ?n = Some (h', i')" "1 \<le> i'" "i' \<le> ?n"
       "heapP ?key (h'(i' := p)) ?n"
       "image_mset (h'(i' := p)) (mset_set {1..?n}) = image_mset (?h(?n := p)) (mset_set {1..?n})"
    by auto
  let ?s' = "s\<lparr>stride_size := ?n, stride_minheap := h'(i' := p)\<rparr>"
  have res: "pushheap p s = Some ?s'"
    using r(1) by (simp add: pushheap_def Let_def)
  have set: "{1..?n} = insert ?n {1..stride_size s}" using assms(2) by auto
  have "image_mset (?h(?n := p)) (mset_set {1..stride_size s}) = image_mset ?h (mset_set {1..stride_size s})"
    by (rule image_mset_cong) auto
  then have "image_mset (?h(?n := p)) (mset_set {1..?n}) = add_mset p (heap_elems s)"
    unfolding set by (simp add: heap_elems_alt)
  then have el: "heap_elems ?s' = add_mset p (heap_elems s)"
    using r(5) by (simp add: heap_elems_alt)
  have "heap_inv ?s'" using r(4) by (simp add: heap_inv_def heap_ok_iff)
  then show ?thesis using res el by simp
qed

lemma popheap_correct:
  assumes "heap_inv s" "1 \<le> stride_size s"
  shows "\<exists>s'. popheap s = Some (stride_minheap s 1, s') \<and> heap_inv s' \<and>
           stride_size s' = stride_size s - 1 \<and>
           add_mset (stride_minheap s 1) (heap_elems s') = heap_elems s \<and>
           (\<forall>k \<in># heap_elems s. pass (procs s (stride_minheap s 1)) \<le> pass (procs s k)) \<and>
           s' = s\<lparr>stride_size := stride_size s', stride_minheap := stride_minheap s'\<rparr>"
proof -
  let ?n = "stride_size s"
  let ?m = "?n - 1"
  let ?key = "\<lambda>k. pass (procs s k)"
  let ?h = "stride_minheap s"
  let ?l = "?h ?n"
  have HP: "heapP ?key ?h ?n" using assms(1) by (simp add: heap_inv_def heap_ok_iff)
  then have H1: "heapP ?key ?h ?m" unfolding heapP_def by simp
  have H2: "\<forall>j. 2 \<le> j \<and> j \<le> ?m \<and> j div 2 \<noteq> 1 \<longrightarrow>
              ?key ((?h(1 := ?l)) (j div 2)) \<le> ?key ((?h(1 := ?l)) j)"
    using H1 unfolding heapP_def by auto
  from popheap_loop_correct[of 1 2 ?key ?l "?key ?l" ?h ?m, OF _ _ _ H1 H2]
  obtain h' par' where
    r: "popheap_loop ?key (?key ?l) ?m ?h 1 2 = Some (h', par')"
       "heapP ?key (h'(par' := ?l)) ?m"
       "image_mset (h'(par' := ?l)) (mset_set {1..?m}) = image_mset (?h(1 := ?l)) (mset_set {1..?m})"
    by auto
  let ?s' = "s\<lparr>stride_size := ?m, stride_minheap := h'(par' := ?l)\<rparr>"
  have res: "popheap s = Some (?h 1, ?s')"
    using r(1) by (simp add: popheap_def Let_def)
  have inv: "heap_inv ?s'" using r(2) by (simp add: heap_inv_def heap_ok_iff)
  have el: "add_mset (?h 1) (heap_elems ?s') = heap_elems s"
  proof (cases "?n = 1")
    case True
    then show ?thesis by (simp add: heap_elems_def)
  next
    case False
    with assms(2) have n2: "2 \<le> ?n" by simp
    have s1: "{1..?m} = insert 1 {2..?m}" and s2: "{1..?n} = insert 1 (insert ?n {2..?m})"
      using n2 by auto
    have c1: "image_mset (?h(1 := ?l)) (mset_set {2..?m}) = image_mset ?h (mset_set {2..?m})"
      by (rule image_mset_cong) auto
    have "heap_elems ?s' = image_mset (?h(1 := ?l)) (mset_set {1..?m})"
      using r(3) by (simp add: heap_elems_alt)
    also have "\<dots> = add_mset ?l (image_mset ?h (mset_set {2..?m}))"
      unfolding s1 using c1 by simp
    finally have "add_mset (?h 1) (heap_elems ?s') = add_mset (?h 1) (add_mset ?l (image_mset ?h (mset_set {2..?m})))"
      by simp
    also have "\<dots> = heap_elems s"
      unfolding heap_elems_alt s2 using n2 by simp
    finally show ?thesis .
  qed
  have mn: "\<forall>k \<in># heap_elems s. ?key (?h 1) \<le> ?key k"
  proof
    fix k assume "k \<in># heap_elems s"
    then obtain i where "1 \<le> i" "i \<le> ?n" "k = ?h i" by (auto simp: heap_elems_def)
    then show "?key (?h 1) \<le> ?key k" using heapP_root_min[OF HP] by simp
  qed
  show ?thesis using res inv el mn by simp
qed

text \<open>
  Claim C5. \<^verbatim>\<open>pushheap\<close> and \<^verbatim>\<open>popheap\<close> return and preserve the min-heap property on
  \<^verbatim>\<open>minheap[1..size]\<close>: every index is no larger by pass than its children \<open>2i\<close> and
  \<open>2i+1\<close> where they exist. \<^verbatim>\<open>pushheap\<close> adds exactly the pushed process;
  \<^verbatim>\<open>popheap\<close> on a non-empty heap returns the root, whose pass is minimal among the
  entries, and leaves exactly the other entries (the last one refills the hole that
  sifts down towards the smaller child).
\<close>

theorem C5_heap_property_preserved:
  assumes "heap_inv s" and "0 \<le> stride_size s"
  shows "(\<exists>s'. pushheap p s = Some s' \<and> heap_inv s' \<and>
               stride_size s' = stride_size s + 1 \<and>
               heap_elems s' = add_mset p (heap_elems s)) \<and>
         (1 \<le> stride_size s \<longrightarrow>
            (\<exists>s'. popheap s = Some (stride_minheap s 1, s') \<and> heap_inv s' \<and>
                  stride_size s' = stride_size s - 1 \<and>
                  add_mset (stride_minheap s 1) (heap_elems s') = heap_elems s \<and>
                  (\<forall>k \<in># heap_elems s.
                      pass (procs s (stride_minheap s 1)) \<le> pass (procs s k))))"
proof (intro conjI impI)
  from pushheap_correct[OF assms, of p]
  show "\<exists>s'. pushheap p s = Some s' \<and> heap_inv s' \<and>
             stride_size s' = stride_size s + 1 \<and>
             heap_elems s' = add_mset p (heap_elems s)"
    by blast
next
  assume "1 \<le> stride_size s"
  from popheap_correct[OF assms(1) this]
  show "\<exists>s'. popheap s = Some (stride_minheap s 1, s') \<and> heap_inv s' \<and>
             stride_size s' = stride_size s - 1 \<and>
             add_mset (stride_minheap s 1) (heap_elems s') = heap_elems s \<and>
             (\<forall>k \<in># heap_elems s. pass (procs s (stride_minheap s 1)) \<le> pass (procs s k))"
    by blast
qed

lemma ex_heap_inv: "heap_inv ex_heap"
  by (simp add: heap_inv_def heap_ok_def ex_heap_def bss_def proc0_def upto_rec1)

theorem C5_heap_property_preserved_witness:
  "heap_inv ex_heap \<and> 1 \<le> stride_size ex_heap \<and>
   (\<exists>s'. pushheap 3 ex_heap = Some s' \<and> heap_inv s' \<and> stride_size s' = 4 \<and>
         heap_elems s' = {#3, 1, 0, 2#}) \<and>
   (\<exists>s'. popheap ex_heap = Some (1, s') \<and> heap_inv s' \<and> stride_size s' = 2 \<and>
         add_mset 1 (heap_elems s') = {#1, 0, 2#})"
proof -
  have sz: "stride_size ex_heap = 3" and root: "stride_minheap ex_heap 1 = 1"
    by (simp_all add: ex_heap_def bss_def)
  have el: "heap_elems ex_heap = {#1, 0, 2#}"
    by (simp add: heap_elems_def ex_heap_def bss_def upto_rec1)
  have "0 \<le> stride_size ex_heap" "1 \<le> stride_size ex_heap" using sz by simp_all
  with C5_heap_property_preserved[OF ex_heap_inv, of 3] show ?thesis
    using ex_heap_inv sz root el by auto
qed

section \<open>enqueue, dequeue and concatqueue on well-formed queues\<close>

lemma queue_head_in_heads: "l < QSIZE cfg \<Longrightarrow> QueueHead l \<in> set (heads cfg)"
  by (simp add: heads_def)

lemma special_heads: "RunHead \<in> set (heads cfg)" "SleepHead \<in> set (heads cfg)" "FreeHead \<in> set (heads cfg)"
  by (simp_all add: heads_def)

lemma pins_ok_cong:
  "mlfq_pin s' = mlfq_pin s \<Longrightarrow> pins_ok cfg s' L = pins_ok cfg s L"
  by (simp add: pins_ok_def)

lemma enqueue_lists:
  assumes "lists_ok cfg s L" "l < QSIZE cfg" "\<forall>h\<in>set (heads cfg). ProcNode p \<notin> set (L h)"
  shows "lists_ok cfg (enqueue l p s) (L(QueueHead l := L (QueueHead l) @ [ProcNode p]))"
  unfolding enqueue_def
  by (rule lists_ok_add_tail[OF assms(1) queue_head_in_heads[OF assms(2)] assms(3)])

lemma enqueue_pins:
  assumes "pins_ok cfg s L"
  shows "pins_ok cfg (enqueue l p s) (L(QueueHead l := L (QueueHead l) @ [ProcNode p]))"
  using assms by (auto simp: pins_ok_def)

lemma dequeue_pin:
  "mlfq_pin (dequeue p s) =
     (if mlfq_pin s (privlevel (procs s p)) = ProcNode p
      then (mlfq_pin s)(privlevel (procs s p) := lnext s (ProcNode p)) else mlfq_pin s)"
  unfolding dequeue_def Let_def
  apply (simp only: list_frame)
  apply (simp split: if_splits)
  done

lemma if_pin_links:
  "lnext (if c then s\<lparr>mlfq_pin := x\<rparr> else s) = lnext s"
  "lprev (if c then s\<lparr>mlfq_pin := x\<rparr> else s) = lprev s"
  by simp_all

lemma dequeue_lists:
  assumes "lists_ok cfg s L" "privlevel (procs s p) < QSIZE cfg"
    "ProcNode p \<in> set (L (QueueHead (privlevel (procs s p))))"
  shows "lists_ok cfg (dequeue p s)
           (L(QueueHead (privlevel (procs s p)) :=
                remove1 (ProcNode p) (L (QueueHead (privlevel (procs s p))))))"
proof -
  define s1 where "s1 = (if mlfq_pin s (privlevel (procs s p)) = ProcNode p
             then s\<lparr>mlfq_pin := (mlfq_pin s)(privlevel (procs s p) := lnext s (ProcNode p))\<rparr> else s)"
  have dq: "dequeue p s = list_del (ProcNode p) s1"
    unfolding dequeue_def Let_def s1_def by (rule refl)
  have "lnext s1 = lnext s" "lprev s1 = lprev s"
    unfolding s1_def by (rule if_pin_links)+
  then have "lists_ok cfg s1 L" by (rule lists_ok_links[OF assms(1)])
  from lists_ok_del[OF this queue_head_in_heads[OF assms(2)] assms(3)]
  show ?thesis unfolding dq .
qed

lemma dequeue_pins:
  assumes "lists_ok cfg s L" "pins_ok cfg s L" "privlevel (procs s p) < QSIZE cfg"
    "ProcNode p \<in> set (L (QueueHead (privlevel (procs s p))))"
  shows "pins_ok cfg (dequeue p s)
           (L(QueueHead (privlevel (procs s p)) :=
                remove1 (ProcNode p) (L (QueueHead (privlevel (procs s p))))))"
proof -
  let ?lvl = "privlevel (procs s p)"
  let ?h = "QueueHead ?lvl"
  have r: "ring s ?h (L ?h)" using lists_ok_ring[OF assms(1) queue_head_in_heads[OF assms(3)]] .
  then have d: "distinct (?h # L ?h)" by (simp add: ring_def)
  obtain ys zs where sp: "L ?h = ys @ ProcNode p # zs" using assms(4) by (meson split_list)
  have nx: "lnext s (ProcNode p) = hd (zs @ [?h])" using ring_next_elem r sp by metis
  have "hd (zs @ [?h]) \<in> set (?h # zs)" by (cases zs) auto
  moreover have "ProcNode p \<notin> set (?h # zs)" using d sp by auto
  ultimately have nxin: "lnext s (ProcNode p) \<in> set (?h # remove1 (ProcNode p) (L ?h))"
    using nx d sp by (auto simp: set_remove1_eq)
  show ?thesis
    unfolding pins_ok_def
  proof (intro allI impI)
    fix l assume l: "l < QSIZE cfg"
    have old: "mlfq_pin s l \<in> set (QueueHead l # L (QueueHead l))"
      using assms(2) l by (simp add: pins_ok_def)
    show "mlfq_pin (dequeue p s) l \<in>
            set (QueueHead l # (L(?h := remove1 (ProcNode p) (L ?h))) (QueueHead l))"
    proof (cases "l = ?lvl")
      case True
      show ?thesis
      proof (cases "mlfq_pin s ?lvl = ProcNode p")
        case pin: True
        then show ?thesis using True nxin by (simp add: dequeue_pin)
      next
        case False
        then show ?thesis using True old d by (auto simp: dequeue_pin set_remove1_eq)
      qed
    next
      case False
      then show ?thesis using old by (simp add: dequeue_pin)
    qed
  qed
qed

lemma concatqueue_pin:
  "mlfq_pin (concatqueue src dst s) =
     ((if list_empty (QueueHead dst) s \<and> mlfq_pin s src \<noteq> QueueHead src
       then (mlfq_pin s)(dst := mlfq_pin s src) else mlfq_pin s)) (src := QueueHead src)"
  by (simp add: concatqueue_def Let_def)

lemma concatqueue_lists:
  assumes "lists_ok cfg s L" "src < QSIZE cfg" "dst < QSIZE cfg" "src \<noteq> dst"
  shows "lists_ok cfg (concatqueue src dst s)
           (L(QueueHead src := [], QueueHead dst := L (QueueHead dst) @ L (QueueHead src)))"
proof -
  let ?s1 = "if list_empty (QueueHead dst) s \<and> mlfq_pin s src \<noteq> QueueHead src
             then s\<lparr>mlfq_pin := (mlfq_pin s)(dst := mlfq_pin s src)\<rparr> else s"
  let ?s2 = "?s1\<lparr>mlfq_pin := (mlfq_pin ?s1)(src := QueueHead src)\<rparr>"
  have "lists_ok cfg ?s2 L" by (rule lists_ok_links[OF assms(1)]) simp_all
  from lists_ok_bulk[OF this queue_head_in_heads[OF assms(2)] queue_head_in_heads[OF assms(3)]]
  show ?thesis using assms(4) by (simp add: concatqueue_def Let_def)
qed

lemma concatqueue_pins:
  assumes "lists_ok cfg s L" "pins_ok cfg s L" "src < QSIZE cfg" "dst < QSIZE cfg" "src \<noteq> dst"
  shows "pins_ok cfg (concatqueue src dst s)
           (L(QueueHead src := [], QueueHead dst := L (QueueHead dst) @ L (QueueHead src)))"
proof -
  have e: "list_empty (QueueHead dst) s = (L (QueueHead dst) = [])"
    using ring_empty_iff[OF lists_ok_ring[OF assms(1) queue_head_in_heads[OF assms(4)]]] .
  have ps: "mlfq_pin s src \<in> set (QueueHead src # L (QueueHead src))"
    and pd: "mlfq_pin s dst \<in> set (QueueHead dst # L (QueueHead dst))"
    using assms(2,3,4) by (simp_all add: pins_ok_def)
  show ?thesis
    unfolding pins_ok_def
  proof (intro allI impI)
    fix l assume l: "l < QSIZE cfg"
    have old: "mlfq_pin s l \<in> set (QueueHead l # L (QueueHead l))"
      using assms(2) l by (simp add: pins_ok_def)
    show "mlfq_pin (concatqueue src dst s) l \<in>
            set (QueueHead l # (L(QueueHead src := [], QueueHead dst := L (QueueHead dst) @ L (QueueHead src))) (QueueHead l))"
      using old ps pd assms(5) e by (auto simp: concatqueue_pin)
  qed
qed

section \<open>mlfqselect on well-formed queues\<close>

lemma ring_next_any:
  assumes "ring s h ys" "h # ys = pre @ cur # rest"
  shows "lnext s cur = hd (rest @ [h])"
proof (cases pre)
  case Nil
  then show ?thesis using assms ring_next_head by auto
next
  case (Cons a pre')
  then have "ys = pre' @ cur # rest" using assms(2) by simp
  then show ?thesis using assms(1) ring_next_elem by blast
qed

lemma takeWhile_until: "x \<notin> set as \<Longrightarrow> takeWhile (\<lambda>y. y \<noteq> x) (as @ x # bs) = as"
  by (induction as) auto

lemma dropWhile_until: "x \<notin> set as \<Longrightarrow> dropWhile (\<lambda>y. y \<noteq> x) (as @ x # bs) = x # bs"
  by (induction as) auto

lemma ring_rotate:
  assumes "ring s h xs" "x \<in> set (h # xs)"
  shows "\<exists>ys. rotate_to x (h # xs) = x # ys \<and> ring s x ys \<and> set (x # ys) = set (h # xs)"
proof (cases "x = h")
  case True
  then show ?thesis using assms(1) by (auto simp: rotate_to_def)
next
  case False
  then have "x \<in> set xs" using assms(2) by simp
  then obtain as bs where sp: "xs = as @ x # bs" and nin: "x \<notin> set as"
    by (meson split_list_first)
  have d: "distinct (h # as @ x # bs)" and sg: "seg (lnext s) (lprev s) h as x" "seg (lnext s) (lprev s) x bs h"
    using assms(1) sp by (auto simp: ring_def seg_append)
  have dw: "dropWhile (\<lambda>y. y \<noteq> x) (h # xs) = x # bs"
    using False nin sp by (simp add: dropWhile_until)
  have tw: "takeWhile (\<lambda>y. y \<noteq> x) (h # xs) = h # as"
    using False nin sp by (simp add: takeWhile_until)
  have "seg (lnext s) (lprev s) x (bs @ h # as) x" using sg by (simp add: seg_append)
  moreover have "distinct (x # bs @ h # as)" using d by auto
  ultimately have "ring s x (bs @ h # as)" by (simp add: ring_def)
  moreover have "rotate_to x (h # xs) = x # bs @ h # as" unfolding rotate_to_def dw tw by simp
  moreover have "set (x # bs @ h # as) = set (h # xs)" using sp by auto
  ultimately show ?thesis by blast
qed

lemma mlfqselect_walk_correct:
  assumes "ring s pin ys" "pin # ys = pre @ cur # rest"
    "\<forall>n\<in>set (pin # ys). n \<noteq> q \<longrightarrow> list_entry n \<noteq> None"
  shows "mlfqselect_walk s q pin cur =
           Some (map_option (\<lambda>n. (n, the (list_entry n))) (find (runnable_node s q) (cur # rest)))"
  using assms(2)
proof (induction rest arbitrary: pre cur)
  case Nil
  have nx: "lnext s cur = pin" using ring_next_any[OF assms(1) Nil] by simp
  have cin: "cur \<in> set (pin # ys)" using Nil by (metis in_set_conv_decomp)
  show ?case
  proof (cases "cur = q")
    case True
    then have rn: "\<not> runnable_node s q cur" by (simp add: runnable_node_def)
    show ?thesis using nx True rn
      by (subst mlfqselect_walk.simps) (simp add: list_is_head_def)
  next
    case False
    then obtain p where p: "list_entry cur = Some p" using assms(3) cin by auto
    have rn: "runnable_node s q cur = (state (procs s p) = RUNNABLE)"
      using False p by (simp add: runnable_node_def)
    show ?thesis using nx False p
      by (subst mlfqselect_walk.simps) (simp add: list_is_head_def rn)
  qed
next
  case (Cons r rest)
  have nx: "lnext s cur = r" using ring_next_any[OF assms(1) Cons.prems] by simp
  have cin: "cur \<in> set (pin # ys)" using Cons.prems by (metis in_set_conv_decomp)
  have d: "distinct (pin # ys)" using assms(1) by (simp add: ring_def)
  have rp: "r \<noteq> pin"
  proof (cases pre)
    case Nil
    then show ?thesis using Cons.prems d by auto
  next
    case (Cons a pre')
    then have "pin = a" "ys = pre' @ cur # r # rest" using Cons.prems by simp_all
    then show ?thesis using d by auto
  qed
  have next_eq: "pin # ys = (pre @ [cur]) @ r # rest" using Cons.prems by simp
  note ih = Cons.IH[OF next_eq]
  show ?case
  proof (cases "cur = q")
    case True
    then have rn: "\<not> runnable_node s q cur" by (simp add: runnable_node_def)
    show ?thesis using nx rp True rn ih
      by (subst mlfqselect_walk.simps) (simp add: list_is_head_def)
  next
    case False
    then obtain p where p: "list_entry cur = Some p" using assms(3) cin by auto
    have rn: "runnable_node s q cur = (state (procs s p) = RUNNABLE)"
      using False p by (simp add: runnable_node_def)
    show ?thesis using nx rp False p ih
      by (subst mlfqselect_walk.simps) (simp add: list_is_head_def rn)
  qed
qed

lemma mlfqselect_level:
  assumes "lists_ok cfg s L" "pins_ok cfg s L" "l < QSIZE cfg"
  shows "mlfqselect_walk s (QueueHead l) (mlfq_pin s l) (mlfq_pin s l) =
           Some (map_option (\<lambda>n. (n, the (list_entry n))) (level_pick s L l))"
proof -
  let ?h = "QueueHead l"
  have hin: "?h \<in> set (heads cfg)" using assms(3) by (rule queue_head_in_heads)
  have r: "ring s ?h (L ?h)" by (rule lists_ok_ring[OF assms(1) hin])
  have pin: "mlfq_pin s l \<in> set (?h # L ?h)" using assms(2,3) by (simp add: pins_ok_def)
  from ring_rotate[OF r pin] obtain ys where
    ys: "rotate_to (mlfq_pin s l) (?h # L ?h) = mlfq_pin s l # ys" "ring s (mlfq_pin s l) ys"
        "set (mlfq_pin s l # ys) = set (?h # L ?h)"
    by blast
  have ent: "\<forall>n\<in>set (mlfq_pin s l # ys). n \<noteq> ?h \<longrightarrow> list_entry n \<noteq> None"
    unfolding ys(3) using assms(1) hin unfolding lists_ok_def by auto
  from mlfqselect_walk_correct[OF ys(2) _ ent, of "[]" "mlfq_pin s l" ys]
  show ?thesis by (simp add: level_pick_def ys(1))
qed

lemma level_pick_in:
  assumes "lists_ok cfg s L" "pins_ok cfg s L" "l < QSIZE cfg" "level_pick s L l = Some n"
  shows "n \<in> set (L (QueueHead l)) \<and> runnable_node s (QueueHead l) n"
proof -
  let ?h = "QueueHead l"
  have r: "ring s ?h (L ?h)" by (rule lists_ok_ring[OF assms(1) queue_head_in_heads[OF assms(3)]])
  have pin: "mlfq_pin s l \<in> set (?h # L ?h)" using assms(2,3) by (simp add: pins_ok_def)
  from ring_rotate[OF r pin] obtain ys where
    ys: "rotate_to (mlfq_pin s l) (?h # L ?h) = mlfq_pin s l # ys"
        "set (mlfq_pin s l # ys) = set (?h # L ?h)"
    by blast
  have "runnable_node s ?h n" "n \<in> set (rotate_to (mlfq_pin s l) (?h # L ?h))"
    using assms(4) unfolding level_pick_def by (auto simp: find_Some_iff)
  then show ?thesis unfolding ys(1) using ys(2) by (auto simp: runnable_node_def)
qed

lemma mlfqselect_levels_correct:
  assumes "lists_ok cfg s L" "pins_ok cfg s L" "\<forall>l\<in>set ls. l < QSIZE cfg"
  shows "mlfqselect_levels ls s =
           Some (case find (\<lambda>l. level_pick s L l \<noteq> None) ls of
                   None \<Rightarrow> (None, s)
                 | Some l \<Rightarrow> (list_entry (the (level_pick s L l)),
                              s\<lparr>mlfq_pin := (mlfq_pin s)(l := the (level_pick s L l))\<rparr>))"
  using assms(3)
proof (induction ls)
  case Nil
  then show ?case by simp
next
  case (Cons l ls)
  have w: "mlfqselect_walk s (QueueHead l) (mlfq_pin s l) (mlfq_pin s l) =
           Some (map_option (\<lambda>n. (n, the (list_entry n))) (level_pick s L l))"
    by (rule mlfqselect_level[OF assms(1,2)]) (use Cons.prems in simp)
  show ?case
  proof (cases "level_pick s L l")
    case None
    then show ?thesis using w Cons by simp
  next
    case (Some n)
    then have "n \<in> set (L (QueueHead l))"
      using level_pick_in[OF assms(1,2) _ Some] Cons.prems by simp
    then have "list_entry n \<noteq> None"
      using assms(1) queue_head_in_heads[of l cfg] Cons.prems unfolding lists_ok_def by auto
    then show ?thesis using w Some by auto
  qed
qed

section \<open>pinit establishes well-formed lists\<close>

lemma pinit_queue_fold:
  "lnext (fold pinit_queue xs t) n = (if n \<in> QueueHead ` set xs then n else lnext t n) \<and>
   lprev (fold pinit_queue xs t) n = (if n \<in> QueueHead ` set xs then n else lprev t n) \<and>
   mlfq_pin (fold pinit_queue xs t) l = (if l \<in> set xs then QueueHead l else mlfq_pin t l)"
proof (induction xs arbitrary: t)
  case Nil
  then show ?case by simp
next
  case (Cons x xs)
  have st: "lnext (pinit_queue x t) = (lnext t)(QueueHead x := QueueHead x)"
    "lprev (pinit_queue x t) = (lprev t)(QueueHead x := QueueHead x)"
    "mlfq_pin (pinit_queue x t) = (mlfq_pin t)(x := QueueHead x)"
    by (simp_all add: pinit_queue_def list_head_init_def)
  show ?case
    using Cons.IH[of "pinit_queue x t"] unfolding st by auto
qed

lemma pinit_free_fold:
  assumes "lists_ok cfg t (\<lambda>h. [])"
  shows "lists_ok cfg (fold (\<lambda>i t. list_add_tail (ProcNode i) FreeHead t) [0..<k] t)
           (\<lambda>h. if h = FreeHead then map ProcNode [0..<k] else [])"
proof (induction k)
  case 0
  have "(\<lambda>h. if h = FreeHead then map ProcNode [0..<0] else []) = (\<lambda>h. [])" by auto
  then show ?case using assms by simp
next
  case (Suc k)
  let ?L = "\<lambda>h. if h = FreeHead then map ProcNode [0..<k] else []"
  let ?t = "fold (\<lambda>i t. list_add_tail (ProcNode i) FreeHead t) [0..<k] t"
  have fresh: "\<forall>h'\<in>set (heads cfg). ProcNode k \<notin> set (?L h')" by auto
  have "lists_ok cfg (list_add_tail (ProcNode k) FreeHead ?t) (?L(FreeHead := ?L FreeHead @ [ProcNode k]))"
    by (rule lists_ok_add_tail[OF Suc special_heads(3) fresh])
  moreover have "?L(FreeHead := ?L FreeHead @ [ProcNode k]) =
                 (\<lambda>h. if h = FreeHead then map ProcNode [0..<Suc k] else [])"
    by auto
  ultimately show ?case by simp
qed

lemma pinit_lists:
  "lists_ok cfg (pinit cfg s) (\<lambda>h. if h = FreeHead then map ProcNode [0..<NPROC cfg] else []) \<and>
   pins_ok cfg (pinit cfg s) (\<lambda>h. if h = FreeHead then map ProcNode [0..<NPROC cfg] else [])"
proof -
  define s1 where "s1 = fold pinit_queue [0..<QSIZE cfg] s"
  define s4 where "s4 = list_head_init FreeHead (list_head_init SleepHead (list_head_init RunHead s1))"
  define s5 where "s5 = fold (\<lambda>i t. list_add_tail (ProcNode i) FreeHead t) [0..<NPROC cfg] s4"
  have p: "pinit cfg s = s5\<lparr>mlfq_tickets := 100\<rparr>"
    unfolding pinit_def Let_def s5_def s4_def s1_def pinit_queue_def by (rule refl)
  have "lnext s4 h = h \<and> lprev s4 h = h" if "h \<in> set (heads cfg)" for h
    using that pinit_queue_fold[of "[0..<QSIZE cfg]" s h]
    unfolding s4_def s1_def heads_def by (auto simp: list_head_init_def)
  then have "lists_ok cfg s4 (\<lambda>h. [])" by (simp add: lists_ok_def ring_def)
  then have "lists_ok cfg s5 (\<lambda>h. if h = FreeHead then map ProcNode [0..<NPROC cfg] else [])"
    unfolding s5_def by (rule pinit_free_fold)
  then have 1: "lists_ok cfg (pinit cfg s) (\<lambda>h. if h = FreeHead then map ProcNode [0..<NPROC cfg] else [])"
    unfolding p by (rule lists_ok_links) simp_all
  have pin5: "mlfq_pin (fold (\<lambda>i t. list_add_tail (ProcNode i) FreeHead t) xs t) = mlfq_pin t" for xs t
    by (induction xs arbitrary: t) simp_all
  have "mlfq_pin s4 l = QueueHead l" if "l < QSIZE cfg" for l
    using that pinit_queue_fold[of "[0..<QSIZE cfg]" s _ l] unfolding s4_def s1_def by simp
  then have 2: "pins_ok cfg (pinit cfg s) (\<lambda>h. if h = FreeHead then map ProcNode [0..<NPROC cfg] else [])"
    unfolding p s5_def by (simp add: pins_ok_def pin5)
  show ?thesis using 1 2 by simp
qed

section \<open>Facts about the example states\<close>

lemma heads_ex: "heads cfg_ex = [QueueHead 0, QueueHead 1, QueueHead 2, RunHead, SleepHead, FreeHead]"
  by (simp add: heads_def cfg_ex_def upt_rec)

lemma all_less_3: "(\<forall>l<(3::nat). P l) \<longleftrightarrow> P 0 \<and> P 1 \<and> P 2"
proof -
  have "\<And>l::nat. l < 3 \<longleftrightarrow> l = 0 \<or> l = 1 \<or> l = 2" by auto
  then show ?thesis by auto
qed

lemma ex_mlfq_ok: "lists_ok cfg_ex ex_mlfq ex_mlfq_lists"
  by (simp add: lists_ok_def heads_ex ring_def ex_mlfq_lists_def ex_mlfq_def bss_def)

lemma ex_mlfq_pins: "pins_ok cfg_ex ex_mlfq ex_mlfq_lists"
  by (simp add: pins_ok_def all_less_3 cfg_ex_def ex_mlfq_lists_def ex_mlfq_def bss_def)

lemma all_less_4: "(\<forall>l<(4::nat). P l) \<longleftrightarrow> P 0 \<and> P 1 \<and> P 2 \<and> P 3"
proof -
  have "\<And>l::nat. l < 4 \<longleftrightarrow> l = 0 \<or> l = 1 \<or> l = 2 \<or> l = 3" by auto
  then show ?thesis by auto
qed

lemma ex_sleep_ok: "lists_ok cfg_ex ex_sleep ex_sleep_lists"
  by (simp add: lists_ok_def heads_ex ring_def ex_sleep_lists_def ex_sleep_def bss_def)

lemma ex_sleep_levels:
  "\<forall>p. ProcNode p \<in> set (ex_sleep_lists SleepHead) \<and> ptype (procs ex_sleep p) = MLFQ
       \<longrightarrow> privlevel (procs ex_sleep p) < QSIZE cfg_ex"
  by (simp add: ex_sleep_lists_def ex_sleep_def bss_def proc0_def cfg_ex_def)

lemma ex_run_ok: "lists_ok cfg_ex ex_run ex_run_lists"
  by (simp add: lists_ok_def heads_ex ring_def ex_run_lists_def ex_run_def bss_def)

lemma ex_run_sleepers: "sleepers_ok cfg_ex ex_run ex_run_lists"
  by (simp add: sleepers_ok_def ex_run_lists_def ex_run_def bss_def proc0_def cfg_ex_def)

lemma sum_less_4: "(\<Sum>i<(4::nat). f i) = f 0 + f 1 + f 2 + (f 3 :: int)"
  by (simp add: lessThan_nat_numeral lessThan_Suc numeral_3_eq_3 numeral_2_eq_2)

lemma ex_run_conserved: "tickets_conserved cfg_ex ex_run"
  by (simp add: tickets_conserved_def cfg_ex_def sum_less_4 stride_tickets_def active_def
      ex_run_def bss_def proc0_def)

section \<open>Waking sleepers: wakeup1 and kill\<close>

lemma lists_ok_member:
  assumes "lists_ok cfg s L" "h \<in> set (heads cfg)" "n \<in> set (L h)"
  shows "\<exists>p. n = ProcNode p"
proof -
  have "list_entry n \<noteq> None" using assms unfolding lists_ok_def by blast
  then show ?thesis by (cases n) simp_all
qed

lemma lists_ok_unique:
  "lists_ok cfg s L \<Longrightarrow> h1 \<in> set (heads cfg) \<Longrightarrow> h2 \<in> set (heads cfg) \<Longrightarrow>
   n \<in> set (L h1) \<Longrightarrow> n \<in> set (L h2) \<Longrightarrow> h1 = h2"
  unfolding lists_ok_def by blast

lemma lists_ok_distinct: "lists_ok cfg s L \<Longrightarrow> h \<in> set (heads cfg) \<Longrightarrow> distinct (L h)"
  unfolding lists_ok_def ring_def by auto

lemma ring_neighbours:
  assumes "ring s h xs" "e \<in> set xs"
  shows "lnext s e \<in> set (h # xs)" "lprev s e \<in> set (h # xs)"
proof -
  obtain ys zs where sp: "xs = ys @ e # zs" using assms(2) by (meson split_list)
  have "lnext s e = hd (zs @ [h])" using ring_next_elem assms(1) sp by blast
  moreover have "hd (zs @ [h]) \<in> set (h # zs)" by (cases zs) auto
  ultimately show "lnext s e \<in> set (h # xs)" using sp by auto
  have "lprev s e = last (h # ys)" using ring_prev_elem assms(1) sp by blast
  moreover have "last (h # ys) \<in> set (h # ys)" by (rule last_in_set) simp
  ultimately show "lprev s e \<in> set (h # xs)" using sp by auto
qed

lemma lists_ok_node_kind:
  assumes "lists_ok cfg s L" "h \<in> set (heads cfg)" "n \<in> set (h # L h)"
  shows "list_entry n \<noteq> None \<or> n \<in> set (heads cfg)"
  using assms unfolding lists_ok_def by auto

lemma wake_one_lists_ok:
  assumes "lists_ok cfg s L" "ProcNode p \<in> set (L SleepHead)"
    "ptype (procs s p) = MLFQ \<longrightarrow> privlevel (procs s p) < QSIZE cfg"
  shows "lists_ok cfg (wake_one p s) (wake_one_lists (procs s) p L)"
proof -
  let ?L1 = "L(SleepHead := remove1 (ProcNode p) (L SleepHead))"
  let ?s1 = "list_del (ProcNode p) s"
  let ?s2 = "upd_proc p (\<lambda>x. x\<lparr>state := RUNNABLE\<rparr>) ?s1"
  have 1: "lists_ok cfg ?s1 ?L1" by (rule lists_ok_del[OF assms(1) special_heads(2) assms(2)])
  have 2: "lists_ok cfg ?s2 ?L1" by (rule lists_ok_links[OF 1]) simp_all
  have fresh: "\<forall>h\<in>set (heads cfg). ProcNode p \<notin> set (?L1 h)"
  proof
    fix h assume h: "h \<in> set (heads cfg)"
    show "ProcNode p \<notin> set (?L1 h)"
    proof (cases "h = SleepHead")
      case True
      then show ?thesis using lists_ok_distinct[OF assms(1) special_heads(2)] by simp
    next
      case False
      then show ?thesis using lists_ok_unique[OF assms(1) h special_heads(2) _ assms(2)] by auto
    qed
  qed
  show ?thesis
  proof (cases "ptype (procs s p) = MLFQ")
    case True
    then have lv: "privlevel (procs s p) < QSIZE cfg" using assms(3) by simp
    have w: "wake_one p s = enqueue (privlevel (procs s p)) p ?s2"
      using True by (simp add: wake_one_def Let_def)
    have eq: "wake_one_lists (procs s) p L =
          ?L1(QueueHead (privlevel (procs s p)) := ?L1 (QueueHead (privlevel (procs s p))) @ [ProcNode p])"
      using True by (simp add: wake_one_lists_def Let_def)
    show ?thesis unfolding w eq by (rule enqueue_lists[OF 2 lv fresh])
  next
    case False
    then have w: "wake_one p s = ?s2" by (simp add: wake_one_def Let_def)
    have eq: "wake_one_lists (procs s) p L = ?L1"
      using False by (simp add: wake_one_lists_def Let_def)
    show ?thesis unfolding w eq by (rule 2)
  qed
qed

lemma wake_one_fields:
  "procs (wake_one p s) = (procs s)(p := (procs s p)\<lparr>state := RUNNABLE\<rparr>)"
  "wake_one p s = s\<lparr>procs := procs (wake_one p s), lnext := lnext (wake_one p s), lprev := lprev (wake_one p s)\<rparr>"
  by (simp_all add: wake_one_def Let_def list_del_def upd_proc_def enqueue_def list_add_tail_def
      list_add_between_def)

lemma wake_one_outside:
  assumes "lists_ok cfg s L" "ProcNode p \<in> set (L SleepHead)"
    "ptype (procs s p) = MLFQ \<longrightarrow> privlevel (procs s p) < QSIZE cfg"
  shows "outside_same cfg s (wake_one p s)"
  unfolding outside_same_def
proof (intro allI impI)
  fix n assume n: "list_entry n = None \<and> n \<notin> set (heads cfg)"
  let ?L1 = "L(SleepHead := remove1 (ProcNode p) (L SleepHead))"
  let ?s1 = "list_del (ProcNode p) s"
  let ?s2 = "upd_proc p (\<lambda>x. x\<lparr>state := RUNNABLE\<rparr>) ?s1"
  have out: "\<And>h m. h \<in> set (heads cfg) \<Longrightarrow> m \<in> set (h # L h) \<Longrightarrow> n \<noteq> m"
    using lists_ok_node_kind[OF assms(1)] n by blast
  have rs: "ring s SleepHead (L SleepHead)" by (rule lists_ok_ring[OF assms(1) special_heads(2)])
  have "n \<noteq> lnext s (ProcNode p)" "n \<noteq> lprev s (ProcNode p)"
    using ring_neighbours[OF rs assms(2)] out[OF special_heads(2)] by blast+
  then have a: "lnext ?s2 n = lnext s n \<and> lprev ?s2 n = lprev s n"
    by (simp add: list_del_def Let_def)
  show "lnext (wake_one p s) n = lnext s n \<and> lprev (wake_one p s) n = lprev s n"
  proof (cases "ptype (procs s p) = MLFQ")
    case False
    then show ?thesis using a by (simp add: wake_one_def Let_def)
  next
    case True
    let ?q = "QueueHead (privlevel (procs s p))"
    have qh: "?q \<in> set (heads cfg)" using True assms(3) queue_head_in_heads by simp
    have 1: "lists_ok cfg ?s1 ?L1" by (rule lists_ok_del[OF assms(1) special_heads(2) assms(2)])
    have 2: "lists_ok cfg ?s2 ?L1" by (rule lists_ok_links[OF 1]) simp_all
    have "lprev ?s2 ?q = last (?q # ?L1 ?q)" using ring_prev_head[OF lists_ok_ring[OF 2 qh]] .
    moreover have "last (?q # ?L1 ?q) \<in> set (?q # ?L1 ?q)" by (rule last_in_set) simp
    moreover have "set (?q # ?L1 ?q) \<subseteq> set (?q # L ?q)" by auto
    ultimately have "n \<noteq> lprev ?s2 ?q" using out[OF qh] by blast
    moreover have "n \<noteq> ?q" "n \<noteq> ProcNode p" using n qh by auto
    ultimately have "lnext (enqueue (privlevel (procs s p)) p ?s2) n = lnext ?s2 n \<and>
                     lprev (enqueue (privlevel (procs s p)) p ?s2) n = lprev ?s2 n"
      by (simp add: enqueue_def list_add_tail_def list_add_between_def)
    then show ?thesis using a True by (simp add: wake_one_def Let_def)
  qed
qed

lemma wakeup1_loop_step:
  "wakeup1_loop c (ProcNode p) s =
     (if chan (procs s p) = c
      then wakeup1_loop c (lnext (wake_one p s) (lprev s (ProcNode p))) (wake_one p s)
      else wakeup1_loop c (lnext s (ProcNode p)) s)"
  by (subst wakeup1_loop.simps) (simp add: wake_one_def Let_def)

lemma wakeup1_loop_stop: "wakeup1_loop c SleepHead s = Some s"
  by (subst wakeup1_loop.simps) simp

lemma ring_next_of_last:
  assumes "ring s h (ys @ zs)"
  shows "lnext s (last (h # ys)) = hd (zs @ [h])"
proof (cases ys rule: rev_cases)
  case Nil
  then show ?thesis using ring_next_head[OF assms] by simp
next
  case (snoc ys' y)
  then have "ring s h (ys' @ y # zs)" using assms by simp
  then show ?thesis using ring_next_elem snoc by fastforce
qed

lemma outside_same_refl: "outside_same cfg s s"
  by (simp add: outside_same_def)

lemma outside_same_trans: "outside_same cfg s t \<Longrightarrow> outside_same cfg t u \<Longrightarrow> outside_same cfg s u"
  by (simp add: outside_same_def)

lemma wake_lists_nil: "L SleepHead = dn \<Longrightarrow> wake_lists c P L dn [] = L"
  by (auto simp: wake_lists_def fun_eq_iff split: lnode.splits)

lemma wakeup1_loop_correct:
  assumes "lists_ok cfg s L" "L SleepHead = dn @ todo"
    "\<forall>p. ProcNode p \<in> set todo \<and> chan (procs s p) = c \<and> ptype (procs s p) = MLFQ
         \<longrightarrow> privlevel (procs s p) < QSIZE cfg"
  shows "\<exists>s'. wakeup1_loop c (hd (todo @ [SleepHead])) s = Some s' \<and>
              lists_ok cfg s' (wake_lists c (procs s) L dn todo) \<and>
              procs s' = wake_procs c todo (procs s) \<and>
              s' = s\<lparr>procs := procs s', lnext := lnext s', lprev := lprev s'\<rparr> \<and>
              outside_same cfg s s'"
  using assms
proof (induction todo arbitrary: s L dn)
  case Nil
  have "wake_procs c [] (procs s) = procs s" by (simp add: wake_procs_def)
  then show ?case using Nil by (simp add: wakeup1_loop_stop wake_lists_nil outside_same_refl)
next
  case (Cons n todo)
  have nin: "n \<in> set (L SleepHead)" using Cons.prems(2) by simp
  then obtain p where p: "n = ProcNode p"
    using lists_ok_member[OF Cons.prems(1) special_heads(2)] by blast
  have rs: "ring s SleepHead (dn @ ProcNode p # todo)"
    using lists_ok_ring[OF Cons.prems(1) special_heads(2)] Cons.prems(2) p by simp
  then have d: "distinct (dn @ ProcNode p # todo)" by (simp add: ring_def)
  have hd_eq: "hd ((n # todo) @ [SleepHead]) = ProcNode p" using p by simp
  show ?case
  proof (cases "chan (procs s p) = c")
    case False
    have nx: "lnext s (ProcNode p) = hd (todo @ [SleepHead])" using ring_next_elem[OF rs] .
    have st: "wakeup1_loop c (ProcNode p) s = wakeup1_loop c (hd (todo @ [SleepHead])) s"
      using False nx by (simp add: wakeup1_loop_step)
    have pre: "L SleepHead = (dn @ [ProcNode p]) @ todo" using Cons.prems(2) p by simp
    have pl: "\<forall>q. ProcNode q \<in> set todo \<and> chan (procs s q) = c \<and> ptype (procs s q) = MLFQ
         \<longrightarrow> privlevel (procs s q) < QSIZE cfg" using Cons.prems(3) by simp
    from Cons.IH[OF Cons.prems(1) pre pl] obtain s' where
      r: "wakeup1_loop c (hd (todo @ [SleepHead])) s = Some s'"
         "lists_ok cfg s' (wake_lists c (procs s) L (dn @ [ProcNode p]) todo)"
         "procs s' = wake_procs c todo (procs s)"
         "s' = s\<lparr>procs := procs s', lnext := lnext s', lprev := lprev s'\<rparr>"
         "outside_same cfg s s'"
      by blast
    have wl: "wake_lists c (procs s) L (dn @ [ProcNode p]) todo = wake_lists c (procs s) L dn (n # todo)"
      using False p by (auto simp: wake_lists_def woken_def woken_to_def fun_eq_iff split: lnode.splits)
    have wp: "wake_procs c todo (procs s) = wake_procs c (n # todo) (procs s)"
      using False p by (auto simp: wake_procs_def fun_eq_iff)
    show ?thesis unfolding hd_eq st using r unfolding wl wp by blast
  next
    case True
    let ?s3 = "wake_one p s"
    let ?L3 = "wake_one_lists (procs s) p L"
    have lvl: "ptype (procs s p) = MLFQ \<longrightarrow> privlevel (procs s p) < QSIZE cfg"
      using Cons.prems(3) True p by simp
    have ok3: "lists_ok cfg ?s3 ?L3"
      using wake_one_lists_ok[OF Cons.prems(1) _ lvl] nin p by simp
    have out3: "outside_same cfg s ?s3"
      using wake_one_outside[OF Cons.prems(1) _ lvl] nin p by simp
    have rm: "remove1 (ProcNode p) (L SleepHead) = dn @ todo"
      using d Cons.prems(2) p by (simp add: remove1_append)
    have sl3: "?L3 SleepHead = dn @ todo"
      using rm by (simp add: wake_one_lists_def Let_def)
    have pv: "lprev s (ProcNode p) = last (SleepHead # dn)" using ring_prev_elem[OF rs] .
    have r3: "ring ?s3 SleepHead (dn @ todo)"
      using lists_ok_ring[OF ok3 special_heads(2)] sl3 by simp
    have nx: "lnext ?s3 (lprev s (ProcNode p)) = hd (todo @ [SleepHead])"
      unfolding pv by (rule ring_next_of_last[OF r3])
    have st: "wakeup1_loop c (ProcNode p) s = wakeup1_loop c (hd (todo @ [SleepHead])) ?s3"
      using True nx by (simp add: wakeup1_loop_step)
    have pr3: "procs ?s3 = (procs s)(p := (procs s p)\<lparr>state := RUNNABLE\<rparr>)"
      by (rule wake_one_fields(1))
    have pl: "\<forall>q. ProcNode q \<in> set todo \<and> chan (procs ?s3 q) = c \<and> ptype (procs ?s3 q) = MLFQ
         \<longrightarrow> privlevel (procs ?s3 q) < QSIZE cfg" using Cons.prems(3) by (simp add: pr3)
    from Cons.IH[OF ok3 sl3 pl] obtain s' where
      r: "wakeup1_loop c (hd (todo @ [SleepHead])) ?s3 = Some s'"
         "lists_ok cfg s' (wake_lists c (procs ?s3) ?L3 dn todo)"
         "procs s' = wake_procs c todo (procs ?s3)"
         "s' = ?s3\<lparr>procs := procs s', lnext := lnext s', lprev := lprev s'\<rparr>"
         "outside_same cfg ?s3 s'"
      by blast
    have pnt: "ProcNode p \<notin> set todo" using d by simp
    have wk: "woken c (procs ?s3) = woken c (procs s)" "woken_to c (procs ?s3) = woken_to c (procs s)"
      by (auto simp: woken_def woken_to_def pr3 fun_eq_iff split: option.splits)
    have wl: "wake_lists c (procs ?s3) ?L3 dn todo = wake_lists c (procs s) L dn (n # todo)"
      unfolding wake_lists_def wk
      using True p by (auto simp: wake_one_lists_def woken_def woken_to_def fun_eq_iff Let_def
          split: lnode.splits)
    have wp: "wake_procs c todo (procs ?s3) = wake_procs c (n # todo) (procs s)"
      using True p pnt by (auto simp: wake_procs_def pr3 fun_eq_iff)
    have rec: "s' = s\<lparr>procs := procs s', lnext := lnext s', lprev := lprev s'\<rparr>"
      by (subst r(4), subst wake_one_fields(2)) simp
    show ?thesis unfolding hd_eq st using r(1,2,3) rec outside_same_trans[OF out3 r(5)]
      unfolding wl wp by blast
  qed
qed

lemma wakeup1_correct:
  assumes "lists_ok cfg s L"
    "\<forall>p. ProcNode p \<in> set (L SleepHead) \<and> chan (procs s p) = c \<and> ptype (procs s p) = MLFQ
         \<longrightarrow> privlevel (procs s p) < QSIZE cfg"
  shows "\<exists>s'. wakeup1 c s = Some s' \<and>
              lists_ok cfg s' (wake_lists c (procs s) L [] (L SleepHead)) \<and>
              procs s' = wake_procs c (L SleepHead) (procs s) \<and>
              s' = s\<lparr>procs := procs s', lnext := lnext s', lprev := lprev s'\<rparr> \<and>
              outside_same cfg s s'"
proof -
  have "lnext s SleepHead = hd (L SleepHead @ [SleepHead])"
    by (rule ring_next_head[OF lists_ok_ring[OF assms(1) special_heads(2)]])
  then show ?thesis
    unfolding wakeup1_def using wakeup1_loop_correct[OF assms(1) _ assms(2), of "[]"] by simp
qed

lemma kill_scan_eq:
  "kill_scan k is s =
     (case find (\<lambda>i. pid (procs s i) = k) is of
        None \<Rightarrow> (- 1, s)
      | Some i \<Rightarrow>
          (0, if state (procs s i) = SLEEPING
              then wake_one i (upd_proc i (\<lambda>x. x\<lparr>killed := 1\<rparr>) s)
              else upd_proc i (\<lambda>x. x\<lparr>killed := 1\<rparr>) s))"
  by (induction "is") (simp_all add: wake_one_def Let_def)

lemma wake_lists_sleep:
  "ProcNode p \<in> set todo \<Longrightarrow> chan (P p) = c \<Longrightarrow> ProcNode p \<notin> set dn \<Longrightarrow>
   ProcNode p \<notin> set (wake_lists c P L dn todo SleepHead)"
  by (simp add: wake_lists_def woken_def)

lemma wake_lists_queue:
  "ProcNode p \<in> set todo \<Longrightarrow> chan (P p) = c \<Longrightarrow> ptype (P p) = MLFQ \<Longrightarrow>
   ProcNode p \<in> set (wake_lists c P L dn todo (QueueHead (privlevel (P p))))"
  by (simp add: wake_lists_def woken_to_def)

lemma wake_lists_stride:
  assumes "lists_ok cfg s L" "ProcNode p \<in> set (L SleepHead)" "ptype (P p) = STRIDE"
    "chan (P p) = c" "h \<in> set (heads cfg)"
  shows "ProcNode p \<notin> set (wake_lists c P L [] (L SleepHead) h)"
proof (cases "h = SleepHead")
  case True
  then show ?thesis using assms(2,4) by (simp add: wake_lists_def woken_def)
next
  case False
  have "ProcNode p \<notin> set (L h)"
    using lists_ok_unique[OF assms(1) assms(5) special_heads(2) _ assms(2)] False by blast
  then show ?thesis using False assms(3) by (cases h) (simp_all add: wake_lists_def woken_to_def)
qed

section \<open>exit returns on well-formed lists\<close>

lemma tickets_frame_refl: "tickets_frame s s"
  by (simp add: tickets_frame_def)

lemma tickets_frame_trans: "tickets_frame s t \<Longrightarrow> tickets_frame t u \<Longrightarrow> tickets_frame s u"
  by (simp add: tickets_frame_def)

lemma wakeup1_total:
  assumes "lists_ok cfg s L" "sleepers_ok cfg s L"
  shows "\<exists>s' L'. wakeup1 c s = Some s' \<and> lists_ok cfg s' L' \<and> sleepers_ok cfg s' L' \<and>
                 tickets_frame s s' \<and> outside_same cfg s s'"
proof -
  have lv: "\<forall>p. ProcNode p \<in> set (L SleepHead) \<and> chan (procs s p) = c \<and> ptype (procs s p) = MLFQ
         \<longrightarrow> privlevel (procs s p) < QSIZE cfg" using assms(2) unfolding sleepers_ok_def by blast
  let ?L' = "wake_lists c (procs s) L [] (L SleepHead)"
  from wakeup1_correct[OF assms(1) lv] obtain s' where
    r: "wakeup1 c s = Some s'" "lists_ok cfg s' ?L'"
       "procs s' = wake_procs c (L SleepHead) (procs s)"
       "s' = s\<lparr>procs := procs s', lnext := lnext s', lprev := lprev s'\<rparr>"
       "outside_same cfg s s'"
    by blast
  have sl: "ProcNode p \<in> set (L SleepHead) \<and> chan (procs s p) \<noteq> c" if "ProcNode p \<in> set (?L' SleepHead)" for p
    using that by (auto simp: wake_lists_def woken_def)
  have f1: "mlfq_tickets s' = mlfq_tickets s" "initproc s' = initproc s" by (subst r(4), simp)+
  have f2: "ptype (procs s' i) = ptype (procs s i) \<and> tickets (procs s' i) = tickets (procs s i) \<and>
            privlevel (procs s' i) = privlevel (procs s i)" for i
    by (simp add: r(3) wake_procs_def)
  have f3: "active (state (procs s' i)) = active (state (procs s i))" for i
    using assms(2) by (auto simp: r(3) wake_procs_def active_def sleepers_ok_def)
  have f4: "state (procs s' p) = state (procs s p)" if "ProcNode p \<in> set (?L' SleepHead)" for p
    using sl[OF that] by (simp add: r(3) wake_procs_def)
  have so: "sleepers_ok cfg s' ?L'"
    unfolding sleepers_ok_def
  proof (intro allI impI)
    fix p assume p: "ProcNode p \<in> set (?L' SleepHead)"
    then have "ProcNode p \<in> set (L SleepHead)" using sl by blast
    then show "state (procs s' p) = SLEEPING \<and>
               (ptype (procs s' p) = MLFQ \<longrightarrow> privlevel (procs s' p) < QSIZE cfg)"
      using assms(2) f2[of p] f4[OF p] unfolding sleepers_ok_def by simp
  qed
  have "tickets_frame s s'" using f1 f2 f3 by (simp add: tickets_frame_def)
  then show ?thesis using r(1,2,5) so by blast
qed

lemma exit_children_step:
  "exit_children_loop cur (SiblingNode c) s =
     (let s1 = upd_proc c (\<lambda>x. x\<lparr>parent := initproc s\<rparr>) s
      in if state (procs s1 c) = ZOMBIE
         then (case wakeup1 (proc_chan (initproc s1)) s1 of
                 None \<Rightarrow> None
               | Some s2 \<Rightarrow> exit_children_loop cur (lnext s2 (SiblingNode c)) s2)
         else exit_children_loop cur (lnext s1 (SiblingNode c)) s1)"
  by (subst exit_children_loop.simps) simp

lemma exit_children_stop: "exit_children_loop cur (ChildrenHead cur) s = Some s"
  by (subst exit_children_loop.simps) simp

lemma outside_ring:
  assumes "ring s h xs" "outside_same cfg s s'"
    "\<forall>n\<in>set (h # xs). list_entry n = None \<and> n \<notin> set (heads cfg)"
  shows "ring s' h xs"
  by (rule ring_frame[OF assms(1)]) (use assms(2,3) in \<open>auto simp: outside_same_def\<close>)

lemma upd_proc_outside: "outside_same cfg s (upd_proc i f s)"
  by (simp add: outside_same_def)

lemma children_nodes_outside:
  assumes "\<forall>n\<in>set cs. \<exists>c. n = SiblingNode c"
  shows "\<forall>n\<in>set (ChildrenHead cur # cs). list_entry n = None \<and> n \<notin> set (heads cfg)"
  using assms by (auto simp: heads_def)

lemma exit_children_loop_correct:
  assumes "lists_ok cfg s L" "sleepers_ok cfg s L"
    "ring s (ChildrenHead cur) (dn @ todo)" "\<forall>n\<in>set (dn @ todo). \<exists>c. n = SiblingNode c"
  shows "\<exists>s' L'. exit_children_loop cur (hd (todo @ [ChildrenHead cur])) s = Some s' \<and>
                 lists_ok cfg s' L' \<and> sleepers_ok cfg s' L' \<and> tickets_frame s s' \<and>
                 outside_same cfg s s'"
  using assms
proof (induction todo arbitrary: s L dn)
  case Nil
  then show ?case
    using exit_children_stop tickets_frame_refl outside_same_refl by (metis append_Nil list.sel(1))
next
  case (Cons n todo)
  then obtain c where c: "n = SiblingNode c" by auto
  let ?s1 = "upd_proc c (\<lambda>x. x\<lparr>parent := initproc s\<rparr>) s"
  have ok1: "lists_ok cfg ?s1 L" by (rule lists_ok_links[OF Cons.prems(1)]) simp_all
  have so1: "sleepers_ok cfg ?s1 L" using Cons.prems(2) by (simp add: sleepers_ok_def)
  have tf1: "tickets_frame s ?s1" by (simp add: tickets_frame_def)
  have nodes: "\<forall>n\<in>set (ChildrenHead cur # dn @ n # todo). list_entry n = None \<and> n \<notin> set (heads cfg)"
    by (rule children_nodes_outside) (use Cons.prems(4) in simp)
  have r1: "ring ?s1 (ChildrenHead cur) (dn @ n # todo)"
    by (rule outside_ring[OF Cons.prems(3) upd_proc_outside nodes])
  have pre: "dn @ n # todo = (dn @ [n]) @ todo" by simp
  show ?case
  proof (cases "state (procs ?s1 c) = ZOMBIE")
    case False
    have nx: "lnext ?s1 (SiblingNode c) = hd (todo @ [ChildrenHead cur])"
      using ring_next_elem[OF r1[unfolded c]] .
    have st: "exit_children_loop cur (SiblingNode c) s =
              exit_children_loop cur (hd (todo @ [ChildrenHead cur])) ?s1"
      using False nx by (simp add: exit_children_step Let_def)
    from Cons.IH[OF ok1 so1 r1[unfolded pre]] Cons.prems(4) obtain s' L' where
      r: "exit_children_loop cur (hd (todo @ [ChildrenHead cur])) ?s1 = Some s'"
         "lists_ok cfg s' L'" "sleepers_ok cfg s' L'" "tickets_frame ?s1 s'" "outside_same cfg ?s1 s'"
      by auto
    show ?thesis
      using r(1,2,3) tickets_frame_trans[OF tf1 r(4)] outside_same_trans[OF upd_proc_outside r(5)] st c
      by auto
  next
    case True
    from wakeup1_total[OF ok1 so1, of "proc_chan (initproc ?s1)"] obtain s2 L2 where
      w: "wakeup1 (proc_chan (initproc ?s1)) ?s1 = Some s2" "lists_ok cfg s2 L2"
         "sleepers_ok cfg s2 L2" "tickets_frame ?s1 s2" "outside_same cfg ?s1 s2"
      by blast
    have r2: "ring s2 (ChildrenHead cur) (dn @ n # todo)"
      by (rule outside_ring[OF r1 w(5) nodes])
    have nx: "lnext s2 (SiblingNode c) = hd (todo @ [ChildrenHead cur])"
      using ring_next_elem[OF r2[unfolded c]] .
    have st: "exit_children_loop cur (SiblingNode c) s =
              exit_children_loop cur (hd (todo @ [ChildrenHead cur])) s2"
      using True nx w(1) by (simp add: exit_children_step Let_def)
    from Cons.IH[OF w(2,3) r2[unfolded pre]] Cons.prems(4) obtain s' L' where
      r: "exit_children_loop cur (hd (todo @ [ChildrenHead cur])) s2 = Some s'"
         "lists_ok cfg s' L'" "sleepers_ok cfg s' L'" "tickets_frame s2 s'" "outside_same cfg s2 s'"
      by auto
    show ?thesis
      using r(1,2,3) tickets_frame_trans[OF tf1 tickets_frame_trans[OF w(4) r(4)]]
        outside_same_trans[OF upd_proc_outside outside_same_trans[OF w(5) r(5)]] st c
      by auto
  qed
qed

lemma exit_correct:
  assumes "lists_ok cfg s L" "sleepers_ok cfg s L"
    "ring s (ChildrenHead cur) cs" "\<forall>n\<in>set cs. \<exists>c. n = SiblingNode c"
    "initproc s = Some ini" "ini \<noteq> cur"
  shows "\<exists>s'. exit cur s = Some s' \<and>
              mlfq_tickets s' = mlfq_tickets s +
                 (if ptype (procs s cur) = STRIDE then tickets (procs s cur) else 0) \<and>
              state (procs s' cur) = ZOMBIE \<and>
              (\<forall>i. ptype (procs s' i) = ptype (procs s i) \<and>
                   tickets (procs s' i) = tickets (procs s i) \<and>
                   (i \<noteq> cur \<longrightarrow> active (state (procs s' i)) = active (state (procs s i))))"
proof -
  from wakeup1_total[OF assms(1,2), of "proc_chan (parent (procs s cur))"] obtain s1 L1 where
    w: "wakeup1 (proc_chan (parent (procs s cur))) s = Some s1" "lists_ok cfg s1 L1"
       "sleepers_ok cfg s1 L1" "tickets_frame s s1" "outside_same cfg s s1"
    by blast
  have nodes: "\<forall>n\<in>set (ChildrenHead cur # cs). list_entry n = None \<and> n \<notin> set (heads cfg)"
    by (rule children_nodes_outside[OF assms(4)])
  have r1: "ring s1 (ChildrenHead cur) ([] @ cs)"
    using outside_ring[OF assms(3) w(5) nodes] by simp
  have nx: "lnext s1 (ChildrenHead cur) = hd (cs @ [ChildrenHead cur])"
    using ring_next_head[OF r1] by simp
  from exit_children_loop_correct[OF w(2,3) r1] assms(4) obtain s2 L2 where
    e: "exit_children_loop cur (hd (cs @ [ChildrenHead cur])) s1 = Some s2"
       "tickets_frame s1 s2"
    by auto
  have tf: "tickets_frame s s2" by (rule tickets_frame_trans[OF w(4) e(2)])
  define s3 where "s3 = list_bulk_move_tail (ChildrenHead cur) (ChildrenHead ini) s2"
  define s4 where "s4 = (if ptype (procs s3 cur) = MLFQ then dequeue cur s3
                      else list_del (ProcNode cur)
                             (s3\<lparr>mlfq_tickets := mlfq_tickets s3 + tickets (procs s3 cur)\<rparr>))"
  have ex: "exit cur s = Some (upd_proc cur (\<lambda>x. x\<lparr>state := ZOMBIE\<rparr>) s4)"
    using assms(5,6) w(1) e(1) nx unfolding exit_def s4_def s3_def by (simp add: Let_def)
  have p3: "procs s3 = procs s2" "mlfq_tickets s3 = mlfq_tickets s2" by (simp_all add: s3_def)
  have p4: "procs s4 = procs s2" unfolding s4_def by (simp add: p3)
  have m4: "mlfq_tickets s4 = mlfq_tickets s2 +
                 (if ptype (procs s2 cur) = STRIDE then tickets (procs s2 cur) else 0)"
    unfolding s4_def by (cases "ptype (procs s2 cur)") (simp_all add: p3)
  show ?thesis
    using ex p4 m4 tf by (auto simp: tickets_frame_def)
qed

section \<open>Ticket accounting\<close>

lemma set_cpu_share_fail_iff:
  "fst (set_cpu_share cfg cur share s) = - 1 \<longleftrightarrow>
     share < 1 \<or> share > 100 - RESERVE cfg \<or>
     mlfq_tickets s + (if ptype (procs s cur) = STRIDE then tickets (procs s cur) else 0) - share
       < RESERVE cfg"
  by (auto simp: set_cpu_share_def Let_def)

lemma set_cpu_share_fail_same:
  "fst (set_cpu_share cfg cur share s) = - 1 \<Longrightarrow> snd (set_cpu_share cfg cur share s) = s"
  by (auto simp: set_cpu_share_def Let_def split: if_splits)

lemma set_cpu_share_ok:
  "fst (set_cpu_share cfg cur share s) \<noteq> - 1 \<Longrightarrow>
     fst (set_cpu_share cfg cur share s) = 0 \<and>
     mlfq_tickets (snd (set_cpu_share cfg cur share s)) =
       mlfq_tickets s + (if ptype (procs s cur) = STRIDE then tickets (procs s cur) else 0) - share \<and>
     procs (snd (set_cpu_share cfg cur share s)) cur =
       (procs s cur)\<lparr>pass := pass (procs (snd (set_cpu_share cfg cur share s)) cur), ptype := STRIDE, tickets := share\<rparr> \<and>
     (\<forall>i. i \<noteq> cur \<longrightarrow> procs (snd (set_cpu_share cfg cur share s)) i = procs s i)"
  by (cases "ptype (procs s cur)") (auto simp: set_cpu_share_def Let_def split: if_splits)

lemma sum_upd:
  fixes f :: "nat \<Rightarrow> int"
  assumes "k < n" "\<forall>i. i \<noteq> k \<longrightarrow> g i = f i"
  shows "(\<Sum>i<n. g i) = (\<Sum>i<n. f i) - f k + g k"
proof -
  have "(\<Sum>i<n. g i) = g k + (\<Sum>i\<in>{..<n} - {k}. g i)"
    using assms(1) by (simp add: sum.remove)
  moreover have "(\<Sum>i<n. f i) = f k + (\<Sum>i\<in>{..<n} - {k}. f i)"
    using assms(1) by (simp add: sum.remove)
  moreover have "(\<Sum>i\<in>{..<n} - {k}. g i) = (\<Sum>i\<in>{..<n} - {k}. f i)"
    by (rule sum.cong) (use assms(2) in auto)
  ultimately show ?thesis by simp
qed

lemma set_cpu_share_conserved:
  assumes "tickets_conserved cfg s" "cur < NPROC cfg" "active (state (procs s cur))"
  shows "tickets_conserved cfg (snd (set_cpu_share cfg cur share s))"
proof (cases "fst (set_cpu_share cfg cur share s) = - 1")
  case True
  then show ?thesis using assms(1) by (simp add: set_cpu_share_fail_same)
next
  case False
  let ?s' = "snd (set_cpu_share cfg cur share s)"
  from set_cpu_share_ok[OF False] have
    m: "mlfq_tickets ?s' = mlfq_tickets s + (if ptype (procs s cur) = STRIDE then tickets (procs s cur) else 0) - share"
    and c: "procs ?s' cur = (procs s cur)\<lparr>pass := pass (procs ?s' cur), ptype := STRIDE, tickets := share\<rparr>"
    and o: "\<forall>i. i \<noteq> cur \<longrightarrow> procs ?s' i = procs s i"
    by blast+
  have "stride_tickets (procs ?s' cur) = share"
    using assms(3) by (subst c) (simp add: stride_tickets_def)
  moreover have "stride_tickets (procs s cur) = (if ptype (procs s cur) = STRIDE then tickets (procs s cur) else 0)"
    using assms(3) by (simp add: stride_tickets_def)
  moreover have "(\<Sum>i<NPROC cfg. stride_tickets (procs ?s' i)) =
        (\<Sum>i<NPROC cfg. stride_tickets (procs s i)) - stride_tickets (procs s cur) + stride_tickets (procs ?s' cur)"
    by (rule sum_upd[OF assms(2)]) (use o in auto)
  ultimately show ?thesis using assms(1) m unfolding tickets_conserved_def by simp
qed

lemma pinit_unfold:
  "pinit cfg s =
     (fold (\<lambda>i t. list_add_tail (ProcNode i) FreeHead t) [0..<NPROC cfg]
        (list_head_init FreeHead (list_head_init SleepHead (list_head_init RunHead
           (fold pinit_queue [0..<QSIZE cfg] s)))))\<lparr>mlfq_tickets := 100\<rparr>"
  unfolding pinit_def Let_def pinit_queue_def by (rule refl)

lemma pinit_procs: "procs (pinit cfg s) = procs s"
proof -
  have a: "procs (fold pinit_queue xs t) = procs t" for xs t
    by (induction xs arbitrary: t) (simp_all add: pinit_queue_def)
  have b: "procs (fold (\<lambda>i t. list_add_tail (ProcNode i) FreeHead t) xs t) = procs t" for xs t
    by (induction xs arbitrary: t) simp_all
  show ?thesis by (simp add: pinit_unfold a b)
qed

lemma pinit_conserved:
  assumes "\<forall>i<NPROC cfg. \<not> (ptype (procs s i) = STRIDE \<and> active (state (procs s i)))"
  shows "mlfq_tickets (pinit cfg s) = 100 \<and> tickets_conserved cfg (pinit cfg s)"
proof -
  have "mlfq_tickets (pinit cfg s) = 100" by (simp add: pinit_unfold)
  moreover have "(\<Sum>i<NPROC cfg. stride_tickets (procs (pinit cfg s) i)) = 0"
    unfolding pinit_procs by (rule sum.neutral) (use assms in \<open>auto simp: stride_tickets_def\<close>)
  ultimately show ?thesis by (simp add: tickets_conserved_def)
qed

lemma exit_conserved:
  assumes "tickets_conserved cfg s" "cur < NPROC cfg" "active (state (procs s cur))"
    "lists_ok cfg s L" "sleepers_ok cfg s L"
    "ring s (ChildrenHead cur) cs" "\<forall>n\<in>set cs. \<exists>c. n = SiblingNode c"
    "initproc s = Some ini" "ini \<noteq> cur"
  shows "\<exists>s'. exit cur s = Some s' \<and> tickets_conserved cfg s' \<and>
              mlfq_tickets s' = mlfq_tickets s +
                 (if ptype (procs s cur) = STRIDE then tickets (procs s cur) else 0)"
proof -
  from exit_correct[OF assms(4-9)] obtain s' where
    e: "exit cur s = Some s'"
       "mlfq_tickets s' = mlfq_tickets s +
          (if ptype (procs s cur) = STRIDE then tickets (procs s cur) else 0)"
       "state (procs s' cur) = ZOMBIE"
       "\<forall>i. ptype (procs s' i) = ptype (procs s i) \<and>
            tickets (procs s' i) = tickets (procs s i) \<and>
            (i \<noteq> cur \<longrightarrow> active (state (procs s' i)) = active (state (procs s i)))"
    by blast
  let ?f = "\<lambda>i. stride_tickets (procs s i)" and ?g = "\<lambda>i. stride_tickets (procs s' i)"
  have o: "\<forall>i. i \<noteq> cur \<longrightarrow> ?g i = ?f i" using e(4) by (simp add: stride_tickets_def)
  have gc: "?g cur = 0" using e(3) by (simp add: stride_tickets_def active_def)
  have fc: "?f cur = (if ptype (procs s cur) = STRIDE then tickets (procs s cur) else 0)"
    using assms(3) by (simp add: stride_tickets_def)
  have "(\<Sum>i<NPROC cfg. ?g i) = (\<Sum>i<NPROC cfg. ?f i) - ?f cur + ?g cur"
    by (rule sum_upd[OF assms(2) o])
  then have "tickets_conserved cfg s'"
    using assms(1) e(2) gc fc unfolding tickets_conserved_def by simp
  then show ?thesis using e(1,2) by blast
qed

section \<open>mlfqlogic: accounting and priority boost\<close>

lemma removed_fresh:
  assumes "lists_ok cfg s L" "h \<in> set (heads cfg)" "n \<in> set (L h)"
  shows "\<forall>h'\<in>set (heads cfg). n \<notin> set ((L(h := remove1 n (L h))) h')"
proof
  fix h' assume h': "h' \<in> set (heads cfg)"
  show "n \<notin> set ((L(h := remove1 n (L h))) h')"
  proof (cases "h' = h")
    case True
    then show ?thesis using lists_ok_distinct[OF assms(1,2)] by simp
  next
    case False
    then show ?thesis using lists_ok_unique[OF assms(1) h' assms(2) _ assms(3)] by auto
  qed
qed

lemma ptable_eq_sched:
  fixes a b :: ptable
  assumes "mlfq_ticks a = mlfq_ticks b" "mlfq_pass a = mlfq_pass b" "mlfq_tickets a = mlfq_tickets b"
    "stride_minheap a = stride_minheap b" "stride_size a = stride_size b" "initproc a = initproc b"
  shows "a = b\<lparr>procs := procs a, mlfq_pin := mlfq_pin a, lnext := lnext a, lprev := lprev a\<rparr>"
  by (rule ptable.equality) (simp_all add: assms)

lemma mlfq_account_runnable:
  assumes "lists_ok cfg s L" "state (procs s p) = RUNNABLE"
    "privlevel (procs s p) < QSIZE cfg"
    "ProcNode p \<in> set (L (QueueHead (privlevel (procs s p))))"
    "TA cfg (privlevel (procs s p)) \<noteq> 0" "TQ cfg (privlevel (procs s p)) \<noteq> 0"
  shows "\<exists>s2. mlfq_account cfg p s = Some s2 \<and>
           (if int (privlevel (procs s p)) < int (QSIZE cfg) - 1 \<and>
               TA cfg (privlevel (procs s p)) dvd ticks (procs s p) + 1
            then procs s2 = (procs s)(p := (procs s p)\<lparr>privlevel := privlevel (procs s p) + 1, ticks := 0\<rparr>) \<and>
                 lists_ok cfg s2
                   (L(QueueHead (privlevel (procs s p)) :=
                        remove1 (ProcNode p) (L (QueueHead (privlevel (procs s p)))),
                      QueueHead (privlevel (procs s p) + 1) :=
                        L (QueueHead (privlevel (procs s p) + 1)) @ [ProcNode p])) \<and>
                 mlfq_pin s2 =
                   (if mlfq_pin s (privlevel (procs s p)) = ProcNode p
                    then (mlfq_pin s)(privlevel (procs s p) := lnext s (ProcNode p))
                    else mlfq_pin s) \<and>
                 s2 = s\<lparr>procs := procs s2, mlfq_pin := mlfq_pin s2, lnext := lnext s2, lprev := lprev s2\<rparr>
            else if TQ cfg (privlevel (procs s p)) dvd ticks (procs s p) + 1
            then s2 = s\<lparr>procs := (procs s)(p := (procs s p)\<lparr>ticks := ticks (procs s p) + 1\<rparr>),
                         mlfq_pin := (mlfq_pin s)(privlevel (procs s p) := lnext s (ProcNode p))\<rparr>
            else s2 = s\<lparr>procs := (procs s)(p := (procs s p)\<lparr>ticks := ticks (procs s p) + 1\<rparr>)\<rparr>)"
proof -
  let ?lvl = "privlevel (procs s p)"
  let ?s1 = "upd_proc p (\<lambda>x. x\<lparr>ticks := ticks x + 1\<rparr>) s"
  have t1: "ticks (procs ?s1 p) = ticks (procs s p) + 1" "privlevel (procs ?s1 p) = ?lvl" by simp_all
  show ?thesis
  proof (cases "int ?lvl < int (QSIZE cfg) - 1 \<and> TA cfg ?lvl dvd ticks (procs s p) + 1")
    case True
    then have lv1: "?lvl + 1 < QSIZE cfg" by simp
    let ?h = "QueueHead ?lvl"
    let ?L1 = "L(?h := remove1 (ProcNode p) (L ?h))"
    let ?s2 = "dequeue p ?s1"
    let ?s3 = "upd_proc p (\<lambda>x. x\<lparr>privlevel := privlevel x + 1\<rparr>) ?s2"
    let ?s4 = "enqueue (privlevel (procs ?s3 p)) p ?s3"
    let ?s5 = "upd_proc p (\<lambda>x. x\<lparr>ticks := 0\<rparr>) ?s4"
    have acc: "mlfq_account cfg p s = Some ?s5"
      using True assms(2,5) by (simp add: mlfq_account_def Let_def cmod_eq_0_iff)
    have ok1: "lists_ok cfg ?s1 L" by (rule lists_ok_links[OF assms(1)]) simp_all
    have ok2: "lists_ok cfg ?s2 ?L1"
      using dequeue_lists[of cfg ?s1 L p] ok1 assms(3,4) by simp
    have ok3: "lists_ok cfg ?s3 ?L1" by (rule lists_ok_links[OF ok2]) simp_all
    have fr: "\<forall>h'\<in>set (heads cfg). ProcNode p \<notin> set (?L1 h')"
      by (rule removed_fresh[OF assms(1) queue_head_in_heads[OF assms(3)] assms(4)])
    have pl3: "privlevel (procs ?s3 p) = ?lvl + 1" by simp
    have ok4: "lists_ok cfg ?s4 (?L1(QueueHead (?lvl + 1) := ?L1 (QueueHead (?lvl + 1)) @ [ProcNode p]))"
      unfolding pl3 by (rule enqueue_lists[OF ok3 lv1 fr])
    have ok5: "lists_ok cfg ?s5 (?L1(QueueHead (?lvl + 1) := L (QueueHead (?lvl + 1)) @ [ProcNode p]))"
      by (rule lists_ok_links) (use ok4 in simp_all)
    have pr: "procs ?s5 = (procs s)(p := (procs s p)\<lparr>privlevel := ?lvl + 1, ticks := 0\<rparr>)"
      by (simp add: fun_eq_iff)
    have pin: "mlfq_pin ?s5 = (if mlfq_pin s ?lvl = ProcNode p
                    then (mlfq_pin s)(?lvl := lnext s (ProcNode p)) else mlfq_pin s)"
      by (simp add: dequeue_pin)
    have rec: "?s5 = s\<lparr>procs := procs ?s5, mlfq_pin := mlfq_pin ?s5, lnext := lnext ?s5, lprev := lprev ?s5\<rparr>"
      by (rule ptable_eq_sched) simp_all
    show ?thesis
      apply (rule exI[of _ ?s5])
      apply (rule conjI[OF acc])
      unfolding if_P[OF True]
      using ok5 pr pin rec by blast
  next
    case False
    show ?thesis
    proof (cases "TQ cfg ?lvl dvd ticks (procs s p) + 1")
      case tq: True
      have acc: "mlfq_account cfg p s =
            Some (?s1\<lparr>mlfq_pin := (mlfq_pin ?s1)(?lvl := lnext ?s1 (ProcNode p))\<rparr>)"
        using False tq assms(2,5,6) by (auto simp: mlfq_account_def Let_def cmod_eq_0_iff)
      show ?thesis
        apply (rule exI[of _ "?s1\<lparr>mlfq_pin := (mlfq_pin ?s1)(?lvl := lnext ?s1 (ProcNode p))\<rparr>"])
        apply (rule conjI[OF acc])
        unfolding if_not_P[OF False] if_P[OF tq]
        by (simp add: upd_proc_def)
    next
      case tq: False
      have acc: "mlfq_account cfg p s = Some ?s1"
        using False tq assms(2,5,6) by (auto simp: mlfq_account_def Let_def cmod_eq_0_iff)
      show ?thesis
        apply (rule exI[of _ ?s1])
        apply (rule conjI[OF acc])
        unfolding if_not_P[OF False] if_not_P[OF tq]
        by (simp add: upd_proc_def)
    qed
  qed
qed

lemma boost_reset_step:
  "boost_reset_loop q (ProcNode i) s =
     (if ProcNode i = q then Some s
      else boost_reset_loop q (lnext s (ProcNode i))
             (upd_proc i (\<lambda>x. x\<lparr>ticks := 0\<rparr>) (upd_proc i (\<lambda>x. x\<lparr>privlevel := 0\<rparr>) s)))"
  by (subst boost_reset_loop.simps) (simp add: Let_def)

lemma boost_reset_stop: "boost_reset_loop q q s = Some s"
  by (subst boost_reset_loop.simps) simp

lemma boost_reset_loop_correct:
  assumes "ring s q (dn @ todo)" "\<forall>n\<in>set todo. list_entry n \<noteq> None"
  shows "boost_reset_loop q (hd (todo @ [q])) s = Some (s\<lparr>procs := reset_procs todo (procs s)\<rparr>)"
  using assms
proof (induction todo arbitrary: s dn)
  case Nil
  have "reset_procs [] (procs s) = procs s" by (simp add: reset_procs_def)
  then show ?case by (simp add: boost_reset_stop)
next
  case (Cons n todo)
  then obtain i where i: "n = ProcNode i" by (cases n) auto
  let ?s2 = "upd_proc i (\<lambda>x. x\<lparr>ticks := 0\<rparr>) (upd_proc i (\<lambda>x. x\<lparr>privlevel := 0\<rparr>) s)"
  have d: "distinct (q # dn @ ProcNode i # todo)" using Cons.prems(1) i by (simp add: ring_def)
  then have nq: "ProcNode i \<noteq> q" and nt: "ProcNode i \<notin> set todo" by auto
  have nx: "lnext s (ProcNode i) = hd (todo @ [q])"
    using ring_next_elem Cons.prems(1) i by blast
  have r2: "ring ?s2 q ((dn @ [n]) @ todo)"
    using ring_frame[OF Cons.prems(1), of ?s2] by simp
  have "boost_reset_loop q (hd (todo @ [q])) ?s2 = Some (?s2\<lparr>procs := reset_procs todo (procs ?s2)\<rparr>)"
    by (rule Cons.IH[OF r2]) (use Cons.prems(2) in simp)
  moreover have "reset_procs todo (procs ?s2) = reset_procs (n # todo) (procs s)"
    using nt i by (auto simp: reset_procs_def fun_eq_iff)
  moreover have "?s2\<lparr>procs := reset_procs (n # todo) (procs s)\<rparr> = s\<lparr>procs := reset_procs (n # todo) (procs s)\<rparr>"
    by (simp add: upd_proc_def)
  ultimately show ?case using nq nx i by (simp add: boost_reset_step)
qed

lemma boost_reset_list:
  assumes "lists_ok cfg s L" "h \<in> set (heads cfg)"
  shows "boost_reset_loop h (lnext s h) s = Some (s\<lparr>procs := reset_procs (L h) (procs s)\<rparr>)"
proof -
  have r: "ring s h ([] @ L h)" using lists_ok_ring[OF assms] by simp
  have e: "\<forall>n\<in>set (L h). list_entry n \<noteq> None" using assms unfolding lists_ok_def by blast
  show ?thesis using boost_reset_loop_correct[OF r e] ring_next_head[OF lists_ok_ring[OF assms]] by simp
qed

lemma reset_procs_append: "reset_procs b (reset_procs a P) = reset_procs (a @ b) P"
  by (auto simp: reset_procs_def fun_eq_iff)

lemma boost_lists_step:
  assumes "l \<noteq> 0" "l \<notin> set ls" "0 \<notin> set ls"
  shows "boost_lists ls (L(QueueHead l := [], QueueHead 0 := L (QueueHead 0) @ L (QueueHead l))) =
         boost_lists (l # ls) L"
proof (rule ext)
  fix h
  let ?L2 = "L(QueueHead l := [], QueueHead 0 := L (QueueHead 0) @ L (QueueHead l))"
  have m: "map (\<lambda>k. ?L2 (QueueHead k)) ls = map (\<lambda>k. L (QueueHead k)) ls"
    by (rule map_cong) (use assms in auto)
  show "boost_lists ls ?L2 h = boost_lists (l # ls) L h"
    unfolding boost_lists_def m using assms(1) by (cases h) auto
qed

lemma boost_lists_nil: "boost_lists [] L = L"
  by (auto simp: boost_lists_def fun_eq_iff split: lnode.splits)

lemma boost_levels_correct:
  assumes "lists_ok cfg s L" "pins_ok cfg s L" "\<forall>l\<in>set ls. l \<noteq> 0 \<and> l < QSIZE cfg" "distinct ls"
    "0 < QSIZE cfg"
  shows "\<exists>s'. boost_levels ls s = Some s' \<and>
              lists_ok cfg s' (boost_lists ls L) \<and> pins_ok cfg s' (boost_lists ls L) \<and>
              procs s' = reset_procs (concat (map (\<lambda>k. L (QueueHead k)) ls)) (procs s) \<and>
              s' = s\<lparr>procs := procs s', mlfq_pin := mlfq_pin s', lnext := lnext s', lprev := lprev s'\<rparr>"
  using assms(1-4)
proof (induction ls arbitrary: s L)
  case Nil
  have "reset_procs [] (procs s) = procs s" by (simp add: reset_procs_def)
  then show ?case using Nil by (simp add: boost_lists_nil)
next
  case (Cons l ls)
  have l: "l \<noteq> 0" "l < QSIZE cfg" "l \<notin> set ls" "0 \<notin> set ls" using Cons.prems(3,4) by auto
  let ?s1 = "s\<lparr>procs := reset_procs (L (QueueHead l)) (procs s)\<rparr>"
  let ?s2 = "concatqueue l 0 ?s1"
  let ?L2 = "L(QueueHead l := [], QueueHead 0 := L (QueueHead 0) @ L (QueueHead l))"
  have b1: "boost_reset_loop (QueueHead l) (lnext s (QueueHead l)) s = Some ?s1"
    by (rule boost_reset_list[OF Cons.prems(1) queue_head_in_heads[OF l(2)]])
  have ok1: "lists_ok cfg ?s1 L" by (rule lists_ok_links[OF Cons.prems(1)]) simp_all
  have pk1: "pins_ok cfg ?s1 L" using Cons.prems(2) by (simp add: pins_ok_def)
  have ok2: "lists_ok cfg ?s2 ?L2" by (rule concatqueue_lists[OF ok1 l(2) assms(5) l(1)])
  have pk2: "pins_ok cfg ?s2 ?L2" by (rule concatqueue_pins[OF ok1 pk1 l(2) assms(5) l(1)])
  have pre: "\<forall>k\<in>set ls. k \<noteq> 0 \<and> k < QSIZE cfg" "distinct ls" using Cons.prems(3,4) by auto
  from Cons.IH[OF ok2 pk2 pre] obtain s' where
    r: "boost_levels ls ?s2 = Some s'" "lists_ok cfg s' (boost_lists ls ?L2)"
       "pins_ok cfg s' (boost_lists ls ?L2)"
       "procs s' = reset_procs (concat (map (\<lambda>k. ?L2 (QueueHead k)) ls)) (procs ?s2)"
       "s' = ?s2\<lparr>procs := procs s', mlfq_pin := mlfq_pin s', lnext := lnext s', lprev := lprev s'\<rparr>"
    by blast
  have m: "map (\<lambda>k. ?L2 (QueueHead k)) ls = map (\<lambda>k. L (QueueHead k)) ls"
    by (rule map_cong) (use l in auto)
  have pr: "procs s' = reset_procs (concat (map (\<lambda>k. L (QueueHead k)) (l # ls))) (procs s)"
    unfolding r(4) m by (simp add: reset_procs_append)
  have st: "boost_levels (l # ls) s = Some s'" using b1 r(1) by simp
  have rec: "s' = s\<lparr>procs := procs s', mlfq_pin := mlfq_pin s', lnext := lnext s', lprev := lprev s'\<rparr>"
    by (rule ptable_eq_sched; subst r(5)) simp_all
  show ?case
    using st r(2,3) pr rec unfolding boost_lists_step[OF l(1,3,4)] by blast
qed

lemma priority_boost_skip:
  "BOOSTINTERVAL cfg \<noteq> 0 \<Longrightarrow> \<not> BOOSTINTERVAL cfg dvd mlfq_ticks s \<Longrightarrow> priority_boost cfg s = Some s"
  by (simp add: priority_boost_def cmod_eq_0_iff)

lemma priority_boost_correct:
  assumes "lists_ok cfg s L" "pins_ok cfg s L" "0 < QSIZE cfg"
    "BOOSTINTERVAL cfg \<noteq> 0" "BOOSTINTERVAL cfg dvd mlfq_ticks s"
  shows "\<exists>s'. priority_boost cfg s = Some s' \<and>
              lists_ok cfg s' (boost_lists [1..<QSIZE cfg] L) \<and>
              pins_ok cfg s' (boost_lists [1..<QSIZE cfg] L) \<and>
              procs s' = reset_procs (concat (map (\<lambda>k. L (QueueHead k)) [1..<QSIZE cfg]) @ L SleepHead)
                           (procs s) \<and>
              s' = s\<lparr>procs := procs s', mlfq_pin := mlfq_pin s', lnext := lnext s', lprev := lprev s'\<rparr>"
proof -
  let ?ls = "[1..<QSIZE cfg]"
  have pre: "\<forall>l\<in>set ?ls. l \<noteq> 0 \<and> l < QSIZE cfg" "distinct ?ls" by auto
  from boost_levels_correct[OF assms(1,2) pre assms(3)] obtain s1 where
    r: "boost_levels ?ls s = Some s1" "lists_ok cfg s1 (boost_lists ?ls L)"
       "pins_ok cfg s1 (boost_lists ?ls L)"
       "procs s1 = reset_procs (concat (map (\<lambda>k. L (QueueHead k)) ?ls)) (procs s)"
       "s1 = s\<lparr>procs := procs s1, mlfq_pin := mlfq_pin s1, lnext := lnext s1, lprev := lprev s1\<rparr>"
    by blast
  let ?s2 = "s1\<lparr>procs := reset_procs (boost_lists ?ls L SleepHead) (procs s1)\<rparr>"
  have b: "boost_reset_loop SleepHead (lnext s1 SleepHead) s1 = Some ?s2"
    by (rule boost_reset_list[OF r(2) special_heads(2)])
  have sl: "boost_lists ?ls L SleepHead = L SleepHead" by (simp add: boost_lists_def)
  have pb: "priority_boost cfg s = Some ?s2"
    using assms(4,5) r(1) b by (simp add: priority_boost_def cmod_eq_0_iff)
  have ok: "lists_ok cfg ?s2 (boost_lists ?ls L)" by (rule lists_ok_links[OF r(2)]) simp_all
  have pk: "pins_ok cfg ?s2 (boost_lists ?ls L)" using r(3) by (simp add: pins_ok_def)
  have pr: "procs ?s2 = reset_procs (concat (map (\<lambda>k. L (QueueHead k)) ?ls) @ L SleepHead) (procs s)"
    using sl by (simp add: r(4) reset_procs_append)
  have rec: "?s2 = s\<lparr>procs := procs ?s2, mlfq_pin := mlfq_pin ?s2, lnext := lnext ?s2, lprev := lprev ?s2\<rparr>"
    by (rule ptable_eq_sched; simp; subst r(5); simp)
  show ?thesis
    apply (rule exI[of _ ?s2])
    using pb ok pk pr rec by blast
qed

lemma mlfq_account_sleeping:
  assumes "state (procs s p) = SLEEPING" "TQ cfg (privlevel (procs s p)) \<noteq> 0"
  shows "mlfq_account cfg p s =
           Some (s\<lparr>procs := (procs s)(p :=
                   (if int (privlevel (procs s p)) < int (QSIZE cfg) - 1 \<and>
                       ticks (procs s p) \<ge> TA cfg (privlevel (procs s p))
                    then (procs s p)\<lparr>privlevel := privlevel (procs s p) + 1, ticks := 0\<rparr>
                    else (procs s p)\<lparr>ticks := cdiv (ticks (procs s p)) (TQ cfg (privlevel (procs s p)))
                                              * TQ cfg (privlevel (procs s p))\<rparr>))\<rparr>)"
  using assms by (simp add: mlfq_account_def Let_def upd_proc_def)

lemma mlfq_account_zombie:
  "state (procs s p) = ZOMBIE \<Longrightarrow> mlfq_account cfg p s = Some s"
  by (simp add: mlfq_account_def Let_def)

lemma ring_next_in:
  assumes "ring s h xs" "n \<in> set xs"
  shows "lnext s n \<in> set (h # xs)"
proof -
  from assms(2) obtain pre rest where sp: "xs = pre @ n # rest" by (meson split_list)
  then have "h # xs = (h # pre) @ n # rest" by simp
  from ring_next_any[OF assms(1) this] have "lnext s n = hd (rest @ [h])" .
  then show ?thesis using sp by (cases rest) auto
qed

lemma mlfq_account_wf:
  assumes ok: "lists_ok cfg s L" and pk: "pins_ok cfg s L"
    and st: "state (procs s p) = ZOMBIE \<or>
             state (procs s p) = SLEEPING \<and> TQ cfg (privlevel (procs s p)) \<noteq> 0 \<or>
             state (procs s p) = RUNNABLE \<and> privlevel (procs s p) < QSIZE cfg \<and>
             ProcNode p \<in> set (L (QueueHead (privlevel (procs s p)))) \<and>
             TA cfg (privlevel (procs s p)) \<noteq> 0 \<and> TQ cfg (privlevel (procs s p)) \<noteq> 0"
  shows "\<exists>s2. mlfq_account cfg p s = Some s2 \<and>
              lists_ok cfg s2 (account_lists cfg p s L) \<and>
              pins_ok cfg s2 (account_lists cfg p s L) \<and>
              (\<forall>i. i \<noteq> p \<longrightarrow> procs s2 i = procs s i) \<and>
              (state (procs s p) = RUNNABLE \<and> \<not> demotes cfg p s \<longrightarrow>
                 procs s2 p = (procs s p)\<lparr>ticks := ticks (procs s p) + 1\<rparr>) \<and>
              s2 = s\<lparr>procs := procs s2, mlfq_pin := mlfq_pin s2, lnext := lnext s2, lprev := lprev s2\<rparr>"
proof -
  let ?lvl = "privlevel (procs s p)"
  consider (z) "state (procs s p) = ZOMBIE"
    | (sl) "state (procs s p) = SLEEPING" "TQ cfg ?lvl \<noteq> 0"
    | (r) "state (procs s p) = RUNNABLE" "?lvl < QSIZE cfg" "ProcNode p \<in> set (L (QueueHead ?lvl))"
          "TA cfg ?lvl \<noteq> 0" "TQ cfg ?lvl \<noteq> 0"
    using st by blast
  then show ?thesis
  proof cases
    case z
    then have "mlfq_account cfg p s = Some s" by (rule mlfq_account_zombie)
    moreover have "account_lists cfg p s L = L" using z by (simp add: account_lists_def demotes_def)
    ultimately show ?thesis using ok pk z by simp
  next
    case sl
    have al: "account_lists cfg p s L = L" using sl by (simp add: account_lists_def demotes_def)
    let ?s2 = "s\<lparr>procs := (procs s)(p :=
                   (if int ?lvl < int (QSIZE cfg) - 1 \<and> ticks (procs s p) \<ge> TA cfg ?lvl
                    then (procs s p)\<lparr>privlevel := ?lvl + 1, ticks := 0\<rparr>
                    else (procs s p)\<lparr>ticks := cdiv (ticks (procs s p)) (TQ cfg ?lvl) * TQ cfg ?lvl\<rparr>))\<rparr>"
    have acc: "mlfq_account cfg p s = Some ?s2" by (rule mlfq_account_sleeping[OF sl])
    have ok2: "lists_ok cfg ?s2 L" by (rule lists_ok_links[OF ok]) simp_all
    have pk2: "pins_ok cfg ?s2 L" using pk by (simp add: pins_ok_def)
    have rec: "?s2 = s\<lparr>procs := procs ?s2, mlfq_pin := mlfq_pin ?s2, lnext := lnext ?s2, lprev := lprev ?s2\<rparr>"
      by (rule ptable_eq_sched) simp_all
    have oth: "\<forall>i. i \<noteq> p \<longrightarrow> procs ?s2 i = procs s i" by simp
    have nr: "state (procs s p) \<noteq> RUNNABLE" using sl(1) by simp
    show ?thesis
      apply (rule exI[of _ ?s2])
      unfolding al
      using acc ok2 pk2 rec oth nr by blast
  next
    case r
    from mlfq_account_runnable[OF ok r] obtain s2 where
      acc: "mlfq_account cfg p s = Some s2" and
      c: "if int ?lvl < int (QSIZE cfg) - 1 \<and> TA cfg ?lvl dvd ticks (procs s p) + 1
            then procs s2 = (procs s)(p := (procs s p)\<lparr>privlevel := ?lvl + 1, ticks := 0\<rparr>) \<and>
                 lists_ok cfg s2
                   (L(QueueHead ?lvl := remove1 (ProcNode p) (L (QueueHead ?lvl)),
                      QueueHead (?lvl + 1) := L (QueueHead (?lvl + 1)) @ [ProcNode p])) \<and>
                 mlfq_pin s2 =
                   (if mlfq_pin s ?lvl = ProcNode p
                    then (mlfq_pin s)(?lvl := lnext s (ProcNode p))
                    else mlfq_pin s) \<and>
                 s2 = s\<lparr>procs := procs s2, mlfq_pin := mlfq_pin s2, lnext := lnext s2, lprev := lprev s2\<rparr>
            else if TQ cfg ?lvl dvd ticks (procs s p) + 1
            then s2 = s\<lparr>procs := (procs s)(p := (procs s p)\<lparr>ticks := ticks (procs s p) + 1\<rparr>),
                         mlfq_pin := (mlfq_pin s)(?lvl := lnext s (ProcNode p))\<rparr>
            else s2 = s\<lparr>procs := (procs s)(p := (procs s p)\<lparr>ticks := ticks (procs s p) + 1\<rparr>)\<rparr>"
      by blast
    have dm: "demotes cfg p s \<longleftrightarrow> int ?lvl < int (QSIZE cfg) - 1 \<and> TA cfg ?lvl dvd ticks (procs s p) + 1"
      using r(1,4) by (simp add: demotes_def cmod_eq_0_iff)
    show ?thesis
    proof (cases "demotes cfg p s")
      case True
      then have d: "int ?lvl < int (QSIZE cfg) - 1 \<and> TA cfg ?lvl dvd ticks (procs s p) + 1"
        using dm by simp
      have al: "account_lists cfg p s L = demote_lists p ?lvl L"
        using True by (simp add: account_lists_def)
      from c have c1: "procs s2 = (procs s)(p := (procs s p)\<lparr>privlevel := ?lvl + 1, ticks := 0\<rparr>)"
        and c2: "lists_ok cfg s2 (demote_lists p ?lvl L)"
        and c3: "mlfq_pin s2 = mlfq_pin (dequeue p s)"
        and c4: "s2 = s\<lparr>procs := procs s2, mlfq_pin := mlfq_pin s2, lnext := lnext s2, lprev := lprev s2\<rparr>"
        unfolding if_P[OF d] demote_lists_def dequeue_pin by blast+
      have "pins_ok cfg (dequeue p s) (L(QueueHead ?lvl := remove1 (ProcNode p) (L (QueueHead ?lvl))))"
        by (rule dequeue_pins[OF ok pk r(2,3)])
      then have c5: "pins_ok cfg s2 (demote_lists p ?lvl L)"
        unfolding pins_ok_def c3 demote_lists_def by auto
      have oth: "\<forall>i. i \<noteq> p \<longrightarrow> procs s2 i = procs s i" using c1 by simp
      show ?thesis
        apply (rule exI[of _ s2])
        unfolding al
        using acc c2 c5 oth True c4 by blast
    next
      case False
      then have nd: "\<not> (int ?lvl < int (QSIZE cfg) - 1 \<and> TA cfg ?lvl dvd ticks (procs s p) + 1)"
        using dm by simp
      have al: "account_lists cfg p s L = L" using False by (simp add: account_lists_def)
      have nx: "lnext s (ProcNode p) \<in> set (QueueHead ?lvl # L (QueueHead ?lvl))"
        by (rule ring_next_in[OF lists_ok_ring[OF ok queue_head_in_heads[OF r(2)]] r(3)])
      have e: "s2 = s\<lparr>procs := (procs s)(p := (procs s p)\<lparr>ticks := ticks (procs s p) + 1\<rparr>),
                         mlfq_pin := (mlfq_pin s)(?lvl := lnext s (ProcNode p))\<rparr> \<or>
               s2 = s\<lparr>procs := (procs s)(p := (procs s p)\<lparr>ticks := ticks (procs s p) + 1\<rparr>)\<rparr>"
        using c unfolding if_not_P[OF nd] by presburger
      have l: "lnext s2 = lnext s" "lprev s2 = lprev s" using e by auto
      have ok2: "lists_ok cfg s2 L" by (rule lists_ok_links[OF ok l])
      have pin2: "mlfq_pin s2 = (mlfq_pin s)(?lvl := lnext s (ProcNode p)) \<or> mlfq_pin s2 = mlfq_pin s"
        using e by auto
      have pk2: "pins_ok cfg s2 L"
        unfolding pins_ok_def
      proof (intro allI impI)
        fix l assume l: "l < QSIZE cfg"
        then have "mlfq_pin s l \<in> set (QueueHead l # L (QueueHead l))"
          using pk unfolding pins_ok_def by blast
        then show "mlfq_pin s2 l \<in> set (QueueHead l # L (QueueHead l))"
          using pin2 nx by (cases "l = ?lvl") auto
      qed
      have pr: "procs s2 = (procs s)(p := (procs s p)\<lparr>ticks := ticks (procs s p) + 1\<rparr>)"
        using e by auto
      have rec: "s2 = s\<lparr>procs := procs s2, mlfq_pin := mlfq_pin s2, lnext := lnext s2, lprev := lprev s2\<rparr>"
        apply (rule ptable_eq_sched) using e by auto
      show ?thesis
        apply (rule exI[of _ s2])
        unfolding al
        using acc ok2 pk2 pr rec by simp
    qed
  qed
qed

lemma account_lists_ticks [simp]:
  "demotes cfg p (s\<lparr>mlfq_ticks := x\<rparr>) = demotes cfg p s"
  "account_lists cfg p (s\<lparr>mlfq_ticks := x\<rparr>) L = account_lists cfg p s L"
  by (simp_all add: demotes_def account_lists_def)

lemma mlfqlogic_boost:
  assumes ok: "lists_ok cfg s L" and pk: "pins_ok cfg s L" and q: "0 < QSIZE cfg"
    and bi: "BOOSTINTERVAL cfg \<noteq> 0"
    and boost: "cmod (mlfq_ticks s + 1) (BOOSTINTERVAL cfg) = 0"
    and st: "state (procs s p) = ZOMBIE \<or>
             state (procs s p) = SLEEPING \<and> TQ cfg (privlevel (procs s p)) \<noteq> 0 \<or>
             state (procs s p) = RUNNABLE \<and> privlevel (procs s p) < QSIZE cfg \<and>
             ProcNode p \<in> set (L (QueueHead (privlevel (procs s p)))) \<and>
             TA cfg (privlevel (procs s p)) \<noteq> 0 \<and> TQ cfg (privlevel (procs s p)) \<noteq> 0"
  shows "\<exists>s2 s'. mlfq_account cfg p (s\<lparr>mlfq_ticks := mlfq_ticks s + 1\<rparr>) = Some s2 \<and>
           mlfqlogic cfg p s = Some s' \<and>
           lists_ok cfg s2 (account_lists cfg p s L) \<and>
           lists_ok cfg s' (boost_lists [1..<QSIZE cfg] (account_lists cfg p s L)) \<and>
           pins_ok cfg s' (boost_lists [1..<QSIZE cfg] (account_lists cfg p s L)) \<and>
           procs s' = reset_procs (concat (map (\<lambda>k. account_lists cfg p s L (QueueHead k)) [1..<QSIZE cfg])
                                   @ account_lists cfg p s L SleepHead) (procs s2) \<and>
           (\<forall>i. i \<noteq> p \<longrightarrow> procs s2 i = procs s i) \<and>
           (state (procs s p) = RUNNABLE \<and> \<not> demotes cfg p s \<longrightarrow>
                 procs s2 p = (procs s p)\<lparr>ticks := ticks (procs s p) + 1\<rparr>)"
proof -
  let ?s1 = "s\<lparr>mlfq_ticks := mlfq_ticks s + 1\<rparr>"
  let ?L2 = "account_lists cfg p s L"
  have ok1: "lists_ok cfg ?s1 L" by (rule lists_ok_links[OF ok]) simp_all
  have pk1: "pins_ok cfg ?s1 L" using pk by (simp add: pins_ok_def)
  have st1: "state (procs ?s1 p) = ZOMBIE \<or>
             state (procs ?s1 p) = SLEEPING \<and> TQ cfg (privlevel (procs ?s1 p)) \<noteq> 0 \<or>
             state (procs ?s1 p) = RUNNABLE \<and> privlevel (procs ?s1 p) < QSIZE cfg \<and>
             ProcNode p \<in> set (L (QueueHead (privlevel (procs ?s1 p)))) \<and>
             TA cfg (privlevel (procs ?s1 p)) \<noteq> 0 \<and> TQ cfg (privlevel (procs ?s1 p)) \<noteq> 0"
    using st by simp
  from mlfq_account_wf[OF ok1 pk1 st1] obtain s2 where
    acc: "mlfq_account cfg p ?s1 = Some s2" and
    ok2: "lists_ok cfg s2 ?L2" and pk2: "pins_ok cfg s2 ?L2" and
    oth: "\<forall>i. i \<noteq> p \<longrightarrow> procs s2 i = procs s i" and
    run: "state (procs s p) = RUNNABLE \<and> \<not> demotes cfg p s \<longrightarrow>
                 procs s2 p = (procs s p)\<lparr>ticks := ticks (procs s p) + 1\<rparr>" and
    rec: "s2 = ?s1\<lparr>procs := procs s2, mlfq_pin := mlfq_pin s2, lnext := lnext s2, lprev := lprev s2\<rparr>"
    unfolding account_lists_ticks by auto
  have tk: "mlfq_ticks s2 = mlfq_ticks s + 1" by (subst rec) simp
  have dv: "BOOSTINTERVAL cfg dvd mlfq_ticks s2"
    using boost bi unfolding tk by (simp add: cmod_eq_0_iff)
  from priority_boost_correct[OF ok2 pk2 q bi dv] obtain s' where
    pb: "priority_boost cfg s2 = Some s'" and
    ok3: "lists_ok cfg s' (boost_lists [1..<QSIZE cfg] ?L2)" and
    pk3: "pins_ok cfg s' (boost_lists [1..<QSIZE cfg] ?L2)" and
    pr: "procs s' = reset_procs (concat (map (\<lambda>k. ?L2 (QueueHead k)) [1..<QSIZE cfg]) @ ?L2 SleepHead)
                           (procs s2)"
    by blast
  have ml: "mlfqlogic cfg p s = Some s'" by (simp add: mlfqlogic_def acc pb)
  show ?thesis
    apply (rule exI[of _ s2])
    apply (rule exI[of _ s'])
    using acc ml ok2 ok3 pk3 pr oth run by blast
qed

lemma ex_mlfq_facts:
  "state (procs ex_mlfq 0) = RUNNABLE" "privlevel (procs ex_mlfq 0) = 0"
  "ticks (procs ex_mlfq 0) = 1" "ptype (procs ex_mlfq 0) = MLFQ" "mlfq_ticks ex_mlfq = 99"
  "QSIZE cfg_ex = 3" "TA cfg_ex 0 = 5" "TQ cfg_ex 0 = 1" "BOOSTINTERVAL cfg_ex = 100"
  by (simp_all add: ex_mlfq_def bss_def proc0_def cfg_ex_def)

lemma ex_mlfq_account: "account_lists cfg_ex 0 ex_mlfq ex_mlfq_lists = ex_mlfq_lists"
  by (simp add: account_lists_def demotes_def ex_mlfq_facts cmod_def cdiv_def)

lemma ex_mlfq_boosted:
  "boost_lists [1..<3] ex_mlfq_lists (QueueHead 0) = [ProcNode 0, ProcNode 1, ProcNode 2]"
  by (simp add: boost_lists_def ex_mlfq_lists_def upt_rec)

section \<open>stridelogic: rebase and pass advance\<close>

lemma rebase_run_step:
  "rebase_run_loop m (ProcNode i) s =
     rebase_run_loop m (lnext s (ProcNode i)) (upd_proc i (\<lambda>x. x\<lparr>pass := pass x - m\<rparr>) s)"
  by (subst rebase_run_loop.simps) (simp add: Let_def)

lemma rebase_run_stop: "rebase_run_loop m RunHead s = Some s"
  by (subst rebase_run_loop.simps) simp

lemma rebase_run_loop_correct:
  assumes "ring s RunHead (dn @ todo)" "\<forall>n\<in>set todo. list_entry n \<noteq> None"
  shows "rebase_run_loop m (hd (todo @ [RunHead])) s =
           Some (s\<lparr>procs := rebase_procs m {} (set todo) (procs s)\<rparr>)"
  using assms
proof (induction todo arbitrary: s dn)
  case Nil
  have "rebase_procs m {} (set []) (procs s) = procs s" by (simp add: rebase_procs_def)
  then show ?case by (simp add: rebase_run_stop)
next
  case (Cons n todo)
  then obtain i where i: "n = ProcNode i" by (cases n) auto
  let ?s2 = "upd_proc i (\<lambda>x. x\<lparr>pass := pass x - m\<rparr>) s"
  have d: "distinct (RunHead # dn @ ProcNode i # todo)" using Cons.prems(1) i by (simp add: ring_def)
  then have nt: "ProcNode i \<notin> set todo" by auto
  have nx: "lnext s (ProcNode i) = hd (todo @ [RunHead])"
    using ring_next_elem Cons.prems(1) i by blast
  have r2: "ring ?s2 RunHead ((dn @ [n]) @ todo)"
    using ring_frame[OF Cons.prems(1), of ?s2] by simp
  have "rebase_run_loop m (hd (todo @ [RunHead])) ?s2 =
          Some (?s2\<lparr>procs := rebase_procs m {} (set todo) (procs ?s2)\<rparr>)"
    by (rule Cons.IH[OF r2]) (use Cons.prems(2) in simp)
  moreover have "rebase_procs m {} (set todo) (procs ?s2) = rebase_procs m {} (set (n # todo)) (procs s)"
    using nt i by (auto simp: rebase_procs_def fun_eq_iff)
  moreover have "?s2\<lparr>procs := rebase_procs m {} (set (n # todo)) (procs s)\<rparr> =
                 s\<lparr>procs := rebase_procs m {} (set (n # todo)) (procs s)\<rparr>"
    by (simp add: upd_proc_def)
  ultimately show ?case using nx i by (simp add: rebase_run_step)
qed

lemma fold_heap_shift:
  "distinct (map (stride_minheap s) js) \<Longrightarrow>
   fold (\<lambda>i t. upd_proc (stride_minheap t i) f t) js s =
     s\<lparr>procs := (\<lambda>k. if k \<in> stride_minheap s ` set js then f (procs s k) else procs s k)\<rparr>"
proof (induction js arbitrary: s)
  case Nil
  then show ?case by simp
next
  case (Cons j js)
  let ?s1 = "upd_proc (stride_minheap s j) f s"
  have h: "stride_minheap ?s1 = stride_minheap s" by simp
  have d: "distinct (map (stride_minheap ?s1) js)" using Cons.prems by simp
  have nj: "stride_minheap s j \<notin> stride_minheap s ` set js" using Cons.prems by auto
  have "fold (\<lambda>i t. upd_proc (stride_minheap t i) f t) (j # js) s =
        ?s1\<lparr>procs := (\<lambda>k. if k \<in> stride_minheap ?s1 ` set js then f (procs ?s1 k) else procs ?s1 k)\<rparr>"
    using Cons.IH[OF d] by simp
  also have "\<dots> = s\<lparr>procs := (\<lambda>k. if k \<in> stride_minheap s ` set (j # js) then f (procs s k) else procs s k)\<rparr>"
    using nj by (auto simp: upd_proc_def fun_eq_iff)
  finally show ?case .
qed

lemma rebase_heap_correct:
  assumes "distinct (heap_slots s)"
  shows "rebase_heap m s = s\<lparr>procs := rebase_procs m (set (heap_slots s)) {} (procs s)\<rparr>"
proof -
  have "rebase_heap m s =
     s\<lparr>procs := (\<lambda>k. if k \<in> stride_minheap s ` set [1..stride_size s]
                     then (procs s k)\<lparr>pass := pass (procs s k) - m\<rparr> else procs s k)\<rparr>"
    unfolding rebase_heap_def using assms unfolding heap_slots_def by (rule fold_heap_shift)
  moreover have "(\<lambda>k. if k \<in> stride_minheap s ` set [1..stride_size s]
                     then (procs s k)\<lparr>pass := pass (procs s k) - m\<rparr> else procs s k) =
                 rebase_procs m (set (heap_slots s)) {} (procs s)"
    by (simp add: rebase_procs_def heap_slots_def fun_eq_iff)
  ultimately show ?thesis by simp
qed

lemma rebase_unfold:
  "rebase cfg p s =
     (if minpass_of p s > BARRIER cfg then
        do {
          s1 \<leftarrow> rebase_run_loop (minpass_of p s) (lnext (rebase_heap (minpass_of p s) s) RunHead)
                  (rebase_heap (minpass_of p s) s);
          Some (s1\<lparr>mlfq_pass := mlfq_pass s1 - minpass_of p s\<rparr>)
        }
      else Some s)"
  by (simp add: rebase_def minpass_of_def Let_def split: option.splits)

lemma rebase_correct:
  assumes "lists_ok cfg s L" "distinct (heap_slots s)"
    "\<forall>i\<in>set (heap_slots s). ProcNode i \<notin> set (L RunHead)"
  shows "rebase cfg p s =
           Some (if minpass_of p s > BARRIER cfg
                 then s\<lparr>procs := rebase_procs (minpass_of p s) (set (heap_slots s)) (set (L RunHead)) (procs s),
                        mlfq_pass := mlfq_pass s - minpass_of p s\<rparr>
                 else s)"
proof (cases "minpass_of p s > BARRIER cfg")
  case False
  then show ?thesis by (simp add: rebase_unfold)
next
  case True
  let ?m = "minpass_of p s"
  let ?s1 = "s\<lparr>procs := rebase_procs ?m (set (heap_slots s)) {} (procs s)\<rparr>"
  have rh: "rebase_heap ?m s = ?s1" by (rule rebase_heap_correct[OF assms(2)])
  have ok1: "lists_ok cfg ?s1 L" by (rule lists_ok_links[OF assms(1)]) simp_all
  have r: "ring ?s1 RunHead ([] @ L RunHead)"
    using lists_ok_ring[OF ok1 special_heads(1)] by simp
  have e: "\<forall>n\<in>set (L RunHead). list_entry n \<noteq> None"
    using assms(1) special_heads(1)[of cfg] unfolding lists_ok_def by blast
  have nx: "lnext ?s1 RunHead = hd (L RunHead @ [RunHead])"
    by (rule ring_next_head[OF lists_ok_ring[OF ok1 special_heads(1)]])
  have lp: "rebase_run_loop ?m (lnext ?s1 RunHead) ?s1 =
              Some (?s1\<lparr>procs := rebase_procs ?m {} (set (L RunHead)) (procs ?s1)\<rparr>)"
    unfolding nx by (rule rebase_run_loop_correct[OF r e])
  then have lp': "rebase_run_loop ?m (lnext s RunHead) ?s1 =
              Some (?s1\<lparr>procs := rebase_procs ?m {} (set (L RunHead)) (procs ?s1)\<rparr>)"
    by simp
  have pr: "rebase_procs ?m {} (set (L RunHead)) (procs ?s1) =
            rebase_procs ?m (set (heap_slots s)) (set (L RunHead)) (procs s)"
    using assms(3) by (auto simp: rebase_procs_def fun_eq_iff)
  have "rebase cfg p s =
          Some (?s1\<lparr>procs := rebase_procs ?m {} (set (L RunHead)) (procs ?s1),
                     mlfq_pass := mlfq_pass s - ?m\<rparr>)"
    using True by (simp add: rebase_unfold rh lp')
  then show ?thesis using True unfolding pr by simp
qed

lemma heap_inv_frame:
  assumes "heap_inv s" "stride_minheap s' = stride_minheap s" "stride_size s' = stride_size s"
    "\<forall>i\<in>set (heap_slots s). pass (procs s' i) = pass (procs s i) - m"
  shows "heap_inv s'"
proof -
  have k: "pass (procs s' (stride_minheap s j)) = pass (procs s (stride_minheap s j)) - m"
    if "1 \<le> j" "j \<le> stride_size s" for j
    using assms(4) that by (simp add: heap_slots_def)
  have "heapP (\<lambda>k. pass (procs s k)) (stride_minheap s) (stride_size s)"
    using assms(1) by (simp add: heap_inv_def heap_ok_iff)
  then have "heapP (\<lambda>k. pass (procs s' k)) (stride_minheap s) (stride_size s)"
    unfolding heapP_def
  proof (intro allI impI)
    fix j assume a: "\<forall>j. 2 \<le> j \<and> j \<le> stride_size s \<longrightarrow>
               pass (procs s (stride_minheap s (j div 2))) \<le> pass (procs s (stride_minheap s j))"
      and j: "2 \<le> j \<and> j \<le> stride_size s"
    then have "1 \<le> j div 2" "j div 2 \<le> stride_size s" by auto
    from k[OF this] k[of j] a j
    show "pass (procs s' (stride_minheap s (j div 2))) \<le> pass (procs s' (stride_minheap s j))"
      by auto
  qed
  then show ?thesis by (simp add: heap_inv_def heap_ok_iff assms(2,3))
qed

lemma heap_slots_elems: "mset (heap_slots s) = heap_elems s"
  by (simp add: heap_slots_def heap_elems_def)

lemma advance_stride:
  assumes "ptype (procs s p) = STRIDE"
    "state (procs s p) = RUNNABLE \<or> state (procs s p) = SLEEPING"
    "tickets (procs s p) \<noteq> 0" "heap_inv s" "0 \<le> stride_size s" "p \<notin> set (heap_slots s)"
  shows "\<exists>s'. advance_pass cfg (Some p) s = Some s' \<and> heap_inv s' \<and>
           stride_size s' = stride_size s + 1 \<and>
           heap_elems s' = add_mset p (heap_elems s) \<and>
           procs s' = (procs s)(p := (procs s p)\<lparr>pass := pass (procs s p) + STRD cfg (tickets (procs s p))\<rparr>) \<and>
           lnext s' = lnext s \<and> lprev s' = lprev s \<and> mlfq_pin s' = mlfq_pin s \<and>
           mlfq_pass s' = mlfq_pass s"
proof -
  let ?s1 = "upd_proc p (\<lambda>x. x\<lparr>pass := pass x + STRD cfg (tickets x)\<rparr>) s"
  have ad: "advance_pass cfg (Some p) s = pushheap p ?s1"
    using assms(1,2,3) by (auto simp: advance_pass_def)
  have sl: "heap_slots ?s1 = heap_slots s" by (simp add: heap_slots_def)
  have "\<forall>i\<in>set (heap_slots s). pass (procs ?s1 i) = pass (procs s i) - 0"
    using assms(6) by (auto simp: upd_proc_def)
  then have hi: "heap_inv ?s1" by (rule heap_inv_frame[OF assms(4), rotated 2]) simp_all
  have sz: "0 \<le> stride_size ?s1" using assms(5) by simp
  from pushheap_correct[OF hi sz, of p] obtain s' where
    ph: "pushheap p ?s1 = Some s'" and hi': "heap_inv s'" and
    sz': "stride_size s' = stride_size ?s1 + 1" and
    el: "heap_elems s' = add_mset p (heap_elems ?s1)" and
    rec: "s' = ?s1\<lparr>stride_size := stride_size s', stride_minheap := stride_minheap s'\<rparr>"
    by blast
  have el1: "heap_elems ?s1 = heap_elems s" by (simp add: heap_elems_def)
  have f: "procs s' = procs ?s1" "lnext s' = lnext s" "lprev s' = lprev s" "mlfq_pin s' = mlfq_pin s"
    "mlfq_pass s' = mlfq_pass s"
    by (subst rec, simp)+
  have pr: "procs ?s1 = (procs s)(p := (procs s p)\<lparr>pass := pass (procs s p) + STRD cfg (tickets (procs s p))\<rparr>)"
    by (simp add: upd_proc_def)
  show ?thesis
    apply (rule exI[of _ s'])
    unfolding ad
    using ph hi' sz' el el1 f pr by simp
qed

lemma rebase_facts:
  assumes "lists_ok cfg s L" "distinct (heap_slots s)"
    "\<forall>i\<in>set (heap_slots s). ProcNode i \<notin> set (L RunHead)"
  shows "\<exists>s1. rebase cfg p s = Some s1 \<and>
           lnext s1 = lnext s \<and> lprev s1 = lprev s \<and> mlfq_pin s1 = mlfq_pin s \<and>
           stride_minheap s1 = stride_minheap s \<and> stride_size s1 = stride_size s \<and>
           (\<forall>i. i \<notin> set (heap_slots s) \<and> ProcNode i \<notin> set (L RunHead) \<longrightarrow> procs s1 i = procs s i) \<and>
           (\<forall>i. i \<in> set (heap_slots s) \<or> ProcNode i \<in> set (L RunHead) \<longrightarrow>
                pass (procs s1 i) =
                  pass (procs s i) - (if minpass_of p s > BARRIER cfg then minpass_of p s else 0)) \<and>
           (\<forall>i. state (procs s1 i) = state (procs s i) \<and> ptype (procs s1 i) = ptype (procs s i) \<and>
                tickets (procs s1 i) = tickets (procs s i)) \<and>
           mlfq_pass s1 = mlfq_pass s - (if minpass_of p s > BARRIER cfg then minpass_of p s else 0)"
  unfolding rebase_correct[OF assms]
  by (simp add: rebase_procs_def)

lemma stridelogic_stride:
  assumes ok: "lists_ok cfg s L" and hi: "heap_inv s" and sz: "0 \<le> stride_size s"
    and d: "distinct (heap_slots s)"
    and hr: "\<forall>i\<in>set (heap_slots s). ProcNode i \<notin> set (L RunHead)"
    and ty: "ptype (procs s p) = STRIDE"
    and st: "state (procs s p) = RUNNABLE \<or> state (procs s p) = SLEEPING"
    and tk: "tickets (procs s p) \<noteq> 0"
    and nh: "p \<notin> set (heap_slots s)" and nr: "ProcNode p \<notin> set (L RunHead)"
  shows "\<exists>s'. stridelogic cfg (Some p) s = Some s' \<and> lists_ok cfg s' L \<and> heap_inv s' \<and>
           heap_elems s' = add_mset p (heap_elems s) \<and>
           procs s' p = (procs s p)\<lparr>pass := pass (procs s p) + STRD cfg (tickets (procs s p))\<rparr> \<and>
           (\<forall>i. state (procs s' i) = state (procs s i)) \<and> mlfq_pin s' = mlfq_pin s"
proof -
  let ?m = "if minpass_of (Some p) s > BARRIER cfg then minpass_of (Some p) s else 0"
  from rebase_facts[OF ok d hr, of "Some p"] obtain s1 where
    rb: "rebase cfg (Some p) s = Some s1" and
    l1: "lnext s1 = lnext s" "lprev s1 = lprev s" and pin1: "mlfq_pin s1 = mlfq_pin s" and
    h1: "stride_minheap s1 = stride_minheap s" "stride_size s1 = stride_size s" and
    same: "\<forall>i. i \<notin> set (heap_slots s) \<and> ProcNode i \<notin> set (L RunHead) \<longrightarrow> procs s1 i = procs s i" and
    sh: "\<forall>i. i \<in> set (heap_slots s) \<or> ProcNode i \<in> set (L RunHead) \<longrightarrow>
                pass (procs s1 i) = pass (procs s i) - ?m" and
    fl: "\<forall>i. state (procs s1 i) = state (procs s i) \<and> ptype (procs s1 i) = ptype (procs s i) \<and>
                tickets (procs s1 i) = tickets (procs s i)"
    by blast
  have p1: "procs s1 p = procs s p" using same nh nr by simp
  have hs1: "heap_slots s1 = heap_slots s" by (simp add: heap_slots_def h1)
  have hi1: "heap_inv s1" by (rule heap_inv_frame[OF hi h1, of ?m]) (use sh in blast)
  have a: "ptype (procs s1 p) = STRIDE"
    "state (procs s1 p) = RUNNABLE \<or> state (procs s1 p) = SLEEPING"
    "tickets (procs s1 p) \<noteq> 0" "0 \<le> stride_size s1" "p \<notin> set (heap_slots s1)"
    using ty st tk sz nh by (simp_all add: p1 h1 hs1)
  from advance_stride[OF a(1,2,3) hi1 a(4,5), of cfg] obtain s' where
    ad: "advance_pass cfg (Some p) s1 = Some s'" and hi': "heap_inv s'" and
    el: "heap_elems s' = add_mset p (heap_elems s1)" and
    pr: "procs s' = (procs s1)(p := (procs s1 p)\<lparr>pass := pass (procs s1 p) + STRD cfg (tickets (procs s1 p))\<rparr>)" and
    l2: "lnext s' = lnext s1" "lprev s' = lprev s1" and pin2: "mlfq_pin s' = mlfq_pin s1"
    by blast
  have sl: "stridelogic cfg (Some p) s = Some s'" by (simp add: stridelogic_def rb ad)
  have ok': "lists_ok cfg s' L" by (rule lists_ok_links[OF ok]) (simp_all add: l1 l2)
  have el': "heap_elems s' = add_mset p (heap_elems s)"
    using el hs1 by (simp add: heap_slots_elems[symmetric])
  have pp: "procs s' p = (procs s p)\<lparr>pass := pass (procs s p) + STRD cfg (tickets (procs s p))\<rparr>"
    by (simp add: pr p1)
  have stt: "\<forall>i. state (procs s' i) = state (procs s i)" using fl by (simp add: pr)
  show ?thesis
    apply (rule exI[of _ s'])
    using sl ok' hi' el' pp stt pin1 pin2 by simp
qed

lemma sleep_stride:
  assumes "lists_ok cfg s L" "ptype (procs s p) = STRIDE" "ProcNode p \<in> set (L RunHead)"
  shows "lists_ok cfg (sleep p c s)
           (L(RunHead := remove1 (ProcNode p) (L RunHead), SleepHead := ProcNode p # L SleepHead))"
    and "procs (sleep p c s) = (procs s)(p := (procs s p)\<lparr>chan := c, state := SLEEPING\<rparr>)"
    and "stride_minheap (sleep p c s) = stride_minheap s" and "stride_size (sleep p c s) = stride_size s"
    and "mlfq_pass (sleep p c s) = mlfq_pass s" and "mlfq_pin (sleep p c s) = mlfq_pin s"
proof -
  let ?s1 = "upd_proc p (\<lambda>x. x\<lparr>chan := c\<rparr>) s"
  let ?s2 = "list_del (ProcNode p) ?s1"
  let ?s3 = "upd_proc p (\<lambda>x. x\<lparr>state := SLEEPING\<rparr>) ?s2"
  let ?L1 = "L(RunHead := remove1 (ProcNode p) (L RunHead))"
  have sl: "sleep p c s = list_add (ProcNode p) SleepHead ?s3"
    using assms(2) by (simp add: sleep_def Let_def)
  have ok1: "lists_ok cfg ?s1 L" by (rule lists_ok_links[OF assms(1)]) simp_all
  have ok2: "lists_ok cfg ?s2 ?L1" by (rule lists_ok_del[OF ok1 special_heads(1) assms(3)])
  have ok3: "lists_ok cfg ?s3 ?L1" by (rule lists_ok_links[OF ok2]) simp_all
  have fr: "\<forall>h'\<in>set (heads cfg). ProcNode p \<notin> set (?L1 h')"
    by (rule removed_fresh[OF assms(1) special_heads(1) assms(3)])
  have "lists_ok cfg (sleep p c s) (?L1(SleepHead := ProcNode p # ?L1 SleepHead))"
    unfolding sl by (rule lists_ok_add[OF ok3 special_heads(2) fr])
  then show "lists_ok cfg (sleep p c s)
           (L(RunHead := remove1 (ProcNode p) (L RunHead), SleepHead := ProcNode p # L SleepHead))"
    by simp
  show "procs (sleep p c s) = (procs s)(p := (procs s p)\<lparr>chan := c, state := SLEEPING\<rparr>)"
    unfolding sl by (simp add: upd_proc_def fun_eq_iff)
  show "stride_minheap (sleep p c s) = stride_minheap s" "stride_size (sleep p c s) = stride_size s"
    "mlfq_pass (sleep p c s) = mlfq_pass s" "mlfq_pin (sleep p c s) = mlfq_pin s"
    unfolding sl by simp_all
qed

lemma yield_stride:
  assumes "lists_ok cfg s L" "ptype (procs s p) = STRIDE" "ProcNode p \<in> set (L RunHead)"
  shows "lists_ok cfg (yield p s) (L(RunHead := remove1 (ProcNode p) (L RunHead)))"
    and "procs (yield p s) = (procs s)(p := (procs s p)\<lparr>state := RUNNABLE\<rparr>)"
    and "stride_minheap (yield p s) = stride_minheap s" and "stride_size (yield p s) = stride_size s"
    and "mlfq_pass (yield p s) = mlfq_pass s" and "mlfq_pin (yield p s) = mlfq_pin s"
proof -
  let ?s1 = "list_del (ProcNode p) s"
  have y: "yield p s = upd_proc p (\<lambda>x. x\<lparr>state := RUNNABLE\<rparr>) ?s1"
    using assms(2) by (simp add: yield_def Let_def)
  have ok1: "lists_ok cfg ?s1 (L(RunHead := remove1 (ProcNode p) (L RunHead)))"
    by (rule lists_ok_del[OF assms(1) special_heads(1) assms(3)])
  show "lists_ok cfg (yield p s) (L(RunHead := remove1 (ProcNode p) (L RunHead)))"
    unfolding y by (rule lists_ok_links[OF ok1]) simp_all
  show "procs (yield p s) = (procs s)(p := (procs s p)\<lparr>state := RUNNABLE\<rparr>)"
    unfolding y by (simp add: upd_proc_def fun_eq_iff)
  show "stride_minheap (yield p s) = stride_minheap s" "stride_size (yield p s) = stride_size s"
    "mlfq_pass (yield p s) = mlfq_pass s" "mlfq_pin (yield p s) = mlfq_pin s"
    unfolding y by simp_all
qed

text \<open>A STRIDE process that leaves the CPU RUNNABLE or SLEEPING: \<open>t\<close> is the state at the
  switch to the scheduler, with the process off the run list.\<close>

lemma stride_return:
  assumes ok: "lists_ok cfg s L" and hi: "heap_inv s" and sz: "0 \<le> stride_size s"
    and d: "distinct (heap_slots s)"
    and hr: "\<forall>i\<in>set (heap_slots s). ProcNode i \<notin> set (L RunHead)"
    and ty: "ptype (procs s p) = STRIDE" and tk: "tickets (procs s p) \<noteq> 0"
    and on: "ProcNode p \<in> set (L RunHead)"
    and t: "lists_ok cfg t L'" "L' RunHead = remove1 (ProcNode p) (L RunHead)"
      "procs t = (procs s)(p := q)" "ptype q = STRIDE" "tickets q = tickets (procs s p)"
      "pass q = pass (procs s p)" "state q = RUNNABLE \<or> state q = SLEEPING"
      "stride_minheap t = stride_minheap s" "stride_size t = stride_size s"
  shows "\<exists>s'. scheduler_return cfg p t = Some s' \<and> lists_ok cfg s' L' \<and> heap_inv s' \<and>
           heap_elems s' = add_mset p (heap_elems s) \<and> state (procs s' p) = state q \<and>
           pass (procs s' p) = pass (procs s p) + STRD cfg (tickets (procs s p))"
proof -
  have nh: "p \<notin> set (heap_slots s)" using hr on by blast
  have hs: "heap_slots t = heap_slots s" by (simp add: heap_slots_def t(8,9))
  have dr: "distinct (L RunHead)" by (rule lists_ok_distinct[OF ok special_heads(1)])
  have nr: "ProcNode p \<notin> set (L' RunHead)" using dr by (simp add: t(2))
  have hr': "\<forall>i\<in>set (heap_slots t). ProcNode i \<notin> set (L' RunHead)"
    unfolding hs t(2) using hr by (meson notin_set_remove1)
  have "\<forall>i\<in>set (heap_slots s). pass (procs t i) = pass (procs s i) - 0"
    using nh by (auto simp: t(3))
  then have hit: "heap_inv t" by (rule heap_inv_frame[OF hi t(8,9)])
  have a: "0 \<le> stride_size t" "distinct (heap_slots t)" "ptype (procs t p) = STRIDE"
    "state (procs t p) = RUNNABLE \<or> state (procs t p) = SLEEPING" "tickets (procs t p) \<noteq> 0"
    "p \<notin> set (heap_slots t)"
    using sz d tk nh t(4,5,7) by (simp_all add: hs t(3,9))
  from stridelogic_stride[OF t(1) hit a(1,2) hr' a(3,4,5,6) nr] obtain s' where
    sl: "stridelogic cfg (Some p) t = Some s'" and ok': "lists_ok cfg s' L'" and hi': "heap_inv s'" and
    el: "heap_elems s' = add_mset p (heap_elems t)" and
    pp: "procs s' p = (procs t p)\<lparr>pass := pass (procs t p) + STRD cfg (tickets (procs t p))\<rparr>"
    by blast
  have sr: "scheduler_return cfg p t = Some s'" using a(3) sl by (simp add: scheduler_return_def)
  have el': "heap_elems s' = add_mset p (heap_elems s)"
    using el hs by (simp add: heap_slots_elems[symmetric])
  show ?thesis
    apply (rule exI[of _ s'])
    using sr ok' hi' el' pp by (simp add: t(3,5,6))
qed

lemma dispatch_sleeping:
  assumes ok: "lists_ok cfg s L" and hi: "heap_inv s" and sz: "1 \<le> stride_size s"
    and d: "distinct (heap_slots s)"
    and hr: "\<forall>i\<in>set (heap_slots s). ProcNode i \<notin> set (L RunHead)"
    and gm: "getminpass cfg s < mlfq_pass s" and root: "stride_minheap s 1 = p"
    and ty: "ptype (procs s p) = STRIDE" and st: "state (procs s p) = SLEEPING"
    and tk: "tickets (procs s p) \<noteq> 0"
  shows "\<exists>s'. scheduler_dispatch cfg s = Some (Looped s') \<and> lists_ok cfg s' L \<and> heap_inv s' \<and>
           heap_elems s' = heap_elems s \<and> state (procs s' p) = SLEEPING \<and>
           pass (procs s' p) = pass (procs s p) + STRD cfg (tickets (procs s p))"
proof -
  from popheap_correct[OF hi sz] obtain s1 where
    ph: "popheap s = Some (p, s1)" and hi1: "heap_inv s1" and
    sz1: "stride_size s1 = stride_size s - 1" and
    el: "add_mset p (heap_elems s1) = heap_elems s" and
    rec: "s1 = s\<lparr>stride_size := stride_size s1, stride_minheap := stride_minheap s1\<rparr>"
    unfolding root by blast
  have f: "procs s1 = procs s" "lnext s1 = lnext s" "lprev s1 = lprev s"
    by (subst rec, simp)+
  have ms: "mset (p # heap_slots s1) = mset (heap_slots s)"
    using el by (simp add: heap_slots_elems)
  have dd: "distinct (p # heap_slots s1)" using mset_eq_imp_distinct_iff[OF ms] d by simp
  have ss: "set (p # heap_slots s1) = set (heap_slots s)" by (rule mset_eq_setD[OF ms])
  have ok1: "lists_ok cfg s1 L" by (rule lists_ok_links[OF ok f(2,3)])
  have a: "0 \<le> stride_size s1" "distinct (heap_slots s1)"
    "\<forall>i\<in>set (heap_slots s1). ProcNode i \<notin> set (L RunHead)"
    "ptype (procs s1 p) = STRIDE"
    "state (procs s1 p) = RUNNABLE \<or> state (procs s1 p) = SLEEPING"
    "tickets (procs s1 p) \<noteq> 0" "p \<notin> set (heap_slots s1)" "ProcNode p \<notin> set (L RunHead)"
    using sz sz1 dd ss hr ty st tk by (auto simp: f(1))
  from stridelogic_stride[OF ok1 hi1 a] obtain s' where
    sl: "stridelogic cfg (Some p) s1 = Some s'" and ok': "lists_ok cfg s' L" and hi': "heap_inv s'" and
    el': "heap_elems s' = add_mset p (heap_elems s1)" and
    pp: "procs s' p = (procs s1 p)\<lparr>pass := pass (procs s1 p) + STRD cfg (tickets (procs s1 p))\<rparr>"
    by blast
  have sel: "scheduler_select cfg s = Some (Some p, s1)"
    using gm by (simp add: scheduler_select_def ph)
  have nr: "state (procs s1 p) \<noteq> RUNNABLE" using st by (simp add: f(1))
  have sd: "scheduler_dispatch cfg s = Some (Looped s')"
    using nr by (simp add: scheduler_dispatch_def sel sl)
  show ?thesis
    apply (rule exI[of _ s'])
    using sd ok' hi' el' el pp st by (simp add: f(1))
qed

lemma stride_zombie:
  assumes ok: "lists_ok cfg s L" and d: "distinct (heap_slots s)"
    and hr: "\<forall>i\<in>set (heap_slots s). ProcNode i \<notin> set (L RunHead)"
    and ty: "ptype (procs s p) = STRIDE" and st: "state (procs s p) = ZOMBIE"
  shows "\<exists>s'. scheduler_return cfg p s = Some s' \<and> lists_ok cfg s' L \<and>
           stride_minheap s' = stride_minheap s \<and> stride_size s' = stride_size s"
proof -
  from rebase_facts[OF ok d hr, of "Some p"] obtain s1 where
    rb: "rebase cfg (Some p) s = Some s1" and
    l1: "lnext s1 = lnext s" "lprev s1 = lprev s" and
    h1: "stride_minheap s1 = stride_minheap s" "stride_size s1 = stride_size s" and
    fl: "\<forall>i. state (procs s1 i) = state (procs s i) \<and> ptype (procs s1 i) = ptype (procs s i) \<and>
                tickets (procs s1 i) = tickets (procs s i)"
    by blast
  have "advance_pass cfg (Some p) s1 = Some s1"
    using fl ty st by (simp add: advance_pass_def)
  then have "scheduler_return cfg p s = Some s1"
    using ty by (simp add: scheduler_return_def stridelogic_def rb)
  moreover have "lists_ok cfg s1 L" by (rule lists_ok_links[OF ok l1])
  ultimately show ?thesis using h1 by simp
qed

lemma ex_run_facts:
  "ptype (procs ex_run 1) = STRIDE" "tickets (procs ex_run 1) = 30" "pass (procs ex_run 1) = 1000400"
  "stride_size ex_run = 0" "heap_slots ex_run = []" "heap_elems ex_run = {#}" "heap_inv ex_run"
  "mlfq_pass ex_run = 1000500" "ex_run_lists RunHead = [ProcNode 1]"
  "ex_run_lists SleepHead = [ProcNode 0]"
  by (simp_all add: ex_run_def bss_def proc0_def heap_slots_def heap_elems_def heap_inv_def
      heap_ok_def ex_run_lists_def)

lemma ex_sleep_facts:
  "ptype (procs ex_sleep 1) = STRIDE" "tickets (procs ex_sleep 1) = 30" "pass (procs ex_sleep 1) = 400"
  "state (procs ex_sleep 1) = SLEEPING"
  "stride_size ex_sleep = 1" "stride_minheap ex_sleep 1 = 1" "heap_slots ex_sleep = [1]"
  "heap_elems ex_sleep = {#1#}" "heap_inv ex_sleep"
  "mlfq_pass ex_sleep = 500" "ex_sleep_lists RunHead = []"
  "ex_sleep_lists SleepHead = [ProcNode 1, ProcNode 0]"
  by (simp_all add: ex_sleep_def bss_def proc0_def heap_slots_def heap_elems_def heap_inv_def
      heap_ok_def ex_sleep_lists_def upto_rec1)

lemma strd_ex: "STRD cfg_ex 30 = 333" "BARRIER cfg_ex = 1000000"
  by (simp_all add: STRD_def cdiv_def cfg_ex_def)

section \<open>Claims about the MLFQ queues and pins\<close>

text \<open>
  Claim C9. Pin validity: for each level \<open>l\<close>, \<^verbatim>\<open>pin[l]\<close> is the sentinel head of
  \<^verbatim>\<open>queue[l]\<close> or a node linked into \<^verbatim>\<open>queue[l]\<close>. \<^verbatim>\<open>pinit\<close> establishes it, and on
  well-formed lists it is preserved by \<^verbatim>\<open>enqueue\<close> (of a node that is on no list),
  by \<^verbatim>\<open>dequeue\<close> (of a process on the queue of its \<^verbatim>\<open>privlevel\<close>; a pin that points
  at the removed node is first advanced to its successor), by \<^verbatim>\<open>concatqueue\<close>
  (which moves or resets the two pins) and by \<^verbatim>\<open>mlfqselect\<close>. The lists stay well
  formed, with the stated contents.
\<close>

theorem C9_pin_validity:
  assumes "lists_ok cfg s L" and "pins_ok cfg s L"
  shows "pins_ok cfg (pinit cfg t) (\<lambda>h. if h = FreeHead then map ProcNode [0..<NPROC cfg] else []) \<and>
         (\<forall>l p. l < QSIZE cfg \<and> (\<forall>h\<in>set (heads cfg). ProcNode p \<notin> set (L h)) \<longrightarrow>
            lists_ok cfg (enqueue l p s) (L(QueueHead l := L (QueueHead l) @ [ProcNode p])) \<and>
            pins_ok cfg (enqueue l p s) (L(QueueHead l := L (QueueHead l) @ [ProcNode p]))) \<and>
         (\<forall>p. privlevel (procs s p) < QSIZE cfg \<and>
              ProcNode p \<in> set (L (QueueHead (privlevel (procs s p)))) \<longrightarrow>
            lists_ok cfg (dequeue p s)
              (L(QueueHead (privlevel (procs s p)) :=
                   remove1 (ProcNode p) (L (QueueHead (privlevel (procs s p)))))) \<and>
            pins_ok cfg (dequeue p s)
              (L(QueueHead (privlevel (procs s p)) :=
                   remove1 (ProcNode p) (L (QueueHead (privlevel (procs s p)))))) \<and>
            (mlfq_pin s (privlevel (procs s p)) = ProcNode p \<longrightarrow>
               mlfq_pin (dequeue p s) (privlevel (procs s p)) = lnext s (ProcNode p))) \<and>
         (\<forall>src dst. src < QSIZE cfg \<and> dst < QSIZE cfg \<and> src \<noteq> dst \<longrightarrow>
            lists_ok cfg (concatqueue src dst s)
              (L(QueueHead src := [], QueueHead dst := L (QueueHead dst) @ L (QueueHead src))) \<and>
            pins_ok cfg (concatqueue src dst s)
              (L(QueueHead src := [], QueueHead dst := L (QueueHead dst) @ L (QueueHead src)))) \<and>
         (\<exists>r s'. mlfqselect cfg s = Some (r, s') \<and> lists_ok cfg s' L \<and> pins_ok cfg s' L)"
proof (intro conjI allI impI)
  show "pins_ok cfg (pinit cfg t) (\<lambda>h. if h = FreeHead then map ProcNode [0..<NPROC cfg] else [])"
    using pinit_lists by blast
next
  fix l p assume a: "l < QSIZE cfg \<and> (\<forall>h\<in>set (heads cfg). ProcNode p \<notin> set (L h))"
  show "lists_ok cfg (enqueue l p s) (L(QueueHead l := L (QueueHead l) @ [ProcNode p]))"
    using enqueue_lists[OF assms(1)] a by blast
  show "pins_ok cfg (enqueue l p s) (L(QueueHead l := L (QueueHead l) @ [ProcNode p]))"
    by (rule enqueue_pins[OF assms(2)])
next
  fix p
  assume a: "privlevel (procs s p) < QSIZE cfg \<and>
             ProcNode p \<in> set (L (QueueHead (privlevel (procs s p))))"
  show "lists_ok cfg (dequeue p s)
          (L(QueueHead (privlevel (procs s p)) :=
               remove1 (ProcNode p) (L (QueueHead (privlevel (procs s p))))))"
    using dequeue_lists[OF assms(1)] a by blast
  show "pins_ok cfg (dequeue p s)
          (L(QueueHead (privlevel (procs s p)) :=
               remove1 (ProcNode p) (L (QueueHead (privlevel (procs s p))))))"
    using dequeue_pins[OF assms] a by blast
  assume "mlfq_pin s (privlevel (procs s p)) = ProcNode p"
  then show "mlfq_pin (dequeue p s) (privlevel (procs s p)) = lnext s (ProcNode p)"
    unfolding dequeue_pin by (simp only: simp_thms if_True fun_upd_same)
next
  fix src dst assume a: "src < QSIZE cfg \<and> dst < QSIZE cfg \<and> src \<noteq> dst"
  show "lists_ok cfg (concatqueue src dst s)
          (L(QueueHead src := [], QueueHead dst := L (QueueHead dst) @ L (QueueHead src)))"
    using concatqueue_lists[OF assms(1)] a by blast
  show "pins_ok cfg (concatqueue src dst s)
          (L(QueueHead src := [], QueueHead dst := L (QueueHead dst) @ L (QueueHead src)))"
    using concatqueue_pins[OF assms] a by blast
next
  let ?f = "find (\<lambda>l. level_pick s L l \<noteq> None) [0..<QSIZE cfg]"
  have m: "mlfqselect cfg s =
           Some (case ?f of
                   None \<Rightarrow> (None, s)
                 | Some l \<Rightarrow> (list_entry (the (level_pick s L l)),
                              s\<lparr>mlfq_pin := (mlfq_pin s)(l := the (level_pick s L l))\<rparr>))"
    unfolding mlfqselect_def by (rule mlfqselect_levels_correct[OF assms]) simp
  show "\<exists>r s'. mlfqselect cfg s = Some (r, s') \<and> lists_ok cfg s' L \<and> pins_ok cfg s' L"
  proof (cases ?f)
    case None
    then show ?thesis using m assms by simp
  next
    case (Some l)
    then have l: "l < QSIZE cfg" and pk: "level_pick s L l \<noteq> None"
      by (auto simp: find_Some_iff)
    then obtain n where n: "level_pick s L l = Some n" by auto
    have nin: "n \<in> set (L (QueueHead l))" using level_pick_in[OF assms l n] by simp
    let ?s' = "s\<lparr>mlfq_pin := (mlfq_pin s)(l := n)\<rparr>"
    have "lists_ok cfg ?s' L" by (rule lists_ok_links[OF assms(1)]) simp_all
    moreover have "pins_ok cfg ?s' L" using assms(2) nin by (simp add: pins_ok_def)
    ultimately show ?thesis using m Some n by simp
  qed
qed

theorem C9_pin_validity_witness:
  "lists_ok cfg_ex ex_mlfq ex_mlfq_lists \<and> pins_ok cfg_ex ex_mlfq ex_mlfq_lists \<and>
   pins_ok cfg_ex (pinit cfg_ex bss) (\<lambda>h. if h = FreeHead then map ProcNode [0..<NPROC cfg_ex] else []) \<and>
   pins_ok cfg_ex (enqueue 0 3 ex_mlfq) (ex_mlfq_lists(QueueHead 0 := [ProcNode 0, ProcNode 1, ProcNode 3])) \<and>
   pins_ok cfg_ex (dequeue 1 ex_mlfq) (ex_mlfq_lists(QueueHead 0 := [ProcNode 0])) \<and>
   mlfq_pin (dequeue 1 ex_mlfq) 0 = QueueHead 0 \<and>
   pins_ok cfg_ex (concatqueue 1 0 ex_mlfq)
     (ex_mlfq_lists(QueueHead 1 := [], QueueHead 0 := [ProcNode 0, ProcNode 1, ProcNode 2])) \<and>
   (\<exists>r s'. mlfqselect cfg_ex ex_mlfq = Some (r, s') \<and> pins_ok cfg_ex s' ex_mlfq_lists)"
proof -
  note t = C9_pin_validity[OF ex_mlfq_ok ex_mlfq_pins, of bss]
  have lv: "privlevel (procs ex_mlfq 1) = 0" "lnext ex_mlfq (ProcNode 1) = QueueHead 0"
    "mlfq_pin ex_mlfq 0 = ProcNode 1"
    by (simp_all add: ex_mlfq_def bss_def proc0_def)
  have q: "(1::nat) < QSIZE cfg_ex" "(0::nat) < QSIZE cfg_ex" by (simp_all add: cfg_ex_def)
  have l0: "ex_mlfq_lists (QueueHead 0) = [ProcNode 0, ProcNode 1]"
    "ex_mlfq_lists (QueueHead 1) = [ProcNode 2]"
    by (simp_all add: ex_mlfq_lists_def)
  from t have e: "(0::nat) < QSIZE cfg_ex \<and> (\<forall>h\<in>set (heads cfg_ex). ProcNode 3 \<notin> set (ex_mlfq_lists h)) \<longrightarrow>
            pins_ok cfg_ex (enqueue 0 3 ex_mlfq)
              (ex_mlfq_lists(QueueHead 0 := ex_mlfq_lists (QueueHead 0) @ [ProcNode 3]))"
    by blast
  have fr: "\<forall>h\<in>set (heads cfg_ex). ProcNode 3 \<notin> set (ex_mlfq_lists h)"
    by (simp add: heads_ex ex_mlfq_lists_def)
  have e': "pins_ok cfg_ex (enqueue 0 3 ex_mlfq)
              (ex_mlfq_lists(QueueHead 0 := [ProcNode 0, ProcNode 1, ProcNode 3]))"
    using e fr q unfolding l0 by simp
  from t have d: "privlevel (procs ex_mlfq 1) < QSIZE cfg_ex \<and>
              ProcNode 1 \<in> set (ex_mlfq_lists (QueueHead (privlevel (procs ex_mlfq 1)))) \<longrightarrow>
            pins_ok cfg_ex (dequeue 1 ex_mlfq)
              (ex_mlfq_lists(QueueHead (privlevel (procs ex_mlfq 1)) :=
                   remove1 (ProcNode 1) (ex_mlfq_lists (QueueHead (privlevel (procs ex_mlfq 1)))))) \<and>
            (mlfq_pin ex_mlfq (privlevel (procs ex_mlfq 1)) = ProcNode 1 \<longrightarrow>
               mlfq_pin (dequeue 1 ex_mlfq) (privlevel (procs ex_mlfq 1)) = lnext ex_mlfq (ProcNode 1))"
    by blast
  have d': "pins_ok cfg_ex (dequeue 1 ex_mlfq) (ex_mlfq_lists(QueueHead 0 := [ProcNode 0])) \<and>
            mlfq_pin (dequeue 1 ex_mlfq) 0 = QueueHead 0"
    using d unfolding lv l0 using q by simp
  from t have c: "(1::nat) < QSIZE cfg_ex \<and> (0::nat) < QSIZE cfg_ex \<and> (1::nat) \<noteq> 0 \<longrightarrow>
            pins_ok cfg_ex (concatqueue 1 0 ex_mlfq)
              (ex_mlfq_lists(QueueHead 1 := [], QueueHead 0 := ex_mlfq_lists (QueueHead 0) @ ex_mlfq_lists (QueueHead 1)))"
    by blast
  have c': "pins_ok cfg_ex (concatqueue 1 0 ex_mlfq)
     (ex_mlfq_lists(QueueHead 1 := [], QueueHead 0 := [ProcNode 0, ProcNode 1, ProcNode 2]))"
    using c q unfolding l0 by simp
  from t have m: "\<exists>r s'. mlfqselect cfg_ex ex_mlfq = Some (r, s') \<and> pins_ok cfg_ex s' ex_mlfq_lists"
    by blast
  from t have p: "pins_ok cfg_ex (pinit cfg_ex bss)
       (\<lambda>h. if h = FreeHead then map ProcNode [0..<NPROC cfg_ex] else [])"
    by blast
  show ?thesis using ex_mlfq_ok ex_mlfq_pins e' d' c' m p by simp
qed

text \<open>
  Claim C8. On well-formed queues with valid pins \<^verbatim>\<open>mlfqselect\<close> returns. It scans the
  levels \<open>0 .. QSIZE-1\<close> in increasing order; at a level it visits the cycle of the
  queue once, starting at \<^verbatim>\<open>pin[l]\<close> (\<open>rotate_to\<close>), and the first node that is not the
  sentinel head and holds a RUNNABLE process (\<open>level_pick\<close>) is returned, with
  \<^verbatim>\<open>pin[l]\<close> set to that node and nothing else changed. If no level holds a RUNNABLE
  process the result is the null pointer and the state is unchanged.
\<close>

theorem C8_mlfqselect:
  assumes "lists_ok cfg s L" and "pins_ok cfg s L"
  shows "mlfqselect cfg s =
           Some (case find (\<lambda>l. level_pick s L l \<noteq> None) [0..<QSIZE cfg] of
                   None \<Rightarrow> (None, s)
                 | Some l \<Rightarrow> (list_entry (the (level_pick s L l)),
                              s\<lparr>mlfq_pin := (mlfq_pin s)(l := the (level_pick s L l))\<rparr>)) \<and>
         ((\<forall>l<QSIZE cfg. \<forall>n\<in>set (L (QueueHead l)). \<not> runnable_node s (QueueHead l) n) \<longrightarrow>
            mlfqselect cfg s = Some (None, s))"
proof
  let ?f = "find (\<lambda>l. level_pick s L l \<noteq> None) [0..<QSIZE cfg]"
  show m: "mlfqselect cfg s =
           Some (case ?f of
                   None \<Rightarrow> (None, s)
                 | Some l \<Rightarrow> (list_entry (the (level_pick s L l)),
                              s\<lparr>mlfq_pin := (mlfq_pin s)(l := the (level_pick s L l))\<rparr>))"
    unfolding mlfqselect_def by (rule mlfqselect_levels_correct[OF assms]) simp
  show "(\<forall>l<QSIZE cfg. \<forall>n\<in>set (L (QueueHead l)). \<not> runnable_node s (QueueHead l) n) \<longrightarrow>
          mlfqselect cfg s = Some (None, s)"
  proof
    assume no: "\<forall>l<QSIZE cfg. \<forall>n\<in>set (L (QueueHead l)). \<not> runnable_node s (QueueHead l) n"
    have "?f = None"
    proof (cases ?f)
      case None
      then show ?thesis .
    next
      case (Some l)
      then have l: "l < QSIZE cfg" and pk: "level_pick s L l \<noteq> None"
        by (auto simp: find_Some_iff)
      then obtain n where n: "level_pick s L l = Some n" by auto
      from level_pick_in[OF assms l n] no l show ?thesis by blast
    qed
    then show "mlfqselect cfg s = Some (None, s)" using m by simp
  qed
qed

lemma ex_mlfq_pick0: "level_pick ex_mlfq ex_mlfq_lists 0 = Some (ProcNode 0)"
  by (simp add: level_pick_def rotate_to_def runnable_node_def ex_mlfq_lists_def ex_mlfq_def
      bss_def proc0_def)

theorem C8_mlfqselect_witness:
  "lists_ok cfg_ex ex_mlfq ex_mlfq_lists \<and> pins_ok cfg_ex ex_mlfq ex_mlfq_lists \<and>
   mlfqselect cfg_ex ex_mlfq = Some (Some 0, ex_mlfq\<lparr>mlfq_pin := (mlfq_pin ex_mlfq)(0 := ProcNode 0)\<rparr>) \<and>
   mlfqselect cfg_ex (pinit cfg_ex bss) = Some (None, pinit cfg_ex bss)"
proof -
  let ?L0 = "\<lambda>h. if h = FreeHead then map ProcNode [0..<NPROC cfg_ex] else []"
  have p0: "lists_ok cfg_ex (pinit cfg_ex bss) ?L0" "pins_ok cfg_ex (pinit cfg_ex bss) ?L0"
    using pinit_lists[of cfg_ex bss] by blast+
  have "\<forall>l<QSIZE cfg_ex. \<forall>n\<in>set (?L0 (QueueHead l)). \<not> runnable_node (pinit cfg_ex bss) (QueueHead l) n"
    by simp
  with C8_mlfqselect[OF p0] have e: "mlfqselect cfg_ex (pinit cfg_ex bss) = Some (None, pinit cfg_ex bss)"
    by blast
  have f: "find (\<lambda>l. level_pick ex_mlfq ex_mlfq_lists l \<noteq> None) [0..<QSIZE cfg_ex] = Some 0"
    by (simp add: cfg_ex_def upt_rec ex_mlfq_pick0)
  from C8_mlfqselect[OF ex_mlfq_ok ex_mlfq_pins]
  have "mlfqselect cfg_ex ex_mlfq =
          Some (Some 0, ex_mlfq\<lparr>mlfq_pin := (mlfq_pin ex_mlfq)(0 := ProcNode 0)\<rparr>)"
    unfolding f by (simp add: ex_mlfq_pick0)
  then show ?thesis using ex_mlfq_ok ex_mlfq_pins e by simp
qed

section \<open>Claims about sleep, wakeup and kill\<close>

text \<open>
  Claim C4, as amended. On well-formed lists, \<^verbatim>\<open>wakeup1(c)\<close> returns, and every process
  on the sleep list whose channel is \<open>c\<close> is unlinked from the sleep list and set
  RUNNABLE; an MLFQ process is appended to the queue of its current \<^verbatim>\<open>privlevel\<close>, a
  STRIDE process is put on no list. \<^verbatim>\<open>kill(pid)\<close> does the same to a SLEEPING target
  (after setting \<^verbatim>\<open>killed\<close>) and returns 0. Neither function touches the stride heap:
  there is no \<^verbatim>\<open>pushheap\<close>, a sleeping STRIDE process has stayed in the heap.
\<close>

theorem C4_wakeup_kill:
  assumes "lists_ok cfg s L"
    and "\<forall>p. ProcNode p \<in> set (L SleepHead) \<and> ptype (procs s p) = MLFQ
             \<longrightarrow> privlevel (procs s p) < QSIZE cfg"
  shows "(\<exists>s'. wakeup1 c s = Some s' \<and>
               lists_ok cfg s' (wake_lists c (procs s) L [] (L SleepHead)) \<and>
               stride_minheap s' = stride_minheap s \<and> stride_size s' = stride_size s \<and>
               (\<forall>p. ProcNode p \<in> set (L SleepHead) \<and> chan (procs s p) = c \<longrightarrow>
                  state (procs s' p) = RUNNABLE \<and>
                  ProcNode p \<notin> set (wake_lists c (procs s) L [] (L SleepHead) SleepHead) \<and>
                  (ptype (procs s p) = MLFQ \<longrightarrow>
                     ProcNode p \<in> set (wake_lists c (procs s) L [] (L SleepHead)
                                          (QueueHead (privlevel (procs s p))))) \<and>
                  (ptype (procs s p) = STRIDE \<longrightarrow>
                     (\<forall>h\<in>set (heads cfg).
                        ProcNode p \<notin> set (wake_lists c (procs s) L [] (L SleepHead) h))))) \<and>
         (\<forall>i. find (\<lambda>j. pid (procs s j) = k) [0..<NPROC cfg] = Some i \<and>
              state (procs s i) = SLEEPING \<and> ProcNode i \<in> set (L SleepHead) \<longrightarrow>
            fst (kill cfg k s) = 0 \<and>
            lists_ok cfg (snd (kill cfg k s)) (wake_one_lists (procs s) i L) \<and>
            stride_minheap (snd (kill cfg k s)) = stride_minheap s \<and>
            stride_size (snd (kill cfg k s)) = stride_size s \<and>
            killed (procs (snd (kill cfg k s)) i) = 1 \<and>
            state (procs (snd (kill cfg k s)) i) = RUNNABLE \<and>
            wake_one_lists (procs s) i L SleepHead = remove1 (ProcNode i) (L SleepHead) \<and>
            (ptype (procs s i) = MLFQ \<longrightarrow>
               wake_one_lists (procs s) i L (QueueHead (privlevel (procs s i))) =
                 L (QueueHead (privlevel (procs s i))) @ [ProcNode i]) \<and>
            (ptype (procs s i) = STRIDE \<longrightarrow>
               (\<forall>h\<in>set (heads cfg). ProcNode i \<notin> set (wake_one_lists (procs s) i L h))))"
proof (intro conjI allI impI)
  let ?L' = "wake_lists c (procs s) L [] (L SleepHead)"
  have lv: "\<forall>p. ProcNode p \<in> set (L SleepHead) \<and> chan (procs s p) = c \<and> ptype (procs s p) = MLFQ
         \<longrightarrow> privlevel (procs s p) < QSIZE cfg" using assms(2) by blast
  from wakeup1_correct[OF assms(1) lv] obtain s' where
    r: "wakeup1 c s = Some s'" "lists_ok cfg s' ?L'"
       "procs s' = wake_procs c (L SleepHead) (procs s)"
       "s' = s\<lparr>procs := procs s', lnext := lnext s', lprev := lprev s'\<rparr>"
    by blast
  have hp: "stride_minheap s' = stride_minheap s" "stride_size s' = stride_size s"
    by (subst r(4), simp)+
  have each: "state (procs s' p) = RUNNABLE \<and>
              ProcNode p \<notin> set (?L' SleepHead) \<and>
              (ptype (procs s p) = MLFQ \<longrightarrow> ProcNode p \<in> set (?L' (QueueHead (privlevel (procs s p))))) \<and>
              (ptype (procs s p) = STRIDE \<longrightarrow> (\<forall>h\<in>set (heads cfg). ProcNode p \<notin> set (?L' h)))"
    if p: "ProcNode p \<in> set (L SleepHead) \<and> chan (procs s p) = c" for p
  proof (intro conjI impI ballI)
    show "state (procs s' p) = RUNNABLE" using p by (simp add: r(3) wake_procs_def)
    show "ProcNode p \<notin> set (?L' SleepHead)" using p by (simp add: wake_lists_sleep)
    show "ProcNode p \<in> set (?L' (QueueHead (privlevel (procs s p))))" if "ptype (procs s p) = MLFQ"
      using p that by (simp add: wake_lists_queue)
    show "ProcNode p \<notin> set (?L' h)" if "ptype (procs s p) = STRIDE" "h \<in> set (heads cfg)" for h
      using wake_lists_stride[of cfg s L p "procs s" c h] assms(1) that p by blast
  qed
  show "\<exists>s'. wakeup1 c s = Some s' \<and> lists_ok cfg s' ?L' \<and>
               stride_minheap s' = stride_minheap s \<and> stride_size s' = stride_size s \<and>
               (\<forall>p. ProcNode p \<in> set (L SleepHead) \<and> chan (procs s p) = c \<longrightarrow>
                  state (procs s' p) = RUNNABLE \<and>
                  ProcNode p \<notin> set (?L' SleepHead) \<and>
                  (ptype (procs s p) = MLFQ \<longrightarrow>
                     ProcNode p \<in> set (?L' (QueueHead (privlevel (procs s p))))) \<and>
                  (ptype (procs s p) = STRIDE \<longrightarrow>
                     (\<forall>h\<in>set (heads cfg). ProcNode p \<notin> set (?L' h))))"
    using r(1,2) hp each by blast
next
  fix i
  assume a: "find (\<lambda>j. pid (procs s j) = k) [0..<NPROC cfg] = Some i \<and>
             state (procs s i) = SLEEPING \<and> ProcNode i \<in> set (L SleepHead)"
  let ?s1 = "upd_proc i (\<lambda>x. x\<lparr>killed := 1\<rparr>) s"
  have kl: "kill cfg k s = (0, wake_one i ?s1)"
    using a by (simp add: kill_def kill_scan_eq)
  have ok1: "lists_ok cfg ?s1 L" by (rule lists_ok_links[OF assms(1)]) simp_all
  have lv: "ptype (procs ?s1 i) = MLFQ \<longrightarrow> privlevel (procs ?s1 i) < QSIZE cfg"
    using assms(2) a by simp
  have same: "wake_one_lists (procs ?s1) i L = wake_one_lists (procs s) i L"
    by (simp add: wake_one_lists_def Let_def)
  show "fst (kill cfg k s) = 0" by (simp add: kl)
  have "lists_ok cfg (wake_one i ?s1) (wake_one_lists (procs ?s1) i L)"
    using wake_one_lists_ok[OF ok1 _ lv] a by blast
  then show "lists_ok cfg (snd (kill cfg k s)) (wake_one_lists (procs s) i L)"
    unfolding kl snd_conv same .
  show "stride_minheap (snd (kill cfg k s)) = stride_minheap s"
    unfolding kl snd_conv by (subst wake_one_fields(2)) simp
  show "stride_size (snd (kill cfg k s)) = stride_size s"
    unfolding kl snd_conv by (subst wake_one_fields(2)) simp
  show "killed (procs (snd (kill cfg k s)) i) = 1" by (simp add: kl wake_one_fields(1))
  show "state (procs (snd (kill cfg k s)) i) = RUNNABLE" by (simp add: kl wake_one_fields(1))
  show "wake_one_lists (procs s) i L SleepHead = remove1 (ProcNode i) (L SleepHead)"
    by (simp add: wake_one_lists_def Let_def)
  have other: "ProcNode i \<notin> set (L h)" if "h \<in> set (heads cfg)" "h \<noteq> SleepHead" for h
    using lists_ok_unique[OF assms(1) that(1) special_heads(2)] a that(2) by blast
  have dist: "distinct (L SleepHead)" by (rule lists_ok_distinct[OF assms(1) special_heads(2)])
  show "wake_one_lists (procs s) i L (QueueHead (privlevel (procs s i))) =
          L (QueueHead (privlevel (procs s i))) @ [ProcNode i]" if "ptype (procs s i) = MLFQ"
    using that by (simp add: wake_one_lists_def Let_def)
  show "\<forall>h\<in>set (heads cfg). ProcNode i \<notin> set (wake_one_lists (procs s) i L h)"
    if st: "ptype (procs s i) = STRIDE"
  proof
    fix h assume h: "h \<in> set (heads cfg)"
    show "ProcNode i \<notin> set (wake_one_lists (procs s) i L h)"
      using st other[OF h] dist by (cases "h = SleepHead") (simp_all add: wake_one_lists_def Let_def)
  qed
qed

theorem C4_wakeup_kill_counterexample:
  "ptype (procs ex_sleep 1) = STRIDE \<and> state (procs ex_sleep 1) = SLEEPING \<and>
   chan (procs ex_sleep 1) = AddrChan 7 \<and>
   map_option stride_size (wakeup1 (AddrChan 7) ex_sleep) = Some (stride_size ex_sleep) \<and>
   map_option stride_minheap (wakeup1 (AddrChan 7) ex_sleep) = Some (stride_minheap ex_sleep) \<and>
   map_option stride_size (wakeup1 (AddrChan 7) ex_sleep) \<noteq> Some (stride_size ex_sleep + 1)"
proof -
  have lv: "\<forall>p. ProcNode p \<in> set (ex_sleep_lists SleepHead) \<and> chan (procs ex_sleep p) = AddrChan 7 \<and>
                ptype (procs ex_sleep p) = MLFQ \<longrightarrow> privlevel (procs ex_sleep p) < QSIZE cfg_ex"
    using ex_sleep_levels by blast
  from wakeup1_correct[OF ex_sleep_ok lv] obtain s' where
    r: "wakeup1 (AddrChan 7) ex_sleep = Some s'"
       "s' = ex_sleep\<lparr>procs := procs s', lnext := lnext s', lprev := lprev s'\<rparr>"
    by blast
  have "stride_minheap s' = stride_minheap ex_sleep" "stride_size s' = stride_size ex_sleep"
    by (subst r(2), simp)+
  moreover have "ptype (procs ex_sleep 1) = STRIDE" "state (procs ex_sleep 1) = SLEEPING"
    "chan (procs ex_sleep 1) = AddrChan 7"
    by (simp_all add: ex_sleep_def bss_def proc0_def)
  ultimately show ?thesis using r(1) by simp
qed

theorem C4_wakeup_kill_witness:
  "lists_ok cfg_ex ex_sleep ex_sleep_lists \<and>
   (\<exists>s'. wakeup1 (AddrChan 7) ex_sleep = Some s' \<and>
         lists_ok cfg_ex s' (ex_sleep_lists(SleepHead := [], QueueHead 1 := [ProcNode 0])) \<and>
         state (procs s' 0) = RUNNABLE \<and> state (procs s' 1) = RUNNABLE \<and>
         stride_size s' = 1) \<and>
   fst (kill cfg_ex 2 ex_sleep) = 0 \<and>
   lists_ok cfg_ex (snd (kill cfg_ex 2 ex_sleep)) (ex_sleep_lists(SleepHead := [ProcNode 0])) \<and>
   state (procs (snd (kill cfg_ex 2 ex_sleep)) 1) = RUNNABLE \<and>
   stride_size (snd (kill cfg_ex 2 ex_sleep)) = 1"
proof -
  note t = C4_wakeup_kill[OF ex_sleep_ok ex_sleep_levels, of "AddrChan 7" 2]
  have wl: "wake_lists (AddrChan 7) (procs ex_sleep) ex_sleep_lists [] (ex_sleep_lists SleepHead) =
            ex_sleep_lists(SleepHead := [], QueueHead 1 := [ProcNode 0])"
    by (auto simp: wake_lists_def woken_def woken_to_def ex_sleep_lists_def ex_sleep_def bss_def
        proc0_def fun_eq_iff split: lnode.splits)
  have f: "find (\<lambda>j. pid (procs ex_sleep j) = 2) [0..<NPROC cfg_ex] = Some 1"
    by (simp add: cfg_ex_def upt_rec ex_sleep_def bss_def proc0_def)
  have k: "state (procs ex_sleep 1) = SLEEPING" "ProcNode 1 \<in> set (ex_sleep_lists SleepHead)"
    "chan (procs ex_sleep 1) = AddrChan 7" "chan (procs ex_sleep 0) = AddrChan 7"
    "ProcNode 0 \<in> set (ex_sleep_lists SleepHead)" "stride_size ex_sleep = 1"
    by (simp_all add: ex_sleep_def bss_def proc0_def ex_sleep_lists_def)
  have ol: "wake_one_lists (procs ex_sleep) 1 ex_sleep_lists = ex_sleep_lists(SleepHead := [ProcNode 0])"
    by (simp add: wake_one_lists_def ex_sleep_lists_def ex_sleep_def bss_def proc0_def Let_def)
  from t obtain s' where
    w: "wakeup1 (AddrChan 7) ex_sleep = Some s'"
       "lists_ok cfg_ex s' (ex_sleep_lists(SleepHead := [], QueueHead 1 := [ProcNode 0]))"
       "stride_size s' = stride_size ex_sleep"
       "\<forall>p. ProcNode p \<in> set (ex_sleep_lists SleepHead) \<and> chan (procs ex_sleep p) = AddrChan 7 \<longrightarrow>
            state (procs s' p) = RUNNABLE"
    unfolding wl by blast
  have w': "state (procs s' 0) = RUNNABLE" "state (procs s' 1) = RUNNABLE"
    using w(4) k by blast+
  from t f k have kk: "fst (kill cfg_ex 2 ex_sleep) = 0 \<and>
      lists_ok cfg_ex (snd (kill cfg_ex 2 ex_sleep)) (wake_one_lists (procs ex_sleep) 1 ex_sleep_lists) \<and>
      stride_size (snd (kill cfg_ex 2 ex_sleep)) = stride_size ex_sleep \<and>
      state (procs (snd (kill cfg_ex 2 ex_sleep)) 1) = RUNNABLE"
    by blast
  show ?thesis using ex_sleep_ok w w' kk k(6) unfolding ol by auto
qed

section \<open>Claims about the ticket pool\<close>

text \<open>
  Claim C1. Ticket conservation: \<^verbatim>\<open>mlfq.tickets\<close> plus the tickets of all STRIDE
  processes that are RUNNABLE, SLEEPING or RUNNING is 100. \<^verbatim>\<open>pinit\<close> establishes it
  (\<^verbatim>\<open>mlfq.tickets = 100\<close>, no such process); every call of \<^verbatim>\<open>set_cpu_share\<close> by a
  live process preserves it (a failing call changes nothing); \<^verbatim>\<open>exit\<close> of a live
  process returns, preserves it, and for a STRIDE process adds its tickets back to
  \<^verbatim>\<open>mlfq.tickets\<close>.
\<close>

theorem C1_ticket_conservation:
  "((\<forall>i<NPROC cfg. \<not> (ptype (procs t i) = STRIDE \<and> active (state (procs t i)))) \<longrightarrow>
      mlfq_tickets (pinit cfg t) = 100 \<and> tickets_conserved cfg (pinit cfg t)) \<and>
   (tickets_conserved cfg s \<and> cur < NPROC cfg \<and> active (state (procs s cur)) \<longrightarrow>
      tickets_conserved cfg (snd (set_cpu_share cfg cur share s))) \<and>
   (tickets_conserved cfg s \<and> cur < NPROC cfg \<and> active (state (procs s cur)) \<and>
    lists_ok cfg s L \<and> sleepers_ok cfg s L \<and>
    ring s (ChildrenHead cur) cs \<and> (\<forall>n\<in>set cs. \<exists>c. n = SiblingNode c) \<and>
    initproc s = Some ini \<and> ini \<noteq> cur \<longrightarrow>
      (\<exists>s'. exit cur s = Some s' \<and> tickets_conserved cfg s' \<and>
            mlfq_tickets s' = mlfq_tickets s +
              (if ptype (procs s cur) = STRIDE then tickets (procs s cur) else 0)))"
proof (intro conjI impI)
  assume "\<forall>i<NPROC cfg. \<not> (ptype (procs t i) = STRIDE \<and> active (state (procs t i)))"
  then show "mlfq_tickets (pinit cfg t) = 100" "tickets_conserved cfg (pinit cfg t)"
    using pinit_conserved by blast+
next
  assume "tickets_conserved cfg s \<and> cur < NPROC cfg \<and> active (state (procs s cur))"
  then show "tickets_conserved cfg (snd (set_cpu_share cfg cur share s))"
    using set_cpu_share_conserved by blast
next
  assume a: "tickets_conserved cfg s \<and> cur < NPROC cfg \<and> active (state (procs s cur)) \<and>
    lists_ok cfg s L \<and> sleepers_ok cfg s L \<and>
    ring s (ChildrenHead cur) cs \<and> (\<forall>n\<in>set cs. \<exists>c. n = SiblingNode c) \<and>
    initproc s = Some ini \<and> ini \<noteq> cur"
  show "\<exists>s'. exit cur s = Some s' \<and> tickets_conserved cfg s' \<and>
            mlfq_tickets s' = mlfq_tickets s +
              (if ptype (procs s cur) = STRIDE then tickets (procs s cur) else 0)"
    by (rule exit_conserved[of cfg s cur L cs ini]) (use a in blast)+
qed

theorem C1_ticket_conservation_witness:
  "mlfq_tickets (pinit cfg_ex bss) = 100 \<and> tickets_conserved cfg_ex (pinit cfg_ex bss) \<and>
   tickets_conserved cfg_ex ex_run \<and>
   tickets_conserved cfg_ex (snd (set_cpu_share cfg_ex 2 30 ex_run)) \<and>
   (\<exists>s'. exit 1 ex_run = Some s' \<and> tickets_conserved cfg_ex s' \<and> mlfq_tickets s' = 100)"
proof -
  note t = C1_ticket_conservation[of cfg_ex bss ex_run _ _ ex_run_lists "[]" 0]
  have b: "\<forall>i<NPROC cfg_ex. \<not> (ptype (procs bss i) = STRIDE \<and> active (state (procs bss i)))"
    by (simp add: bss_def proc0_def)
  have a2: "(2::nat) < NPROC cfg_ex" "active (state (procs ex_run 2))"
    and a1: "(1::nat) < NPROC cfg_ex" "active (state (procs ex_run 1))"
    by (simp_all add: cfg_ex_def ex_run_def bss_def proc0_def active_def)
  have ch: "ring ex_run (ChildrenHead 1) []" "initproc ex_run = Some 0"
    "ptype (procs ex_run 1) = STRIDE" "tickets (procs ex_run 1) = 30" "mlfq_tickets ex_run = 70"
    by (simp_all add: ring_def ex_run_def bss_def proc0_def)
  have p: "mlfq_tickets (pinit cfg_ex bss) = 100 \<and> tickets_conserved cfg_ex (pinit cfg_ex bss)"
    using t b by blast
  have s: "tickets_conserved cfg_ex (snd (set_cpu_share cfg_ex 2 30 ex_run))"
    using t[of 2 30] ex_run_conserved a2 by blast
  have "\<exists>s'. exit 1 ex_run = Some s' \<and> tickets_conserved cfg_ex s' \<and>
            mlfq_tickets s' = mlfq_tickets ex_run +
              (if ptype (procs ex_run 1) = STRIDE then tickets (procs ex_run 1) else 0)"
    using t[of 1] ex_run_conserved a1 ex_run_ok ex_run_sleepers ch(1,2) by simp
  then have e: "\<exists>s'. exit 1 ex_run = Some s' \<and> tickets_conserved cfg_ex s' \<and> mlfq_tickets s' = 100"
    unfolding ch by simp
  show ?thesis using p s e ex_run_conserved by blast
qed

text \<open>
  Claim C2, as the code has it. \<^verbatim>\<open>set_cpu_share(share)\<close> returns -1 exactly when
  \<open>share < 1\<close>, or \<open>share > 100 - RESERVE\<close>, or \<^verbatim>\<open>mlfq.tickets\<close> plus the caller's current
  stride tickets (if it is already STRIDE) minus \<open>share\<close> is below \<open>RESERVE\<close>; a failing
  call leaves the state unchanged; a successful call returns 0, makes the caller STRIDE
  with \<open>tickets = share\<close>, and sets \<^verbatim>\<open>mlfq.tickets\<close> to its former value plus the tickets
  the caller held as a STRIDE process minus \<open>share\<close>. This is a decrement by exactly
  \<open>share\<close> for an MLFQ caller only: for a caller that is already STRIDE,
  \<^verbatim>\<open>mlfq.tickets\<close> changes by the tickets it held minus \<open>share\<close>, and grows when it asks
  for less than it holds.
\<close>

theorem C2_set_cpu_share:
  "(fst (set_cpu_share cfg cur share s) = - 1 \<longleftrightarrow>
      share < 1 \<or> share > 100 - RESERVE cfg \<or>
      mlfq_tickets s + (if ptype (procs s cur) = STRIDE then tickets (procs s cur) else 0) - share
        < RESERVE cfg) \<and>
   (fst (set_cpu_share cfg cur share s) = - 1 \<longrightarrow> snd (set_cpu_share cfg cur share s) = s) \<and>
   (fst (set_cpu_share cfg cur share s) \<noteq> - 1 \<longrightarrow>
      fst (set_cpu_share cfg cur share s) = 0 \<and>
      mlfq_tickets (snd (set_cpu_share cfg cur share s)) =
        mlfq_tickets s + (if ptype (procs s cur) = STRIDE then tickets (procs s cur) else 0) - share \<and>
      ptype (procs (snd (set_cpu_share cfg cur share s)) cur) = STRIDE \<and>
      tickets (procs (snd (set_cpu_share cfg cur share s)) cur) = share \<and>
      (ptype (procs s cur) = MLFQ \<longrightarrow>
         mlfq_tickets (snd (set_cpu_share cfg cur share s)) = mlfq_tickets s - share))"
proof (intro conjI impI)
  show "fst (set_cpu_share cfg cur share s) = - 1 \<longleftrightarrow>
      share < 1 \<or> share > 100 - RESERVE cfg \<or>
      mlfq_tickets s + (if ptype (procs s cur) = STRIDE then tickets (procs s cur) else 0) - share
        < RESERVE cfg"
    by (rule set_cpu_share_fail_iff)
next
  assume "fst (set_cpu_share cfg cur share s) = - 1"
  then show "snd (set_cpu_share cfg cur share s) = s" by (rule set_cpu_share_fail_same)
next
  assume a: "fst (set_cpu_share cfg cur share s) \<noteq> - 1"
  note r = set_cpu_share_ok[OF a]
  show "fst (set_cpu_share cfg cur share s) = 0" using r by blast
  show m: "mlfq_tickets (snd (set_cpu_share cfg cur share s)) =
        mlfq_tickets s + (if ptype (procs s cur) = STRIDE then tickets (procs s cur) else 0) - share"
    using r by blast
  have c: "procs (snd (set_cpu_share cfg cur share s)) cur =
       (procs s cur)\<lparr>pass := pass (procs (snd (set_cpu_share cfg cur share s)) cur),
                      ptype := STRIDE, tickets := share\<rparr>"
    using r by blast
  show "ptype (procs (snd (set_cpu_share cfg cur share s)) cur) = STRIDE" by (subst c) simp
  show "tickets (procs (snd (set_cpu_share cfg cur share s)) cur) = share" by (subst c) simp
  assume "ptype (procs s cur) = MLFQ"
  then show "mlfq_tickets (snd (set_cpu_share cfg cur share s)) = mlfq_tickets s - share"
    using m by simp
qed

theorem C2_set_cpu_share_witness:
  "fst (set_cpu_share cfg_ex 2 60 ex_run) = - 1 \<and> snd (set_cpu_share cfg_ex 2 60 ex_run) = ex_run \<and>
   fst (set_cpu_share cfg_ex 2 30 ex_run) = 0 \<and>
   mlfq_tickets (snd (set_cpu_share cfg_ex 2 30 ex_run)) = 40 \<and>
   ptype (procs (snd (set_cpu_share cfg_ex 2 30 ex_run)) 2) = STRIDE \<and>
   tickets (procs (snd (set_cpu_share cfg_ex 2 30 ex_run)) 2) = 30 \<and>
   fst (set_cpu_share cfg_ex 1 40 ex_run) = 0 \<and>
   mlfq_tickets (snd (set_cpu_share cfg_ex 1 40 ex_run)) = 60"
proof -
  have v: "mlfq_tickets ex_run = 70" "ptype (procs ex_run 2) = MLFQ" "RESERVE cfg_ex = 20"
    "ptype (procs ex_run 1) = STRIDE" "tickets (procs ex_run 1) = 30"
    by (simp_all add: ex_run_def bss_def proc0_def cfg_ex_def)
  from C2_set_cpu_share[of cfg_ex 1 40 ex_run]
  have h: "fst (set_cpu_share cfg_ex 1 40 ex_run) = 0 \<and>
           mlfq_tickets (snd (set_cpu_share cfg_ex 1 40 ex_run)) = 60"
    unfolding v by simp
  from C2_set_cpu_share[of cfg_ex 2 60 ex_run]
  have f: "fst (set_cpu_share cfg_ex 2 60 ex_run) = - 1 \<and> snd (set_cpu_share cfg_ex 2 60 ex_run) = ex_run"
    unfolding v by simp
  from C2_set_cpu_share[of cfg_ex 2 30 ex_run]
  have g: "fst (set_cpu_share cfg_ex 2 30 ex_run) = 0 \<and>
   mlfq_tickets (snd (set_cpu_share cfg_ex 2 30 ex_run)) = 40 \<and>
   ptype (procs (snd (set_cpu_share cfg_ex 2 30 ex_run)) 2) = STRIDE \<and>
   tickets (procs (snd (set_cpu_share cfg_ex 2 30 ex_run)) 2) = 30"
    unfolding v by simp
  show ?thesis using f g h by blast
qed

text \<open>
  A caller that is already STRIDE: slot 1 of \<open>ex_run\<close> holds 30 tickets and
  \<^verbatim>\<open>mlfq.tickets\<close> is 70. \<^verbatim>\<open>set_cpu_share(40)\<close> returns 0 and leaves \<^verbatim>\<open>mlfq.tickets\<close> at 60,
  ten less and not forty less; \<^verbatim>\<open>set_cpu_share(10)\<close> returns 0 and raises it to 90.
\<close>

theorem C2_set_cpu_share_counterexample:
  "ptype (procs ex_run 1) = STRIDE \<and> tickets (procs ex_run 1) = 30 \<and> mlfq_tickets ex_run = 70 \<and>
   fst (set_cpu_share cfg_ex 1 40 ex_run) = 0 \<and>
   mlfq_tickets (snd (set_cpu_share cfg_ex 1 40 ex_run)) = 60 \<and>
   fst (set_cpu_share cfg_ex 1 10 ex_run) = 0 \<and>
   mlfq_tickets (snd (set_cpu_share cfg_ex 1 10 ex_run)) = 90"
proof -
  have v: "mlfq_tickets ex_run = 70" "RESERVE cfg_ex = 20"
    "ptype (procs ex_run 1) = STRIDE" "tickets (procs ex_run 1) = 30"
    by (simp_all add: ex_run_def bss_def proc0_def cfg_ex_def)
  have a: "fst (set_cpu_share cfg_ex 1 40 ex_run) \<noteq> - 1"
    unfolding set_cpu_share_fail_iff v by simp
  have b: "fst (set_cpu_share cfg_ex 1 10 ex_run) \<noteq> - 1"
    unfolding set_cpu_share_fail_iff v by simp
  from set_cpu_share_ok[OF a]
  have a': "fst (set_cpu_share cfg_ex 1 40 ex_run) = 0 \<and>
            mlfq_tickets (snd (set_cpu_share cfg_ex 1 40 ex_run)) = 60"
    unfolding v by simp
  from set_cpu_share_ok[OF b]
  have b': "fst (set_cpu_share cfg_ex 1 10 ex_run) = 0 \<and>
            mlfq_tickets (snd (set_cpu_share cfg_ex 1 10 ex_run)) = 90"
    unfolding v by simp
  show ?thesis using v a' b' by simp
qed

section \<open>Claims about mlfqlogic\<close>

text \<open>
  Claim C7. For a process \<open>p\<close> in state RUNNABLE that is linked on the queue of its
  level, the \<^verbatim>\<open>switch\<close> of \<^verbatim>\<open>mlfqlogic\<close> (run after \<^verbatim>\<open>mlfq.ticks++\<close>) returns a state
  \<open>s2\<close>, and \<^verbatim>\<open>mlfqlogic\<close> is the priority-boost block applied to \<open>s2\<close>. The ticks of \<open>p\<close>
  are incremented, and then: if \<^verbatim>\<open>p->privlevel < QSIZE - 1\<close> and the new ticks are a
  multiple of \<^verbatim>\<open>TA(p->privlevel)\<close>, \<open>p\<close> leaves the queue of its level (a pin pointing at
  it moves to its successor), its level grows by one, it is at the tail of the queue of
  the new level and its ticks are 0, with nothing but the process table, the pins and
  the links changed; otherwise, if the new ticks are a multiple of \<^verbatim>\<open>TQ(p->privlevel)\<close>,
  the pin of the level of \<open>p\<close> is the successor of the node of \<open>p\<close> and nothing else
  changes; otherwise only the ticks of \<open>p\<close> change. \<^verbatim>\<open>TA\<close> and \<^verbatim>\<open>TQ\<close> are nonzero at the
  level of \<open>p\<close> (the remainder of a division by zero is a trap).
\<close>

theorem C7_mlfqlogic_runnable:
  assumes "lists_ok cfg s L" and "state (procs s p) = RUNNABLE"
    and "privlevel (procs s p) < QSIZE cfg"
    and "ProcNode p \<in> set (L (QueueHead (privlevel (procs s p))))"
    and "TA cfg (privlevel (procs s p)) \<noteq> 0" and "TQ cfg (privlevel (procs s p)) \<noteq> 0"
  shows "\<exists>s2. mlfq_account cfg p (s\<lparr>mlfq_ticks := mlfq_ticks s + 1\<rparr>) = Some s2 \<and>
           mlfqlogic cfg p s = priority_boost cfg s2 \<and>
           (if int (privlevel (procs s p)) < int (QSIZE cfg) - 1 \<and>
               cmod (ticks (procs s p) + 1) (TA cfg (privlevel (procs s p))) = 0
            then procs s2 = (procs s)(p := (procs s p)\<lparr>privlevel := privlevel (procs s p) + 1, ticks := 0\<rparr>) \<and>
                 lists_ok cfg s2 (demote_lists p (privlevel (procs s p)) L) \<and>
                 mlfq_pin s2 =
                   (if mlfq_pin s (privlevel (procs s p)) = ProcNode p
                    then (mlfq_pin s)(privlevel (procs s p) := lnext s (ProcNode p))
                    else mlfq_pin s) \<and>
                 s2 = s\<lparr>mlfq_ticks := mlfq_ticks s + 1, procs := procs s2, mlfq_pin := mlfq_pin s2,
                        lnext := lnext s2, lprev := lprev s2\<rparr>
            else if cmod (ticks (procs s p) + 1) (TQ cfg (privlevel (procs s p))) = 0
            then s2 = s\<lparr>mlfq_ticks := mlfq_ticks s + 1,
                         procs := (procs s)(p := (procs s p)\<lparr>ticks := ticks (procs s p) + 1\<rparr>),
                         mlfq_pin := (mlfq_pin s)(privlevel (procs s p) := lnext s (ProcNode p))\<rparr>
            else s2 = s\<lparr>mlfq_ticks := mlfq_ticks s + 1,
                         procs := (procs s)(p := (procs s p)\<lparr>ticks := ticks (procs s p) + 1\<rparr>)\<rparr>)"
proof -
  let ?s1 = "s\<lparr>mlfq_ticks := mlfq_ticks s + 1\<rparr>"
  let ?lvl = "privlevel (procs s p)"
  have ok1: "lists_ok cfg ?s1 L" by (rule lists_ok_links[OF assms(1)]) simp_all
  have pre: "state (procs ?s1 p) = RUNNABLE" "privlevel (procs ?s1 p) < QSIZE cfg"
    "ProcNode p \<in> set (L (QueueHead (privlevel (procs ?s1 p))))"
    "TA cfg (privlevel (procs ?s1 p)) \<noteq> 0" "TQ cfg (privlevel (procs ?s1 p)) \<noteq> 0"
    using assms(2-6) by simp_all
  have sel: "procs ?s1 = procs s" "mlfq_pin ?s1 = mlfq_pin s" "lnext ?s1 = lnext s" by simp_all
  from mlfq_account_runnable[OF ok1 pre] obtain s2 where
    acc: "mlfq_account cfg p ?s1 = Some s2" and
    c: "if int ?lvl < int (QSIZE cfg) - 1 \<and> TA cfg ?lvl dvd ticks (procs s p) + 1
            then procs s2 = (procs s)(p := (procs s p)\<lparr>privlevel := ?lvl + 1, ticks := 0\<rparr>) \<and>
                 lists_ok cfg s2 (demote_lists p ?lvl L) \<and>
                 mlfq_pin s2 =
                   (if mlfq_pin s ?lvl = ProcNode p
                    then (mlfq_pin s)(?lvl := lnext s (ProcNode p))
                    else mlfq_pin s) \<and>
                 s2 = ?s1\<lparr>procs := procs s2, mlfq_pin := mlfq_pin s2, lnext := lnext s2, lprev := lprev s2\<rparr>
            else if TQ cfg ?lvl dvd ticks (procs s p) + 1
            then s2 = ?s1\<lparr>procs := (procs s)(p := (procs s p)\<lparr>ticks := ticks (procs s p) + 1\<rparr>),
                         mlfq_pin := (mlfq_pin s)(?lvl := lnext s (ProcNode p))\<rparr>
            else s2 = ?s1\<lparr>procs := (procs s)(p := (procs s p)\<lparr>ticks := ticks (procs s p) + 1\<rparr>)\<rparr>"
    unfolding sel demote_lists_def by blast
  have ml: "mlfqlogic cfg p s = priority_boost cfg s2" by (simp add: mlfqlogic_def acc)
  have ta: "cmod (ticks (procs s p) + 1) (TA cfg ?lvl) = 0 \<longleftrightarrow> TA cfg ?lvl dvd ticks (procs s p) + 1"
    by (rule cmod_eq_0_iff[OF assms(5)])
  have tq: "cmod (ticks (procs s p) + 1) (TQ cfg ?lvl) = 0 \<longleftrightarrow> TQ cfg ?lvl dvd ticks (procs s p) + 1"
    by (rule cmod_eq_0_iff[OF assms(6)])
  show ?thesis
    apply (rule exI[of _ s2])
    apply (rule conjI[OF acc])
    apply (rule conjI[OF ml])
    unfolding ta tq
    using c by simp
qed

theorem C7_mlfqlogic_runnable_witness:
  "\<exists>s2. mlfq_account cfg_ex 2 (ex_mlfq\<lparr>mlfq_ticks := mlfq_ticks ex_mlfq + 1\<rparr>) = Some s2 \<and>
        mlfqlogic cfg_ex 2 ex_mlfq = priority_boost cfg_ex s2 \<and>
        procs s2 = (procs ex_mlfq)(2 := (procs ex_mlfq 2)\<lparr>privlevel := 2, ticks := 0\<rparr>) \<and>
        lists_ok cfg_ex s2 (demote_lists 2 1 ex_mlfq_lists) \<and>
        mlfq_pin s2 = mlfq_pin ex_mlfq"
proof -
  have a: "state (procs ex_mlfq 2) = RUNNABLE" "privlevel (procs ex_mlfq 2) = 1"
    "ticks (procs ex_mlfq 2) = 9" "mlfq_pin ex_mlfq 1 = QueueHead 1"
    by (simp_all add: ex_mlfq_def proc0_def)
  have b: "ProcNode 2 \<in> set (ex_mlfq_lists (QueueHead 1))" by (simp add: ex_mlfq_lists_def)
  have c: "QSIZE cfg_ex = 3" "TA cfg_ex 1 = 10" "TQ cfg_ex 1 = 2" by (simp_all add: cfg_ex_def)
  show ?thesis
    using C7_mlfqlogic_runnable[of cfg_ex ex_mlfq ex_mlfq_lists 2, OF ex_mlfq_ok]
    unfolding a c
    using b by (auto simp: cmod_def cdiv_def numeral_2_eq_2)
qed

text \<open>
  Claim C3, the priority boost. On a boost tick (\<^verbatim>\<open>mlfq.ticks % BOOSTINTERVAL == 0\<close> after
  the increment) \<^verbatim>\<open>mlfqlogic\<close> returns, and relative to the queues left by its \<^verbatim>\<open>switch\<close>
  (\<open>account_lists\<close>): every queue of a level \<open>l \<ge> 1\<close> is empty and its former content is
  at the tail of level 0, in the order of the levels; the sleep list is unchanged; every
  process that was on the sleep list or on a queue of a level \<open>l \<ge> 1\<close> has
  \<^verbatim>\<open>privlevel == 0\<close> and \<^verbatim>\<open>ticks == 0\<close>. The loop over the ready queues starts at level 1,
  where the reset is paired with \<^verbatim>\<open>concatqueue(l, 0)\<close>, so a process that was already on
  the level-0 queue is not visited: its entry of the process table is left as it is,
  and if it is the RUNNABLE process \<open>p\<close> itself it keeps its incremented ticks. The
  loop over the sleep list in the same block does reset the sleepers of level 0. For a
  process on the level-0 queue the \<^verbatim>\<open>ticks == 0\<close> of the claim is not established.
\<close>

theorem C3_priority_boost:
  assumes ok: "lists_ok cfg s L" and pk: "pins_ok cfg s L" and q: "0 < QSIZE cfg"
    and bi: "BOOSTINTERVAL cfg \<noteq> 0"
    and boost: "cmod (mlfq_ticks s + 1) (BOOSTINTERVAL cfg) = 0"
    and st: "state (procs s p) = ZOMBIE \<or>
             state (procs s p) = SLEEPING \<and> TQ cfg (privlevel (procs s p)) \<noteq> 0 \<or>
             state (procs s p) = RUNNABLE \<and> privlevel (procs s p) < QSIZE cfg \<and>
             ProcNode p \<in> set (L (QueueHead (privlevel (procs s p)))) \<and>
             TA cfg (privlevel (procs s p)) \<noteq> 0 \<and> TQ cfg (privlevel (procs s p)) \<noteq> 0"
  shows "\<exists>s'. mlfqlogic cfg p s = Some s' \<and>
           lists_ok cfg s' (boost_lists [1..<QSIZE cfg] (account_lists cfg p s L)) \<and>
           pins_ok cfg s' (boost_lists [1..<QSIZE cfg] (account_lists cfg p s L)) \<and>
           (\<forall>l. 1 \<le> l \<and> l < QSIZE cfg \<longrightarrow>
              boost_lists [1..<QSIZE cfg] (account_lists cfg p s L) (QueueHead l) = []) \<and>
           boost_lists [1..<QSIZE cfg] (account_lists cfg p s L) (QueueHead 0) =
             account_lists cfg p s L (QueueHead 0) @
             concat (map (\<lambda>k. account_lists cfg p s L (QueueHead k)) [1..<QSIZE cfg]) \<and>
           boost_lists [1..<QSIZE cfg] (account_lists cfg p s L) SleepHead = L SleepHead \<and>
           (\<forall>i. ProcNode i \<in> set (L SleepHead) \<or>
                (\<exists>l. 1 \<le> l \<and> l < QSIZE cfg \<and>
                     ProcNode i \<in> set (account_lists cfg p s L (QueueHead l))) \<longrightarrow>
                privlevel (procs s' i) = 0 \<and> ticks (procs s' i) = 0) \<and>
           (\<forall>i. ProcNode i \<in> set (account_lists cfg p s L (QueueHead 0)) \<and> i \<noteq> p \<longrightarrow>
                procs s' i = procs s i) \<and>
           (state (procs s p) = RUNNABLE \<and>
            ProcNode p \<in> set (account_lists cfg p s L (QueueHead 0)) \<longrightarrow>
              procs s' p = (procs s p)\<lparr>ticks := ticks (procs s p) + 1\<rparr>)"
proof -
  let ?L2 = "account_lists cfg p s L"
  let ?ls = "[1..<QSIZE cfg]"
  from mlfqlogic_boost[OF ok pk q bi boost st] obtain s2 s' where
    ml: "mlfqlogic cfg p s = Some s'" and
    ok2: "lists_ok cfg s2 ?L2" and
    ok3: "lists_ok cfg s' (boost_lists ?ls ?L2)" and
    pk3: "pins_ok cfg s' (boost_lists ?ls ?L2)" and
    pr: "procs s' = reset_procs (concat (map (\<lambda>k. ?L2 (QueueHead k)) ?ls) @ ?L2 SleepHead) (procs s2)" and
    oth: "\<forall>i. i \<noteq> p \<longrightarrow> procs s2 i = procs s i" and
    run: "state (procs s p) = RUNNABLE \<and> \<not> demotes cfg p s \<longrightarrow>
                 procs s2 p = (procs s p)\<lparr>ticks := ticks (procs s p) + 1\<rparr>"
    by blast
  have sl: "?L2 SleepHead = L SleepHead" by (simp add: account_lists_def demote_lists_def)
  have e1: "\<forall>l. 1 \<le> l \<and> l < QSIZE cfg \<longrightarrow> boost_lists ?ls ?L2 (QueueHead l) = []"
    by (simp add: boost_lists_def)
  have e2: "boost_lists ?ls ?L2 (QueueHead 0) =
              ?L2 (QueueHead 0) @ concat (map (\<lambda>k. ?L2 (QueueHead k)) ?ls)"
    by (simp add: boost_lists_def)
  have e3: "boost_lists ?ls ?L2 SleepHead = L SleepHead" using sl by (simp add: boost_lists_def)
  have rs: "\<forall>i. ProcNode i \<in> set (L SleepHead) \<or>
                (\<exists>l. 1 \<le> l \<and> l < QSIZE cfg \<and> ProcNode i \<in> set (?L2 (QueueHead l))) \<longrightarrow>
                privlevel (procs s' i) = 0 \<and> ticks (procs s' i) = 0"
    unfolding pr sl reset_procs_def by auto
  have h0: "QueueHead 0 \<in> set (heads cfg)" by (rule queue_head_in_heads[OF q])
  have lvl0: "procs s' i = procs s2 i" if i: "ProcNode i \<in> set (?L2 (QueueHead 0))" for i
  proof -
    have "ProcNode i \<notin> set (?L2 SleepHead)"
      using lists_ok_disj[OF ok2 h0 special_heads(2)] i by auto
    moreover have "ProcNode i \<notin> set (?L2 (QueueHead k))" if "k \<in> set ?ls" for k
    proof -
      from that have "k < QSIZE cfg" "QueueHead 0 \<noteq> QueueHead k" by auto
      from lists_ok_disj[OF ok2 h0 queue_head_in_heads[OF this(1)] this(2)] i show ?thesis by auto
    qed
    ultimately show ?thesis unfolding pr reset_procs_def by auto
  qed
  have keep: "\<forall>i. ProcNode i \<in> set (?L2 (QueueHead 0)) \<and> i \<noteq> p \<longrightarrow> procs s' i = procs s i"
    using lvl0 oth by simp
  have own: "state (procs s p) = RUNNABLE \<and> ProcNode p \<in> set (?L2 (QueueHead 0)) \<longrightarrow>
              procs s' p = (procs s p)\<lparr>ticks := ticks (procs s p) + 1\<rparr>"
  proof (intro impI, elim conjE)
    assume r: "state (procs s p) = RUNNABLE" and i: "ProcNode p \<in> set (?L2 (QueueHead 0))"
    have "\<not> demotes cfg p s"
    proof
      assume d: "demotes cfg p s"
      then have l1: "privlevel (procs s p) + 1 < QSIZE cfg" by (simp add: demotes_def)
      have "ProcNode p \<in> set (?L2 (QueueHead (privlevel (procs s p) + 1)))"
        using d by (simp add: account_lists_def demote_lists_def)
      moreover have "QueueHead 0 \<noteq> QueueHead (privlevel (procs s p) + 1)" by simp
      ultimately show False
        using lists_ok_disj[OF ok2 h0 queue_head_in_heads[OF l1]] i by auto
    qed
    then show "procs s' p = (procs s p)\<lparr>ticks := ticks (procs s p) + 1\<rparr>"
      using run r lvl0[OF i] by simp
  qed
  show ?thesis
    apply (rule exI[of _ s'])
    using ml ok3 pk3 e1 e2 e3 rs keep own by blast
qed

text \<open>
  The failing input, the state \<open>ex_mlfq\<close>: slot 0 is an MLFQ process on the
  level-0 queue with one tick, \<^verbatim>\<open>mlfq.ticks\<close> goes from 99 to 100 with
  \<^verbatim>\<open>BOOSTINTERVAL = 100\<close>, and after \<^verbatim>\<open>mlfqlogic\<close> slot 0 is still the first node of
  the level-0 queue and has two ticks.
\<close>

theorem C3_priority_boost_counterexample:
  "cmod (mlfq_ticks ex_mlfq + 1) (BOOSTINTERVAL cfg_ex) = 0 \<and>
   ptype (procs ex_mlfq 0) = MLFQ \<and>
   map_option (ptype_of 0) (mlfqlogic cfg_ex 0 ex_mlfq) = Some MLFQ \<and>
   map_option (next_of (QueueHead 0)) (mlfqlogic cfg_ex 0 ex_mlfq) = Some (ProcNode 0) \<and>
   map_option (ticks_of 0) (mlfqlogic cfg_ex 0 ex_mlfq) = Some 2"
proof -
  have bt: "cmod (mlfq_ticks ex_mlfq + 1) (BOOSTINTERVAL cfg_ex) = 0"
    by (simp add: ex_mlfq_facts cmod_def cdiv_def)
  have st: "state (procs ex_mlfq 0) = ZOMBIE \<or>
             state (procs ex_mlfq 0) = SLEEPING \<and> TQ cfg_ex (privlevel (procs ex_mlfq 0)) \<noteq> 0 \<or>
             state (procs ex_mlfq 0) = RUNNABLE \<and> privlevel (procs ex_mlfq 0) < QSIZE cfg_ex \<and>
             ProcNode 0 \<in> set (ex_mlfq_lists (QueueHead (privlevel (procs ex_mlfq 0)))) \<and>
             TA cfg_ex (privlevel (procs ex_mlfq 0)) \<noteq> 0 \<and> TQ cfg_ex (privlevel (procs ex_mlfq 0)) \<noteq> 0"
    by (simp add: ex_mlfq_facts ex_mlfq_lists_def)
  have nd: "\<not> demotes cfg_ex 0 ex_mlfq"
    by (simp add: demotes_def ex_mlfq_facts cmod_def cdiv_def)
  have q: "0 < QSIZE cfg_ex" "BOOSTINTERVAL cfg_ex \<noteq> 0" by (simp_all add: ex_mlfq_facts)
  from mlfqlogic_boost[OF ex_mlfq_ok ex_mlfq_pins q bt st] obtain s2 :: ptable and s' where
    ml: "mlfqlogic cfg_ex 0 ex_mlfq = Some s'" and
    ok3': "lists_ok cfg_ex s' (boost_lists [1..<QSIZE cfg_ex] ex_mlfq_lists)" and
    pr': "procs s' = reset_procs (concat (map (\<lambda>k. ex_mlfq_lists (QueueHead k)) [1..<QSIZE cfg_ex])
                                   @ ex_mlfq_lists SleepHead) (procs s2)" and
    run': "state (procs ex_mlfq 0) = RUNNABLE \<and> \<not> demotes cfg_ex 0 ex_mlfq \<longrightarrow>
            procs s2 0 = (procs ex_mlfq 0)\<lparr>ticks := ticks (procs ex_mlfq 0) + 1\<rparr>"
    unfolding ex_mlfq_account by blast
  have ok3: "lists_ok cfg_ex s' (boost_lists [1..<3] ex_mlfq_lists)"
    using ok3' by (simp add: ex_mlfq_facts)
  have pr: "procs s' = reset_procs (concat (map (\<lambda>k. ex_mlfq_lists (QueueHead k)) [1..<3])
                                   @ ex_mlfq_lists SleepHead) (procs s2)"
    using pr' by (simp add: ex_mlfq_facts)
  have run: "procs s2 0 = (procs ex_mlfq 0)\<lparr>ticks := ticks (procs ex_mlfq 0) + 1\<rparr>"
    using run' nd by (simp add: ex_mlfq_facts)
  have p0: "procs s' 0 = (procs ex_mlfq 0)\<lparr>ticks := 2\<rparr>"
    unfolding pr reset_procs_def run by (simp add: ex_mlfq_lists_def upt_rec ex_mlfq_facts)
  have "ring s' (QueueHead 0) (boost_lists [1..<3] ex_mlfq_lists (QueueHead 0))"
    by (rule lists_ok_ring[OF ok3]) (simp add: heads_ex)
  from ring_next_head[OF this] have nx: "lnext s' (QueueHead 0) = ProcNode 0"
    unfolding ex_mlfq_boosted by simp
  show ?thesis
    using bt p0 nx by (simp add: ml ticks_of_def next_of_def ptype_of_def ex_mlfq_facts)
qed

text \<open>The same boost tick, read through the theorem: slot 2 comes up from level 1 and is
  reset, slot 1 is untouched, slot 0 has two ticks.\<close>

theorem C3_priority_boost_witness:
  "cmod (mlfq_ticks ex_mlfq + 1) (BOOSTINTERVAL cfg_ex) = 0 \<and>
   (\<exists>s'. mlfqlogic cfg_ex 0 ex_mlfq = Some s' \<and>
         lists_ok cfg_ex s' (boost_lists [1..<3] ex_mlfq_lists) \<and>
         pins_ok cfg_ex s' (boost_lists [1..<3] ex_mlfq_lists) \<and>
         boost_lists [1..<3] ex_mlfq_lists (QueueHead 0) = [ProcNode 0, ProcNode 1, ProcNode 2] \<and>
         boost_lists [1..<3] ex_mlfq_lists (QueueHead 1) = [] \<and>
         privlevel (procs s' 2) = 0 \<and> ticks (procs s' 2) = 0 \<and>
         procs s' 1 = procs ex_mlfq 1 \<and>
         procs s' 0 = (procs ex_mlfq 0)\<lparr>ticks := 2\<rparr>)"
proof -
  have bt: "cmod (mlfq_ticks ex_mlfq + 1) (BOOSTINTERVAL cfg_ex) = 0"
    by (simp add: ex_mlfq_facts cmod_def cdiv_def)
  have st: "state (procs ex_mlfq 0) = ZOMBIE \<or>
             state (procs ex_mlfq 0) = SLEEPING \<and> TQ cfg_ex (privlevel (procs ex_mlfq 0)) \<noteq> 0 \<or>
             state (procs ex_mlfq 0) = RUNNABLE \<and> privlevel (procs ex_mlfq 0) < QSIZE cfg_ex \<and>
             ProcNode 0 \<in> set (ex_mlfq_lists (QueueHead (privlevel (procs ex_mlfq 0)))) \<and>
             TA cfg_ex (privlevel (procs ex_mlfq 0)) \<noteq> 0 \<and> TQ cfg_ex (privlevel (procs ex_mlfq 0)) \<noteq> 0"
    by (simp add: ex_mlfq_facts ex_mlfq_lists_def)
  have l: "ProcNode 2 \<in> set (ex_mlfq_lists (QueueHead 1))"
    "ProcNode 1 \<in> set (ex_mlfq_lists (QueueHead 0))" "ProcNode 0 \<in> set (ex_mlfq_lists (QueueHead 0))"
    by (simp_all add: ex_mlfq_lists_def)
  have q: "0 < QSIZE cfg_ex" "BOOSTINTERVAL cfg_ex \<noteq> 0" by (simp_all add: ex_mlfq_facts)
  from C3_priority_boost[OF ex_mlfq_ok ex_mlfq_pins q bt st] obtain s' where
    ml: "mlfqlogic cfg_ex 0 ex_mlfq = Some s'" and
    ok3': "lists_ok cfg_ex s' (boost_lists [1..<QSIZE cfg_ex] ex_mlfq_lists)" and
    pk3': "pins_ok cfg_ex s' (boost_lists [1..<QSIZE cfg_ex] ex_mlfq_lists)" and
    e1': "\<forall>l. 1 \<le> l \<and> l < QSIZE cfg_ex \<longrightarrow>
            boost_lists [1..<QSIZE cfg_ex] ex_mlfq_lists (QueueHead l) = []" and
    rs': "\<forall>i. ProcNode i \<in> set (ex_mlfq_lists SleepHead) \<or>
                (\<exists>l. 1 \<le> l \<and> l < QSIZE cfg_ex \<and> ProcNode i \<in> set (ex_mlfq_lists (QueueHead l))) \<longrightarrow>
                privlevel (procs s' i) = 0 \<and> ticks (procs s' i) = 0" and
    keep: "\<forall>i. ProcNode i \<in> set (ex_mlfq_lists (QueueHead 0)) \<and> i \<noteq> 0 \<longrightarrow>
                procs s' i = procs ex_mlfq i" and
    own': "state (procs ex_mlfq 0) = RUNNABLE \<and> ProcNode 0 \<in> set (ex_mlfq_lists (QueueHead 0)) \<longrightarrow>
              procs s' 0 = (procs ex_mlfq 0)\<lparr>ticks := ticks (procs ex_mlfq 0) + 1\<rparr>"
    unfolding ex_mlfq_account by blast
  have ok3: "lists_ok cfg_ex s' (boost_lists [1..<3] ex_mlfq_lists)"
    using ok3' by (simp add: ex_mlfq_facts)
  have pk3: "pins_ok cfg_ex s' (boost_lists [1..<3] ex_mlfq_lists)"
    using pk3' by (simp add: ex_mlfq_facts)
  have e1: "\<forall>l. 1 \<le> l \<and> l < 3 \<longrightarrow> boost_lists [1..<3] ex_mlfq_lists (QueueHead l) = []"
    using e1' by (simp add: ex_mlfq_facts)
  have rs: "\<forall>i. ProcNode i \<in> set (ex_mlfq_lists SleepHead) \<or>
                (\<exists>l. 1 \<le> l \<and> l < 3 \<and> ProcNode i \<in> set (ex_mlfq_lists (QueueHead l))) \<longrightarrow>
                privlevel (procs s' i) = 0 \<and> ticks (procs s' i) = 0"
    using rs' by (simp add: ex_mlfq_facts)
  have own: "procs s' 0 = (procs ex_mlfq 0)\<lparr>ticks := ticks (procs ex_mlfq 0) + 1\<rparr>"
    using own' l(3) by (simp add: ex_mlfq_facts)
  have a: "privlevel (procs s' 2) = 0 \<and> ticks (procs s' 2) = 0" using rs l(1) by force
  have b: "procs s' 1 = procs ex_mlfq 1" using keep l(2) by simp
  have c: "procs s' 0 = (procs ex_mlfq 0)\<lparr>ticks := 2\<rparr>" using own by (simp add: ex_mlfq_facts)
  have d: "boost_lists [1..<3] ex_mlfq_lists (QueueHead 1) = []" using e1 by simp
  show ?thesis
    using bt ml ok3 pk3 ex_mlfq_boosted a b c d by simp
qed

section \<open>Claims about the stride side of the scheduler\<close>

text \<open>
  Claim C10. Heap membership of sleeping stride processes. The lists are well formed,
  the heap is a heap with distinct entries none of which is on the run list, and \<open>p\<close> is
  a STRIDE process with nonzero tickets. If \<open>p\<close> is running (on the run list) and blocks
  in \<^verbatim>\<open>sleep\<close> or gives up the CPU in \<^verbatim>\<open>yield\<close>, the rest of the scheduler iteration
  returns with \<open>p\<close> pushed onto the heap and its pass advanced by \<^verbatim>\<open>STRD(tickets)\<close>; after
  \<^verbatim>\<open>sleep\<close> it is SLEEPING, at the head of the sleep list and an entry of the heap at
  once. A ZOMBIE is not pushed: the heap is left as it is. When the scheduler pops a
  SLEEPING process \<open>p\<close> from the heap (\<^verbatim>\<open>getminpass() < mlfq.pass\<close>), the iteration does not
  switch to it: it ends with \<open>p\<close> still SLEEPING, the lists unchanged, \<open>p\<close> pushed again
  (the entries of the heap are the same) and its pass advanced once more by
  \<^verbatim>\<open>STRD(tickets)\<close>.
\<close>

theorem C10_sleeping_stride_in_heap:
  assumes ok: "lists_ok cfg s L" and hi: "heap_inv s" and sz: "0 \<le> stride_size s"
    and d: "distinct (heap_slots s)"
    and hr: "\<forall>i\<in>set (heap_slots s). ProcNode i \<notin> set (L RunHead)"
    and ty: "ptype (procs s p) = STRIDE" and tk: "tickets (procs s p) \<noteq> 0"
  shows "(ProcNode p \<in> set (L RunHead) \<longrightarrow>
           (\<exists>s'. scheduler_return cfg p (sleep p c s) = Some s' \<and>
                 lists_ok cfg s' (L(RunHead := remove1 (ProcNode p) (L RunHead),
                                    SleepHead := ProcNode p # L SleepHead)) \<and>
                 heap_inv s' \<and> heap_elems s' = add_mset p (heap_elems s) \<and>
                 state (procs s' p) = SLEEPING \<and>
                 pass (procs s' p) = pass (procs s p) + STRD cfg (tickets (procs s p))) \<and>
           (\<exists>s'. scheduler_return cfg p (yield p s) = Some s' \<and>
                 lists_ok cfg s' (L(RunHead := remove1 (ProcNode p) (L RunHead))) \<and>
                 heap_inv s' \<and> heap_elems s' = add_mset p (heap_elems s) \<and>
                 state (procs s' p) = RUNNABLE \<and>
                 pass (procs s' p) = pass (procs s p) + STRD cfg (tickets (procs s p)))) \<and>
         (state (procs s p) = ZOMBIE \<longrightarrow>
           (\<exists>s'. scheduler_return cfg p s = Some s' \<and> lists_ok cfg s' L \<and>
                 stride_minheap s' = stride_minheap s \<and> stride_size s' = stride_size s)) \<and>
         (1 \<le> stride_size s \<and> getminpass cfg s < mlfq_pass s \<and> stride_minheap s 1 = p \<and>
          state (procs s p) = SLEEPING \<longrightarrow>
           (\<exists>s'. scheduler_dispatch cfg s = Some (Looped s') \<and> lists_ok cfg s' L \<and>
                 heap_inv s' \<and> heap_elems s' = heap_elems s \<and>
                 state (procs s' p) = SLEEPING \<and>
                 pass (procs s' p) = pass (procs s p) + STRD cfg (tickets (procs s p))))"
proof (intro conjI impI)
  assume on: "ProcNode p \<in> set (L RunHead)"
  let ?L1 = "L(RunHead := remove1 (ProcNode p) (L RunHead), SleepHead := ProcNode p # L SleepHead)"
  let ?q1 = "(procs s p)\<lparr>chan := c, state := SLEEPING\<rparr>"
  note sl = sleep_stride[OF ok ty on, of c]
  have "\<exists>s'. scheduler_return cfg p (sleep p c s) = Some s' \<and> lists_ok cfg s' ?L1 \<and> heap_inv s' \<and>
           heap_elems s' = add_mset p (heap_elems s) \<and> state (procs s' p) = state ?q1 \<and>
           pass (procs s' p) = pass (procs s p) + STRD cfg (tickets (procs s p))"
    by (rule stride_return[OF ok hi sz d hr ty tk on sl(1) _ sl(2) _ _ _ _ sl(3,4)]) (simp_all add: ty)
  then show "\<exists>s'. scheduler_return cfg p (sleep p c s) = Some s' \<and> lists_ok cfg s' ?L1 \<and>
                 heap_inv s' \<and> heap_elems s' = add_mset p (heap_elems s) \<and>
                 state (procs s' p) = SLEEPING \<and>
                 pass (procs s' p) = pass (procs s p) + STRD cfg (tickets (procs s p))"
    by simp
  let ?L2 = "L(RunHead := remove1 (ProcNode p) (L RunHead))"
  let ?q2 = "(procs s p)\<lparr>state := RUNNABLE\<rparr>"
  note y = yield_stride[OF ok ty on]
  have "\<exists>s'. scheduler_return cfg p (yield p s) = Some s' \<and> lists_ok cfg s' ?L2 \<and> heap_inv s' \<and>
           heap_elems s' = add_mset p (heap_elems s) \<and> state (procs s' p) = state ?q2 \<and>
           pass (procs s' p) = pass (procs s p) + STRD cfg (tickets (procs s p))"
    by (rule stride_return[OF ok hi sz d hr ty tk on y(1) _ y(2) _ _ _ _ y(3,4)]) (simp_all add: ty)
  then show "\<exists>s'. scheduler_return cfg p (yield p s) = Some s' \<and> lists_ok cfg s' ?L2 \<and>
                 heap_inv s' \<and> heap_elems s' = add_mset p (heap_elems s) \<and>
                 state (procs s' p) = RUNNABLE \<and>
                 pass (procs s' p) = pass (procs s p) + STRD cfg (tickets (procs s p))"
    by simp
next
  assume "state (procs s p) = ZOMBIE"
  then show "\<exists>s'. scheduler_return cfg p s = Some s' \<and> lists_ok cfg s' L \<and>
                 stride_minheap s' = stride_minheap s \<and> stride_size s' = stride_size s"
    by (rule stride_zombie[OF ok d hr ty])
next
  assume a: "1 \<le> stride_size s \<and> getminpass cfg s < mlfq_pass s \<and> stride_minheap s 1 = p \<and>
          state (procs s p) = SLEEPING"
  show "\<exists>s'. scheduler_dispatch cfg s = Some (Looped s') \<and> lists_ok cfg s' L \<and>
                 heap_inv s' \<and> heap_elems s' = heap_elems s \<and>
                 state (procs s' p) = SLEEPING \<and>
                 pass (procs s' p) = pass (procs s p) + STRD cfg (tickets (procs s p))"
    by (rule dispatch_sleeping[OF ok hi _ d hr _ _ ty _ tk]) (use a in simp_all)
qed

text \<open>On the example states: slot 1 of \<open>ex_run\<close> sleeps, yields or exits with an empty
  heap; slot 1 of \<open>ex_sleep\<close> is popped while it sleeps.\<close>

theorem C10_sleeping_stride_in_heap_witness:
  "(\<exists>s'. scheduler_return cfg_ex 1 (sleep 1 (AddrChan 7) ex_run) = Some s' \<and>
         lists_ok cfg_ex s' (ex_run_lists(RunHead := [], SleepHead := [ProcNode 1, ProcNode 0])) \<and>
         heap_elems s' = {#1#} \<and> state (procs s' 1) = SLEEPING \<and> pass (procs s' 1) = 1000733) \<and>
   (\<exists>s'. scheduler_return cfg_ex 1 (yield 1 ex_run) = Some s' \<and>
         heap_elems s' = {#1#} \<and> state (procs s' 1) = RUNNABLE \<and> pass (procs s' 1) = 1000733) \<and>
   (\<exists>s'. scheduler_return cfg_ex 1
            (upd_proc 1 (\<lambda>x. x\<lparr>state := ZOMBIE\<rparr>) (list_del (ProcNode 1) ex_run)) = Some s' \<and>
         stride_size s' = 0) \<and>
   (\<exists>s'. scheduler_dispatch cfg_ex ex_sleep = Some (Looped s') \<and> lists_ok cfg_ex s' ex_sleep_lists \<and>
         heap_elems s' = {#1#} \<and> state (procs s' 1) = SLEEPING \<and> pass (procs s' 1) = 733)"
proof -
  have p1: "0 \<le> stride_size ex_run" "distinct (heap_slots ex_run)"
    "\<forall>i\<in>set (heap_slots ex_run). ProcNode i \<notin> set (ex_run_lists RunHead)"
    "tickets (procs ex_run 1) \<noteq> 0" "ProcNode 1 \<in> set (ex_run_lists RunHead)"
    by (simp_all add: ex_run_facts del: One_nat_def)
  note A = C10_sleeping_stride_in_heap[OF ex_run_ok ex_run_facts(7) p1(1,2,3) ex_run_facts(1) p1(4),
      where c = "AddrChan 7"]
  from A p1(5) have a1: "\<exists>s'. scheduler_return cfg_ex 1 (sleep 1 (AddrChan 7) ex_run) = Some s' \<and>
         lists_ok cfg_ex s' (ex_run_lists(RunHead := [], SleepHead := [ProcNode 1, ProcNode 0])) \<and>
         heap_elems s' = {#1#} \<and> state (procs s' 1) = SLEEPING \<and> pass (procs s' 1) = 1000733"
    by (simp add: ex_run_facts strd_ex del: One_nat_def) blast
  from A p1(5) have a2: "\<exists>s'. scheduler_return cfg_ex 1 (yield 1 ex_run) = Some s' \<and>
         heap_elems s' = {#1#} \<and> state (procs s' 1) = RUNNABLE \<and> pass (procs s' 1) = 1000733"
    by (simp add: ex_run_facts strd_ex del: One_nat_def) blast
  let ?z = "upd_proc 1 (\<lambda>x. x\<lparr>state := ZOMBIE\<rparr>) (list_del (ProcNode 1) ex_run)"
  have okz: "lists_ok cfg_ex ?z (ex_run_lists(RunHead := remove1 (ProcNode 1) (ex_run_lists RunHead)))"
    by (rule lists_ok_links[OF lists_ok_del[OF ex_run_ok special_heads(1) p1(5)]]) simp_all
  have z: "heap_inv ?z" "0 \<le> stride_size ?z" "distinct (heap_slots ?z)"
    "\<forall>i\<in>set (heap_slots ?z).
        ProcNode i \<notin> set ((ex_run_lists(RunHead := remove1 (ProcNode 1) (ex_run_lists RunHead))) RunHead)"
    "ptype (procs ?z 1) = STRIDE" "tickets (procs ?z 1) \<noteq> 0" "state (procs ?z 1) = ZOMBIE"
    "stride_size ?z = 0"
    by (simp_all add: heap_inv_def heap_ok_def heap_slots_def ex_run_facts del: One_nat_def)
  from C10_sleeping_stride_in_heap[OF okz z(1,2,3,4,5,6), where c = NoChan] z(7)
  have a3: "\<exists>s'. scheduler_return cfg_ex 1 ?z = Some s' \<and> stride_size s' = 0"
    unfolding z(8) by blast
  have p2: "0 \<le> stride_size ex_sleep" "distinct (heap_slots ex_sleep)"
    "\<forall>i\<in>set (heap_slots ex_sleep). ProcNode i \<notin> set (ex_sleep_lists RunHead)"
    "tickets (procs ex_sleep 1) \<noteq> 0"
    "1 \<le> stride_size ex_sleep \<and> getminpass cfg_ex ex_sleep < mlfq_pass ex_sleep \<and>
     stride_minheap ex_sleep 1 = 1 \<and> state (procs ex_sleep 1) = SLEEPING"
    by (simp_all add: ex_sleep_facts getminpass_def del: One_nat_def)
  from C10_sleeping_stride_in_heap[OF ex_sleep_ok ex_sleep_facts(9) p2(1,2,3) ex_sleep_facts(1) p2(4),
      where c = NoChan] p2(5)
  have a4: "\<exists>s'. scheduler_dispatch cfg_ex ex_sleep = Some (Looped s') \<and> lists_ok cfg_ex s' ex_sleep_lists \<and>
         heap_elems s' = {#1#} \<and> state (procs s' 1) = SLEEPING \<and> pass (procs s' 1) = 733"
    by (simp add: ex_sleep_facts strd_ex del: One_nat_def) blast
  show ?thesis using a1 a2 a3 a4 by blast
qed

text \<open>
  Claim C6, the overflow rebase of \<^verbatim>\<open>stridelogic\<close>. With \<^verbatim>\<open>minpass\<close> as the claim defines it
  (\<open>minpass_of\<close>) and \<^verbatim>\<open>minpass > BARRIER\<close>, on well-formed lists and a heap with distinct
  entries none of which is on the run list, the rebase returns; \<^verbatim>\<open>minpass\<close> is subtracted
  from \<^verbatim>\<open>mlfq.pass\<close> and from the pass of every process in the heap and on the run list,
  and no other process is changed. The departing STRIDE process \<open>q\<close> is at that moment
  neither in the heap (the scheduler popped it) nor on the run list (\<^verbatim>\<open>yield\<close>, \<^verbatim>\<open>sleep\<close>
  and \<^verbatim>\<open>exit\<close> unlinked it), so its own pass, which is \<^verbatim>\<open>minpass\<close>, is not rebased: after
  the subtraction it is still above \<^verbatim>\<open>BARRIER\<close>, and the bound of the claim does not
  hold for it.
\<close>

theorem C6_rebase:
  assumes ok: "lists_ok cfg s L" and d: "distinct (heap_slots s)"
    and hr: "\<forall>i\<in>set (heap_slots s). ProcNode i \<notin> set (L RunHead)"
    and gt: "BARRIER cfg < minpass_of p s"
  shows "\<exists>s'. rebase cfg p s = Some s' \<and>
           mlfq_pass s' = mlfq_pass s - minpass_of p s \<and>
           (\<forall>i. i \<in> set (heap_slots s) \<or> ProcNode i \<in> set (L RunHead) \<longrightarrow>
                pass (procs s' i) = pass (procs s i) - minpass_of p s) \<and>
           (\<forall>i. i \<notin> set (heap_slots s) \<and> ProcNode i \<notin> set (L RunHead) \<longrightarrow>
                procs s' i = procs s i) \<and>
           (\<forall>q. p = Some q \<and> ptype (procs s q) = STRIDE \<and> q \<notin> set (heap_slots s) \<and>
                ProcNode q \<notin> set (L RunHead) \<longrightarrow>
                BARRIER cfg < pass (procs s' q))"
proof -
  from rebase_facts[OF ok d hr, of p] gt obtain s1 where
    rb: "rebase cfg p s = Some s1" and
    same: "\<forall>i. i \<notin> set (heap_slots s) \<and> ProcNode i \<notin> set (L RunHead) \<longrightarrow> procs s1 i = procs s i" and
    sh: "\<forall>i. i \<in> set (heap_slots s) \<or> ProcNode i \<in> set (L RunHead) \<longrightarrow>
                pass (procs s1 i) = pass (procs s i) - minpass_of p s" and
    mp: "mlfq_pass s1 = mlfq_pass s - minpass_of p s"
    by auto
  have dep: "\<forall>q. p = Some q \<and> ptype (procs s q) = STRIDE \<and> q \<notin> set (heap_slots s) \<and>
                ProcNode q \<notin> set (L RunHead) \<longrightarrow> BARRIER cfg < pass (procs s1 q)"
  proof (intro allI impI, elim conjE)
    fix q assume q: "p = Some q" "ptype (procs s q) = STRIDE" "q \<notin> set (heap_slots s)"
      "ProcNode q \<notin> set (L RunHead)"
    then have "minpass_of p s = pass (procs s q)" by (simp add: minpass_of_def)
    moreover have "procs s1 q = procs s q" using same q(3,4) by simp
    ultimately show "BARRIER cfg < pass (procs s1 q)" using gt by simp
  qed
  show ?thesis
    apply (rule exI[of _ s1])
    using rb mp sh same dep by blast
qed

text \<open>Slot 1 of \<open>ex_run\<close> yields with pass 1000400 while \<^verbatim>\<open>mlfq.pass\<close> is 1000500 and
  \<^verbatim>\<open>BARRIER\<close> is 1000000: the rebase takes \<^verbatim>\<open>mlfq.pass\<close> to 100 and leaves the pass of
  slot 1 at 1000400.\<close>

theorem C6_rebase_witness:
  "BARRIER cfg_ex = 1000000 \<and>
   (\<exists>s'. rebase cfg_ex (Some 1) (yield 1 ex_run) = Some s' \<and> mlfq_pass s' = 100 \<and>
         pass (procs s' 1) = 1000400)"
proof -
  have on: "ProcNode 1 \<in> set (ex_run_lists RunHead)" by (simp add: ex_run_facts)
  note y = yield_stride[OF ex_run_ok ex_run_facts(1) on]
  have hs: "heap_slots (yield 1 ex_run) = []"
    by (simp add: heap_slots_def y(4) ex_run_facts del: One_nat_def)
  have mp: "minpass_of (Some 1) (yield 1 ex_run) = 1000400"
    by (simp add: minpass_of_def y(2) ex_run_facts del: One_nat_def)
  have a: "distinct (heap_slots (yield 1 ex_run))"
    "\<forall>i\<in>set (heap_slots (yield 1 ex_run)).
        ProcNode i \<notin> set ((ex_run_lists(RunHead := remove1 (ProcNode 1) (ex_run_lists RunHead))) RunHead)"
    "BARRIER cfg_ex < minpass_of (Some 1) (yield 1 ex_run)"
    by (simp_all add: hs mp strd_ex del: One_nat_def)
  from C6_rebase[OF y(1) a] obtain s' where
    rb: "rebase cfg_ex (Some 1) (yield 1 ex_run) = Some s'" and
    m: "mlfq_pass s' = mlfq_pass (yield 1 ex_run) - minpass_of (Some 1) (yield 1 ex_run)" and
    same: "\<forall>i. i \<notin> set (heap_slots (yield 1 ex_run)) \<and>
               ProcNode i \<notin> set ((ex_run_lists(RunHead := remove1 (ProcNode 1) (ex_run_lists RunHead))) RunHead)
               \<longrightarrow> procs s' i = procs (yield 1 ex_run) i"
    by blast
  have "procs s' 1 = procs (yield 1 ex_run) 1"
    using same by (simp add: hs ex_run_facts del: One_nat_def)
  then have "pass (procs s' 1) = 1000400" by (simp add: y(2) ex_run_facts del: One_nat_def)
  moreover have "mlfq_pass s' = 100" unfolding m mp y(5) by (simp add: ex_run_facts del: One_nat_def)
  ultimately show ?thesis using rb by (simp add: strd_ex del: One_nat_def)
qed

end
